(* ===== verification/Prelude.thy ===== *)
theory Prelude
  imports Main "HOL-Library.Word"
begin

text \<open>
  Shared foundations of the development: the machine types of the C++ sources, the
  faults an execution can end in, list and word facts every component uses, and three
  interfaces (\<open>invariant_system\<close>, \<open>progress_system\<close>, \<open>preserving_ops\<close>) that turn one-step
  lemmas into facts about whole executions.

  \<^item> \<open>size_t\<close> is a 64-bit word, so that decrements below zero and sums past the
    maximum wrap exactly as they do in the program.
  \<^item> \<open>fault\<close> collects the ways an operation can fail to return: a failed
    \<open>assert\<close> (in a build without \<open>NDEBUG\<close>) or undefined behaviour (an access outside a
    buffer, a division by zero, the destruction of an object that does not exist).
    Theorems that an operation returns \<open>Inr\<close> are therefore memory-safety theorems.
\<close>

section \<open>Machine types and faults\<close>

type_synonym size_t = "64 word"
type_synonym byte = "8 word"
type_synonym address = nat

datatype fault = AssertFailed string | UndefinedBehaviour string | OutOfFuel

type_synonym 'a outcome = "fault + 'a"

text \<open>
  \<open>cassert dbg P msg\<close> is \<open>assert(P && msg)\<close>: \<open>dbg\<close> is true in a build without
  \<open>NDEBUG\<close> (Debug) and false in a Release build, where the macro expands to nothing.
\<close>

definition cassert :: "bool \<Rightarrow> bool \<Rightarrow> string \<Rightarrow> fault option" where
  "cassert dbg P msg = (if dbg \<and> \<not> P then Some (AssertFailed msg) else None)"

definition guard_fault :: "fault option \<Rightarrow> 'a outcome \<Rightarrow> 'a outcome" where
  "guard_fault g r = (case g of None \<Rightarrow> r | Some f \<Rightarrow> Inl f)"

definition obind :: "'a outcome \<Rightarrow> ('a \<Rightarrow> 'b outcome) \<Rightarrow> 'b outcome" where
  "obind r f = (case r of Inl e \<Rightarrow> Inl e | Inr x \<Rightarrow> f x)"

lemma cassert_simps [simp]:
  "cassert dbg True msg = None"
  "cassert False P msg = None"
  "cassert True False msg = Some (AssertFailed msg)"
  by (simp_all add: cassert_def)

lemma cassert_hold [simp]: "P \<Longrightarrow> cassert dbg P msg = None"
  by (simp add: cassert_def)

lemma guard_fault_simps [simp]:
  "guard_fault None r = r"
  "guard_fault (Some f) r = Inl f"
  by (simp_all add: guard_fault_def)

lemma guard_fault_Inl_iff: "guard_fault g (Inr x) = Inl f \<longleftrightarrow> g = Some f"
  by (cases g) simp_all

lemma guard_fault_Inr_iff: "guard_fault g r = Inr x \<longleftrightarrow> g = None \<and> r = Inr x"
  by (cases g) simp_all

lemma obind_simps [simp]:
  "obind (Inl e) f = Inl e"
  "obind (Inr x) f = f x"
  by (simp_all add: obind_def)

lemma obind_Inr_iff: "obind r f = Inr y \<longleftrightarrow> (\<exists>x. r = Inr x \<and> f x = Inr y)"
  by (cases r) simp_all

lemma obind_assoc: "obind (obind r f) g = obind r (\<lambda>x. obind (f x) g)"
  by (cases r) simp_all

section \<open>Words\<close>

named_theorems size_t_arith

lemma unat_lt_2p64 [simp]: "unat (x :: size_t) < 18446744073709551616"
  using unsigned_less [of x] by simp

lemma unat_of_nat_size [size_t_arith]:
  "n < 18446744073709551616 \<Longrightarrow> unat (of_nat n :: size_t) = n"
  by (simp add: unat_of_nat take_bit_nat_eq_self)

lemma unat_inc [size_t_arith]:
  "unat (x :: size_t) < n \<Longrightarrow> n < 18446744073709551616 \<Longrightarrow> unat (x + 1) = Suc (unat x)"
  by (simp add: unat_word_ariths)

lemma unat_dec [size_t_arith]:
  "(x :: size_t) \<noteq> 0 \<Longrightarrow> unat (x - 1) = unat x - 1"
  by (simp add: unat_minus_one)

lemma unat_pos [size_t_arith]: "(x :: size_t) \<noteq> 0 \<longleftrightarrow> 0 < unat x"
  by (simp add: unat_gt_0)

lemma unat_eq_of_nat [size_t_arith]:
  "n < 18446744073709551616 \<Longrightarrow> (x :: size_t) = of_nat n \<longleftrightarrow> unat x = n"
  by (auto simp: unat_of_nat_size word_eq_iff_unsigned)

lemma unat_mod_of_nat [size_t_arith]:
  "n < 18446744073709551616 \<Longrightarrow> unat ((x :: size_t) mod of_nat n) = unat x mod n"
  by (simp add: unat_mod unat_of_nat_size)

text \<open>Stepping an index round a ring of \<open>n\<close> slots: increment, then back to 0 at the end.\<close>

lemma unat_wrap_inc:
  assumes "unat (i :: size_t) < n" "n < 18446744073709551616"
  shows "unat (if i + 1 = of_nat n then 0 else i + 1) = Suc (unat i) mod n"
proof -
  have inc: "unat (i + 1) = Suc (unat i)" using assms by (rule unat_inc)
  show ?thesis
  proof (cases "Suc (unat i) = n")
    case True
    then have "i + 1 = of_nat n" using inc assms(2) by (simp add: unat_eq_of_nat)
    with True show ?thesis by simp
  next
    case False
    then have "i + 1 \<noteq> of_nat n" using inc assms(2) by (simp add: unat_eq_of_nat)
    with False inc assms(1) show ?thesis by simp
  qed
qed

text \<open>Offsets below \<open>n\<close> from a fixed slot reach different slots of a ring of size \<open>n\<close>.\<close>

named_theorems ring_arith

lemma nat_mod_eq_cancel: "(a + s) mod n = (b + s) mod n \<Longrightarrow> a mod n = b mod n" for n :: nat
  by (auto simp: nat_mod_eq_iff)

lemma ring_offset_inj [ring_arith]:
  "a < n \<Longrightarrow> b < n \<Longrightarrow> ((s + a) mod n = (s + b) mod n) = (a = b)" for n :: nat
proof
  assume ab: "a < n" "b < n" and eq: "(s + a) mod n = (s + b) mod n"
  have "(a + s) mod n = (b + s) mod n" using eq by (simp add: add.commute)
  then have "a mod n = b mod n" by (rule nat_mod_eq_cancel)
  with ab show "a = b" by simp
qed simp

lemma ring_offset_neq [ring_arith]:
  "0 < d \<Longrightarrow> d < n \<Longrightarrow> s < n \<Longrightarrow> (s + d) mod n \<noteq> s" for n :: nat
  using ring_offset_inj [of d n 0 s] by simp

lemma ring_slots_differ [ring_arith]:
  "k < m \<Longrightarrow> m < k + n \<Longrightarrow> k mod n \<noteq> m mod n" for n :: nat
proof -
  assume "k < m" "m < k + n"
  then have "m - k < n" "m - k \<noteq> 0" "0 < n" by linarith+
  with \<open>k < m\<close> show ?thesis using ring_offset_inj [of "m - k" n 0 k] by auto
qed

section \<open>Lists\<close>

named_theorems list_arith

lemma length_filter_update_False [list_arith]:
  "i < length xs \<Longrightarrow> P (xs ! i) \<Longrightarrow> \<not> P y \<Longrightarrow>
     Suc (length (filter P (xs[i := y]))) = length (filter P xs)"
  by (induction xs arbitrary: i) (auto split: nat.splits)

lemma length_filter_update_True [list_arith]:
  "i < length xs \<Longrightarrow> \<not> P (xs ! i) \<Longrightarrow> P y \<Longrightarrow>
     length (filter P (xs[i := y])) = Suc (length (filter P xs))"
  by (induction xs arbitrary: i) (auto split: nat.splits)

lemma length_filter_pos_iff: "0 < length (filter P xs) \<longleftrightarrow> (\<exists>i < length xs. P (xs ! i))"
  by (auto simp: filter_empty_conv in_set_conv_nth) (metis nth_mem)

section \<open>Decimal notation\<close>

text \<open>
  Decimal output of the C++ library: \<open>operator<<\<close> and \<open>std::to_string\<close> on integers, and the
  zero-padded two-digit fields of \<open>strftime\<close>. \<open>decimal_value\<close> reads digits back.
\<close>

definition digit :: "nat \<Rightarrow> char" where
  "digit d = char_of (48 + d)"

definition digit_value :: "char \<Rightarrow> nat" where
  "digit_value c = of_char c - 48"

fun show_nat :: "nat \<Rightarrow> string" where
  "show_nat n = (if n < 10 then [digit n] else show_nat (n div 10) @ [digit (n mod 10)])"

definition show_int :: "int \<Rightarrow> string" where
  "show_int i = (if i < 0 then CHR ''-'' # show_nat (nat (- i)) else show_nat (nat i))"

definition pad2 :: "nat \<Rightarrow> string" where
  "pad2 n = (if n < 10 then CHR ''0'' # show_nat n else show_nat n)"

definition decimal_value :: "string \<Rightarrow> nat" where
  "decimal_value s = foldl (\<lambda>v c. 10 * v + digit_value c) 0 s"

declare show_nat.simps [simp del]

lemma digit_value_digit: "d < 10 \<Longrightarrow> digit_value (digit d) = d"
  by (simp add: digit_def digit_value_def)

lemma decimal_value_append: "decimal_value (s @ [c]) = 10 * decimal_value s + digit_value c"
  by (simp add: decimal_value_def)

lemma decimal_value_show_nat: "decimal_value (show_nat n) = n"
proof (induction n rule: show_nat.induct)
  case (1 n)
  then show ?case
    by (cases "n < 10")
      (simp_all add: show_nat.simps [of n] decimal_value_append digit_value_digit
        decimal_value_def [of "[digit n]"])
qed

lemma show_nat_inject: "show_nat m = show_nat n \<longleftrightarrow> m = n"
  by (metis decimal_value_show_nat)

lemma length_show_nat:
  "n < 10 \<Longrightarrow> length (show_nat n) = 1"
  "10 \<le> n \<Longrightarrow> length (show_nat n) = Suc (length (show_nat (n div 10)))"
  by (simp_all add: show_nat.simps [of n])

lemma length_pad2: "n < 100 \<Longrightarrow> length (pad2 n) = 2"
  by (simp add: pad2_def length_show_nat)

lemma decimal_value_pad2: "decimal_value (pad2 n) = n"
proof -
  have "decimal_value (CHR ''0'' # s) = decimal_value s" for s
    by (simp add: decimal_value_def digit_value_def)
  then show ?thesis by (simp add: pad2_def decimal_value_show_nat)
qed

lemma length_show_nat_4:
  assumes "1000 \<le> n" "n < 10000"
  shows "length (show_nat n) = 4"
proof -
  have "10 \<le> n div 10 div 10" "n div 10 div 10 < 100" using assms by linarith+
  then show ?thesis using assms by (simp add: length_show_nat)
qed

lemma length_show_nat_ge_5:
  assumes "10000 \<le> n"
  shows "5 \<le> length (show_nat n)"
  using assms
proof (induction n rule: less_induct)
  case (less n)
  show ?case
  proof (cases "n < 100000")
    case True
    with less.prems have "length (show_nat (n div 10)) = 4" by (intro length_show_nat_4) linarith+
    with less.prems show ?thesis by (simp add: length_show_nat)
  next
    case False
    with less.IH [of "n div 10"] show ?thesis by (simp add: length_show_nat)
  qed
qed

section \<open>Executions of a step relation\<close>

text \<open>
  A system is a predicate on initial states and a step relation; \<open>reachable\<close> are the
  states some finite execution leads to. Every state machine of the development
  (\<open>createAndStartThread\<close>, the queue's producer and consumer, the logger and its
  background thread) is an interpretation of \<open>invariant_system\<close>.
\<close>

definition reachable :: "('s \<Rightarrow> bool) \<Rightarrow> ('s \<Rightarrow> 's \<Rightarrow> bool) \<Rightarrow> 's \<Rightarrow> bool" where
  "reachable init step t \<longleftrightarrow> (\<exists>s. init s \<and> step\<^sup>*\<^sup>* s t)"

lemma reachable_init [intro]: "init s \<Longrightarrow> reachable init step s"
  by (auto simp: reachable_def)

lemma reachable_step [intro]: "reachable init step s \<Longrightarrow> step s t \<Longrightarrow> reachable init step t"
  by (auto simp: reachable_def intro: rtranclp.rtrancl_into_rtrancl)

lemma reachable_steps: "reachable init step s \<Longrightarrow> step\<^sup>*\<^sup>* s t \<Longrightarrow> reachable init step t"
  by (auto simp: reachable_def intro: rtranclp_trans)

locale invariant_system =
  fixes init :: "'s \<Rightarrow> bool"
    and step :: "'s \<Rightarrow> 's \<Rightarrow> bool"
    and inv :: "'s \<Rightarrow> bool"
  assumes init_inv: "init s \<Longrightarrow> inv s"
    and step_inv: "inv s \<Longrightarrow> step s t \<Longrightarrow> inv t"
begin

lemma steps_inv: "step\<^sup>*\<^sup>* s t \<Longrightarrow> inv s \<Longrightarrow> inv t"
  by (induction rule: rtranclp_induct) (auto intro: step_inv)

lemma reachable_inv: "reachable init step t \<Longrightarrow> inv t"
  by (auto simp: reachable_def intro: steps_inv init_inv)

end

text \<open>
  A system whose non-final states always have a step that makes a measure smaller can
  always run to a final state: no execution prefix ends in a deadlock or in a region
  that cannot be left.
\<close>

locale progress_system = invariant_system +
  fixes final :: "'s \<Rightarrow> bool"
    and rank :: "'s \<Rightarrow> nat"
  assumes progress: "inv s \<Longrightarrow> \<not> final s \<Longrightarrow> \<exists>t. step s t \<and> rank t < rank s"
begin

lemma inv_can_finish: "inv s \<Longrightarrow> \<exists>t. step\<^sup>*\<^sup>* s t \<and> final t"
proof (induction "rank s" arbitrary: s rule: less_induct)
  case less
  show ?case
  proof (cases "final s")
    case True
    then show ?thesis by blast
  next
    case False
    with less.prems obtain t where t: "step s t" "rank t < rank s"
      using progress by blast
    with less.prems have "inv t" by (blast intro: step_inv)
    with less.hyps t(2) obtain u where "step\<^sup>*\<^sup>* t u" "final u" by blast
    with t(1) show ?thesis by (blast intro: converse_rtranclp_into_rtranclp)
  qed
qed

lemma reachable_can_finish: "reachable init step s \<Longrightarrow> \<exists>t. step\<^sup>*\<^sup>* s t \<and> final t"
  by (blast intro: inv_can_finish reachable_inv)

end

section \<open>Sequences of operations\<close>

text \<open>
  An object used through a sequence of calls. When no call faults on a state that satisfies the
  invariant, and every call keeps it, no sequence of calls faults.
\<close>

fun run_ops :: "('op \<Rightarrow> 's \<Rightarrow> 's outcome) \<Rightarrow> 'op list \<Rightarrow> 's \<Rightarrow> 's outcome" where
  "run_ops exec [] s = Inr s"
| "run_ops exec (oper # ops) s = obind (exec oper s) (run_ops exec ops)"

lemma run_ops_append: "run_ops exec (xs @ ys) s = obind (run_ops exec xs s) (run_ops exec ys)"
  by (induction xs arbitrary: s) (simp_all add: obind_def split: sum.splits)

locale preserving_ops =
  fixes exec :: "'op \<Rightarrow> 's \<Rightarrow> 's outcome"
    and inv :: "'s \<Rightarrow> bool"
  assumes exec_keeps: "inv s \<Longrightarrow> \<exists>t. exec oper s = Inr t \<and> inv t"
begin

lemma run_keeps: "inv s \<Longrightarrow> \<exists>t. run_ops exec ops s = Inr t \<and> inv t"
proof (induction ops arbitrary: s)
  case (Cons oper ops)
  then obtain t where "exec oper s = Inr t" "inv t" using exec_keeps by blast
  with Cons.IH show ?case by simp
qed simp

end

end
