(* ===== verification/Mem_Pool.thy ===== *)
theory Mem_Pool
  imports Prelude "HOL-Library.Multiset"
begin

text \<open>
  The memory pool \<open>MemPool<T>\<close> of \<open>include/mem_pool.hpp\<close>: a vector of blocks fixed
  at construction, a cursor \<open>next_free_index\<close> and a counter \<open>num_free\<close>.

  \<^item> A block's bytes hold at most one object; \<open>storage\<close> is that object, \<open>None\<close> for
    raw bytes. Destroying an object that does not exist is undefined behaviour.
  \<^item> The slots lie in memory at \<open>pool_data + i * pool_stride\<close> (the vector's buffer and
    \<open>sizeof(ObjectBlock)\<close>); \<open>nullptr\<close> is address 0. \<open>deallocate\<close> takes any address.
  \<^item> \<open>dtor_log\<close> is a ghost field: the objects whose destructor has run, in order.

  The abstraction \<open>live\<close> is the map from addresses to the objects that exist.
\<close>

section \<open>State\<close>

record 'a block =
  storage :: "'a option"
  is_free :: bool

record 'a mempool =
  pool_store :: "'a block list"
  next_free_index :: size_t
  num_free :: size_t
  pool_data :: address
  pool_stride :: nat
  dtor_log :: "'a list"

text \<open>What \<open>allocate\<close> can do: return null, return a slot, or let the exception of
  \<open>T\<close>'s constructor pass.\<close>

datatype alloc_result = NullPtr | Slot address | CtorThrew

definition empty_block :: "'a block" where
  "empty_block = \<lparr>storage = None, is_free = True\<rparr>"

definition slot_addr :: "'a mempool \<Rightarrow> nat \<Rightarrow> address" where
  "slot_addr p i = pool_data p + i * pool_stride p"

section \<open>Operations\<close>

definition MemPool :: "bool \<Rightarrow> address \<Rightarrow> nat \<Rightarrow> size_t \<Rightarrow> 'a mempool outcome" where
  "MemPool dbg data stride num_elems =
     guard_fault (cassert dbg (num_elems > 0) ''num_elems > 0'')
       (Inr \<lparr>pool_store = replicate (unat num_elems) empty_block, next_free_index = 0,
             num_free = num_elems, pool_data = data, pool_stride = stride, dtor_log = []\<rparr>)"

text \<open>The cursor's step: increment, and back to the beginning after the last slot.\<close>

definition ring_next :: "nat \<Rightarrow> size_t \<Rightarrow> size_t" where
  "ring_next n i = (let i1 = i + 1 in if i1 = of_nat n then 0 else i1)"

text \<open>
  The \<open>do\<close>-\<open>while\<close> of \<open>updateNextFreeIndex\<close>, from \<open>start\<close> with the cursor at \<open>i\<close>. The
  fuel bounds the number of iterations; \<open>updateNextFreeIndex_fuel\<close> below shows that
  \<open>store_.size()\<close> of them are always enough.
\<close>

fun next_free_loop :: "bool \<Rightarrow> nat \<Rightarrow> 'a block list \<Rightarrow> size_t \<Rightarrow> size_t \<Rightarrow> size_t outcome" where
  "next_free_loop dbg 0 bs start i = Inl OutOfFuel"
| "next_free_loop dbg (Suc fuel) bs start i =
     (let i2 = ring_next (length bs) i
      in if length bs \<le> unat i2 then Inl (UndefinedBehaviour ''store_[next_free_index]'')
         else if is_free (bs ! unat i2) then Inr i2
         else if i2 \<noteq> start then next_free_loop dbg fuel bs start i2
         else guard_fault (cassert dbg False ''No free block found'') (Inr i2))"

definition updateNextFreeIndex :: "bool \<Rightarrow> 'a mempool \<Rightarrow> 'a mempool outcome" where
  "updateNextFreeIndex dbg p =
     obind (next_free_loop dbg (length (pool_store p)) (pool_store p) (next_free_index p) (next_free_index p))
       (\<lambda>i. Inr (p\<lparr>next_free_index := i\<rparr>))"

text \<open>
  \<open>allocate\<close>: \<open>ctor\<close> is what \<open>T\<close>'s constructor does with the forwarded arguments,
  \<open>None\<close> when it throws. Placement new then leaves the pool as it was, because the
  block is marked only after the constructor returned.
\<close>

definition allocate :: "bool \<Rightarrow> 'a option \<Rightarrow> 'a mempool \<Rightarrow> (alloc_result \<times> 'a mempool) outcome" where
  "allocate dbg ctor p =
     (if num_free p = 0 then Inr (NullPtr, p)
      else let i = unat (next_free_index p) in
        if length (pool_store p) \<le> i then Inl (UndefinedBehaviour ''store_[next_free_index]'')
        else guard_fault (cassert dbg (is_free (pool_store p ! i)) ''block.is_free_'')
          (case ctor of
             None \<Rightarrow> Inr (CtorThrew, p)
           | Some object \<Rightarrow>
               let p1 = p\<lparr>pool_store := (pool_store p)[i := \<lparr>storage = Some object, is_free = False\<rparr>],
                          num_free := num_free p - 1\<rparr>
               in if num_free p1 > 0
                  then obind (updateNextFreeIndex dbg p1) (\<lambda>p2. Inr (Slot (slot_addr p i), p2))
                  else Inr (Slot (slot_addr p i), p1)))"

text \<open>The linear search of \<open>deallocate\<close>: the first slot that starts at \<open>elem\<close>, or
  \<open>store_.size()\<close>.\<close>

function find_slot :: "'a mempool \<Rightarrow> address \<Rightarrow> nat \<Rightarrow> nat" where
  "find_slot p elem i =
     (if i < length (pool_store p)
      then if slot_addr p i = elem then i else find_slot p elem (Suc i)
      else length (pool_store p))"
  by pat_completeness auto
termination
  by (relation "measure (\<lambda>(p, elem, i). length (pool_store p) - i)") auto

definition deallocate :: "address \<Rightarrow> 'a mempool \<Rightarrow> (bool \<times> 'a mempool) outcome" where
  "deallocate elem p =
     (if elem = 0 then Inr (False, p)
      else let elem_index = find_slot p elem 0 in
        if elem_index = length (pool_store p) \<or> is_free (pool_store p ! elem_index)
        then Inr (False, p)
        else case storage (pool_store p ! elem_index) of
            None \<Rightarrow> Inl (UndefinedBehaviour ''destroy_at'')
          | Some object \<Rightarrow>
              Inr (True, p\<lparr>pool_store := (pool_store p)[elem_index := \<lparr>storage = None, is_free = True\<rparr>],
                           num_free := num_free p + 1,
                           next_free_index := of_nat elem_index,
                           dtor_log := dtor_log p @ [object]\<rparr>))"

text \<open>The destructor's loop over the blocks: the objects it destroys, in slot order.\<close>

fun destroy_blocks :: "'a block list \<Rightarrow> 'a list outcome" where
  "destroy_blocks [] = Inr []"
| "destroy_blocks (b # bs) =
     (if \<not> is_free b
      then case storage b of
             None \<Rightarrow> Inl (UndefinedBehaviour ''destroy_at'')
           | Some object \<Rightarrow> obind (destroy_blocks bs) (\<lambda>xs. Inr (object # xs))
      else destroy_blocks bs)"

definition MemPool_dtor :: "'a mempool \<Rightarrow> 'a list outcome" where
  "MemPool_dtor p = obind (destroy_blocks (pool_store p)) (\<lambda>xs. Inr (dtor_log p @ xs))"

declare find_slot.simps [simp del]

section \<open>Invariant and abstraction\<close>

text \<open>A block is marked free exactly when no object exists in it.\<close>

definition blocks_ok :: "'a block list \<Rightarrow> bool" where
  "blocks_ok bs \<longleftrightarrow> (\<forall>b \<in> set bs. is_free b \<longleftrightarrow> storage b = None)"

definition free_count :: "'a block list \<Rightarrow> nat" where
  "free_count bs = length (filter is_free bs)"

text \<open>While a slot is free, the cursor is in range and names a free slot.\<close>

definition cursor_ok :: "'a mempool \<Rightarrow> bool" where
  "cursor_ok p \<longleftrightarrow> (num_free p \<noteq> 0 \<longrightarrow>
     unat (next_free_index p) < length (pool_store p) \<and>
     is_free (pool_store p ! unat (next_free_index p)))"

definition pool_inv :: "'a mempool \<Rightarrow> bool" where
  "pool_inv p \<longleftrightarrow>
     length (pool_store p) < 18446744073709551616 \<and> 0 < pool_data p \<and> 0 < pool_stride p \<and>
     blocks_ok (pool_store p) \<and> unat (num_free p) = free_count (pool_store p) \<and> cursor_ok p"

text \<open>The object at address \<open>a\<close>: what is stored in the slot that starts there, whichever slot
  of the store that is.\<close>

definition live :: "'a mempool \<Rightarrow> address \<Rightarrow> 'a option" where
  "live p a =
     (case filter (\<lambda>i. slot_addr p i = a) [0..<length (pool_store p)] of
        [] \<Rightarrow> None
      | i # _ \<Rightarrow> storage (pool_store p ! i))"

text \<open>The objects that exist, in slot order.\<close>

fun objects_of :: "'a block list \<Rightarrow> 'a list" where
  "objects_of [] = []"
| "objects_of (b # bs) = (case storage b of None \<Rightarrow> objects_of bs | Some x \<Rightarrow> x # objects_of bs)"

definition live_objects :: "'a mempool \<Rightarrow> 'a list" where
  "live_objects p = objects_of (pool_store p)"

lemma pool_invD:
  assumes "pool_inv p"
  shows "length (pool_store p) < 18446744073709551616" "0 < pool_data p" "0 < pool_stride p"
    "blocks_ok (pool_store p)" "unat (num_free p) = free_count (pool_store p)"
  using assms by (simp_all add: pool_inv_def)

lemma pool_inv_block:
  "pool_inv p \<Longrightarrow> i < length (pool_store p) \<Longrightarrow>
     is_free (pool_store p ! i) \<longleftrightarrow> storage (pool_store p ! i) = None"
  by (simp add: pool_inv_def blocks_ok_def)

lemma pool_inv_next:
  "pool_inv p \<Longrightarrow> num_free p \<noteq> 0 \<Longrightarrow>
     unat (next_free_index p) < length (pool_store p) \<and> is_free (pool_store p ! unat (next_free_index p))"
  by (simp add: pool_inv_def cursor_ok_def)

lemma blocks_ok_update:
  "blocks_ok bs \<Longrightarrow> (is_free b \<longleftrightarrow> storage b = None) \<Longrightarrow> blocks_ok (bs[i := b])"
  by (auto simp: blocks_ok_def dest!: set_update_subset_insert [THEN subsetD])

lemma free_count_occupy:
  "i < length bs \<Longrightarrow> is_free (bs ! i) \<Longrightarrow> \<not> is_free b \<Longrightarrow>
     Suc (free_count (bs[i := b])) = free_count bs"
  by (simp add: free_count_def length_filter_update_False)

lemma free_count_release:
  "i < length bs \<Longrightarrow> \<not> is_free (bs ! i) \<Longrightarrow> is_free b \<Longrightarrow>
     free_count (bs[i := b]) = Suc (free_count bs)"
  by (simp add: free_count_def length_filter_update_True)

lemma free_count_pos: "0 < free_count bs \<longleftrightarrow> (\<exists>i < length bs. is_free (bs ! i))"
  by (simp only: free_count_def length_filter_pos_iff)

lemma free_count_le: "free_count bs \<le> length bs"
  by (simp add: free_count_def)

lemma slot_addr_inj: "0 < pool_stride p \<Longrightarrow> slot_addr p i = slot_addr p j \<longleftrightarrow> i = j"
  by (simp add: slot_addr_def)

lemma find_slot_spec:
  "i \<le> length (pool_store p) \<Longrightarrow>
     (let k = find_slot p a i in
        i \<le> k \<and> k \<le> length (pool_store p) \<and>
        (k < length (pool_store p) \<longrightarrow> slot_addr p k = a) \<and>
        (\<forall>j. i \<le> j \<and> j < k \<longrightarrow> slot_addr p j \<noteq> a))"
proof (induction p a i rule: find_slot.induct)
  case (1 p a i)
  show ?case
  proof (cases "i < length (pool_store p) \<and> slot_addr p i \<noteq> a")
    case True
    with "1.IH" have "let k = find_slot p a (Suc i) in
        Suc i \<le> k \<and> k \<le> length (pool_store p) \<and>
        (k < length (pool_store p) \<longrightarrow> slot_addr p k = a) \<and>
        (\<forall>j. Suc i \<le> j \<and> j < k \<longrightarrow> slot_addr p j \<noteq> a)" by simp
    with True show ?thesis
      by (auto simp: find_slot.simps [of p a i] Let_def) (metis le_antisym not_less_eq_eq)+
  next
    case False
    with "1.prems" show ?thesis by (auto simp: find_slot.simps [of p a i] Let_def)
  qed
qed

lemma find_slot_eq:
  assumes "0 < pool_stride p" "i < length (pool_store p)"
  shows "find_slot p (slot_addr p i) 0 = i"
proof -
  from find_slot_spec [of 0 p "slot_addr p i"]
  have k: "find_slot p (slot_addr p i) 0 \<le> length (pool_store p)"
    "find_slot p (slot_addr p i) 0 < length (pool_store p) \<Longrightarrow>
       slot_addr p (find_slot p (slot_addr p i) 0) = slot_addr p i"
    "\<not> i < find_slot p (slot_addr p i) 0"
    by (auto simp: Let_def)
  with assms show ?thesis by (simp add: slot_addr_inj)
qed

lemma find_slot_none:
  "find_slot p a 0 = length (pool_store p) \<longleftrightarrow> (\<forall>i < length (pool_store p). slot_addr p i \<noteq> a)"
  using find_slot_spec [of 0 p a] by (auto simp: Let_def) (metis le_neq_implies_less)

lemma find_slot_cong:
  "length (pool_store q) = length (pool_store p) \<Longrightarrow> pool_data q = pool_data p \<Longrightarrow>
     pool_stride q = pool_stride p \<Longrightarrow> find_slot q a i = find_slot p a i"
proof (induction p a i rule: find_slot.induct)
  case (1 p a i)
  then show ?case
    by (simp add: find_slot.simps [of q a i] find_slot.simps [of p a i] slot_addr_def)
qed

lemma filter_upt_eq: "filter (\<lambda>j. j = i) [0..<n] = (if i < n then [i] else [])"
  by (induction n) auto

lemma live_slot:
  "0 < pool_stride p \<Longrightarrow> i < length (pool_store p) \<Longrightarrow>
     live p (slot_addr p i) = storage (pool_store p ! i)"
  by (simp add: live_def slot_addr_inj filter_upt_eq)

lemma live_elsewhere:
  "(\<And>i. i < length (pool_store p) \<Longrightarrow> slot_addr p i \<noteq> a) \<Longrightarrow> live p a = None"
  by (simp add: live_def filter_empty_conv)

lemma live_SomeD:
  assumes "live p a = Some x"
  shows "\<exists>i < length (pool_store p). a = slot_addr p i \<and> storage (pool_store p ! i) = Some x"
proof (cases "filter (\<lambda>i. slot_addr p i = a) [0..<length (pool_store p)]")
  case (Cons i js)
  then have "i \<in> set (filter (\<lambda>i. slot_addr p i = a) [0..<length (pool_store p)])"
    by (simp only: list.set_intros)
  then have "i < length (pool_store p)" "slot_addr p i = a" by auto
  moreover have "storage (pool_store p ! i) = Some x" using Cons assms by (simp add: live_def)
  ultimately show ?thesis by blast
qed (use assms in \<open>simp add: live_def\<close>)

lemma live_update:
  assumes "0 < pool_stride p" "i < length (pool_store p)"
    and "pool_store q = (pool_store p)[i := b]" "pool_data q = pool_data p" "pool_stride q = pool_stride p"
  shows "live q = (live p)(slot_addr p i := storage b)"
proof
  fix a
  have eq: "slot_addr q = slot_addr p" by (simp add: slot_addr_def fun_eq_iff assms(4,5))
  show "live q a = ((live p)(slot_addr p i := storage b)) a"
  proof (cases "\<exists>j < length (pool_store p). a = slot_addr p j")
    case True
    then obtain j where "j < length (pool_store p)" "a = slot_addr p j" by blast
    then show ?thesis
      using live_slot [of p j] live_slot [of q j] assms eq by (simp add: slot_addr_inj)
  next
    case False
    then have "live p a = None" "live q a = None" "a \<noteq> slot_addr p i"
      using assms(2,3) by (auto intro!: live_elsewhere simp: eq)
    then show ?thesis by simp
  qed
qed

section \<open>The search for the next free slot\<close>

lemma unat_ring_next:
  "unat i < n \<Longrightarrow> n < 18446744073709551616 \<Longrightarrow> unat (ring_next n i) = Suc (unat i) mod n"
  unfolding ring_next_def Let_def by (rule unat_wrap_inc)

lemma next_free_loop_finds:
  assumes "length bs = n" "n < 18446744073709551616" "unat start < n"
    and "unat i = (unat start + d) mod n" "d < e" "e \<le> n" "e - d \<le> fuel"
    and "is_free (bs ! ((unat start + e) mod n))"
    and "\<And>k. d < k \<Longrightarrow> k < e \<Longrightarrow> \<not> is_free (bs ! ((unat start + k) mod n))"
  shows "next_free_loop dbg fuel bs start i = Inr (of_nat ((unat start + e) mod n))"
  using assms
proof (induction fuel arbitrary: i d)
  case 0
  then show ?case by simp
next
  case (Suc fuel)
  define i2 where "i2 = ring_next n i"
  from Suc.prems have n: "0 < n" by simp
  have i2: "unat i2 = (unat start + Suc d) mod n"
    using unat_ring_next [of i n] Suc.prems(1,2,4) n by (simp add: i2_def mod_Suc_eq)
  have lt: "unat i2 < n" using i2 n by simp
  show ?case
  proof (cases "Suc d = e")
    case True
    then have "i2 = of_nat ((unat start + e) mod n)"
      using i2 lt Suc.prems(2) by (simp add: unat_eq_of_nat)
    with True i2 lt Suc.prems(1,8) show ?thesis
      by (simp add: Let_def i2_def [symmetric])
  next
    case False
    with Suc.prems(5) have d: "Suc d < e" by simp
    have "i2 \<noteq> start"
      using ring_offset_neq [of "Suc d" n "unat start"] i2 d Suc.prems(3,6) by auto
    moreover have "\<not> is_free (bs ! unat i2)"
      using Suc.prems(9) [of "Suc d"] d i2 by simp
    moreover have "next_free_loop dbg fuel bs start i2 = Inr (of_nat ((unat start + e) mod n))"
      by (rule Suc.IH [of i2 "Suc d"]) (use Suc.prems d i2 in auto)
    ultimately show ?thesis
      using lt Suc.prems(1) by (simp add: Let_def i2_def [symmetric])
  qed
qed

text \<open>
  The loop needs at most \<open>store_.size()\<close> iterations, never reaches its final \<open>assert\<close>
  when some slot is free, and stops at the first free slot after \<open>start\<close> in cyclic order.
\<close>

lemma updateNextFreeIndex_spec:
  assumes "length (pool_store p) = n" "n < 18446744073709551616" "unat (next_free_index p) < n"
    and "j < n" "is_free (pool_store p ! j)"
  obtains e where "0 < e" "e \<le> n"
    and "updateNextFreeIndex dbg p =
           Inr (p\<lparr>next_free_index := of_nat ((unat (next_free_index p) + e) mod n)\<rparr>)"
    and "is_free (pool_store p ! ((unat (next_free_index p) + e) mod n))"
    and "\<And>k. 0 < k \<Longrightarrow> k < e \<Longrightarrow> \<not> is_free (pool_store p ! ((unat (next_free_index p) + k) mod n))"
proof -
  let ?s = "unat (next_free_index p)"
  let ?Q = "\<lambda>e. 0 < e \<and> is_free (pool_store p ! ((?s + e) mod n))"
  have ex: "\<exists>e \<le> n. ?Q e"
  proof (cases "?s < j")
    case True
    with assms show ?thesis by (intro exI [of _ "j - ?s"]) auto
  next
    case False
    then have "(?s + (j + n - ?s)) mod n = j" using assms by simp
    with False assms show ?thesis by (intro exI [of _ "j + n - ?s"]) auto
  qed
  define e where "e = (LEAST e. ?Q e)"
  have e: "?Q e" "e \<le> n" "\<And>k. k < e \<Longrightarrow> \<not> ?Q k"
    using ex LeastI_ex [of ?Q] Least_le [of ?Q] not_less_Least [of _ ?Q]
    unfolding e_def by (blast, meson order_trans, blast)
  have "next_free_loop dbg n (pool_store p) (next_free_index p) (next_free_index p)
      = Inr (of_nat ((?s + e) mod n))"
    by (rule next_free_loop_finds [where d = 0]) (use assms e in auto)
  then have "updateNextFreeIndex dbg p = Inr (p\<lparr>next_free_index := of_nat ((?s + e) mod n)\<rparr>)"
    using assms(1) by (simp add: updateNextFreeIndex_def)
  with e that show ?thesis by blast
qed

section \<open>Allocation and release\<close>

text \<open>Occupying the slot under the cursor, as \<open>allocate\<close> does before it moves the cursor.\<close>

definition occupy :: "'a \<Rightarrow> 'a mempool \<Rightarrow> 'a mempool" where
  "occupy x p = p\<lparr>pool_store := (pool_store p)
       [unat (next_free_index p) := \<lparr>storage = Some x, is_free = False\<rparr>],
     num_free := num_free p - 1\<rparr>"

lemma occupy_sel [simp]:
  "length (pool_store (occupy x p)) = length (pool_store p)"
  "pool_data (occupy x p) = pool_data p" "pool_stride (occupy x p) = pool_stride p"
  "next_free_index (occupy x p) = next_free_index p" "dtor_log (occupy x p) = dtor_log p"
  "num_free (occupy x p) = num_free p - 1"
  by (simp_all add: occupy_def)

lemma occupy_free_count:
  assumes "pool_inv p" "num_free p \<noteq> 0"
  shows "unat (num_free p - 1) = free_count (pool_store (occupy x p))"
proof -
  have "Suc (free_count (pool_store (occupy x p))) = unat (num_free p)"
    using free_count_occupy [of "unat (next_free_index p)" "pool_store p"
        "\<lparr>storage = Some x, is_free = False\<rparr>"] pool_inv_next [OF assms] pool_invD(5) [OF assms(1)]
    by (simp add: occupy_def)
  then show ?thesis using assms(2) by (simp add: unat_dec)
qed

lemma pool_inv_occupy:
  assumes "pool_inv p" "num_free p \<noteq> 0" "cursor_ok ((occupy x p)\<lparr>next_free_index := k\<rparr>)"
  shows "pool_inv ((occupy x p)\<lparr>next_free_index := k\<rparr>)"
  using assms pool_invD [OF assms(1)] occupy_free_count [OF assms(1,2), of x]
  by (auto simp: pool_inv_def occupy_def blocks_ok_update)

lemma live_occupy:
  assumes "pool_inv p" "num_free p \<noteq> 0"
  shows "live ((occupy x p)\<lparr>next_free_index := k\<rparr>) =
           (live p)(slot_addr p (unat (next_free_index p)) \<mapsto> x)"
  using live_update [of p "unat (next_free_index p)" "(occupy x p)\<lparr>next_free_index := k\<rparr>"
      "\<lparr>storage = Some x, is_free = False\<rparr>"] pool_inv_next [OF assms] pool_invD [OF assms(1)]
  by (simp add: occupy_def)

text \<open>The cursor after an allocation: the next free slot in cyclic order, if there is one.\<close>

lemma occupy_moves_cursor:
  assumes inv: "pool_inv p" and nf: "num_free p \<noteq> 0" and more: "num_free p - 1 \<noteq> 0"
  obtains k where "updateNextFreeIndex dbg (occupy x p) = Inr ((occupy x p)\<lparr>next_free_index := k\<rparr>)"
    "cursor_ok ((occupy x p)\<lparr>next_free_index := k\<rparr>)"
proof -
  let ?q = "occupy x p" and ?n = "length (pool_store p)" and ?s = "unat (next_free_index p)"
  have "0 < free_count (pool_store ?q)"
    using more by (simp only: occupy_free_count [OF inv nf, of x, symmetric] unat_pos)
  then obtain j where j: "j < ?n" "is_free (pool_store ?q ! j)"
    by (auto simp: free_count_pos)
  have n: "length (pool_store ?q) = ?n" "?n < 18446744073709551616"
    "unat (next_free_index ?q) < ?n"
    using pool_invD(1) [OF inv] pool_inv_next [OF inv nf] by auto
  obtain e where e: "updateNextFreeIndex dbg ?q =
        Inr (?q\<lparr>next_free_index := of_nat ((unat (next_free_index ?q) + e) mod ?n)\<rparr>)"
      "is_free (pool_store ?q ! ((unat (next_free_index ?q) + e) mod ?n))"
    by (rule updateNextFreeIndex_spec [OF n j, of dbg])
  have "(unat (next_free_index ?q) + e) mod ?n < ?n"
    using n(3) by (intro mod_less_divisor) linarith
  moreover from this have
    "unat (of_nat ((unat (next_free_index ?q) + e) mod ?n) :: size_t) = (unat (next_free_index ?q) + e) mod ?n"
    using n(2) by (simp add: unat_of_nat_size)
  ultimately show ?thesis using that [OF e(1)] e(2) by (simp add: cursor_ok_def)
qed

lemma allocate_ok:
  assumes inv: "pool_inv p" and nf: "num_free p \<noteq> 0"
  obtains k where
    "allocate dbg (Some x) p =
       Inr (Slot (slot_addr p (unat (next_free_index p))), (occupy x p)\<lparr>next_free_index := k\<rparr>)"
    "cursor_ok ((occupy x p)\<lparr>next_free_index := k\<rparr>)"
proof -
  let ?a = "slot_addr p (unat (next_free_index p))"
  have alloc: "allocate dbg (Some x) p =
      (if num_free p - 1 > 0
       then obind (updateNextFreeIndex dbg (occupy x p)) (\<lambda>p2. Inr (Slot ?a, p2))
       else Inr (Slot ?a, occupy x p))"
    using nf pool_inv_next [OF inv nf] by (simp add: allocate_def Let_def occupy_def)
  show ?thesis
  proof (cases "num_free p - 1 = 0")
    case True
    have "(occupy x p)\<lparr>next_free_index := next_free_index p\<rparr> = occupy x p" by (simp add: occupy_def)
    with True alloc that [of "next_free_index p"] show ?thesis by (simp add: cursor_ok_def)
  next
    case False
    obtain k where "updateNextFreeIndex dbg (occupy x p) = Inr ((occupy x p)\<lparr>next_free_index := k\<rparr>)"
      "cursor_ok ((occupy x p)\<lparr>next_free_index := k\<rparr>)"
      by (rule occupy_moves_cursor [OF inv nf False])
    moreover have "num_free p - 1 > 0" using False by (simp only: word_neq_0_conv)
    ultimately show ?thesis using alloc that [of k] by simp
  qed
qed

lemma allocate_full: "num_free p = 0 \<Longrightarrow> allocate dbg ctor p = Inr (NullPtr, p)"
  by (simp add: allocate_def)

lemma allocate_throws:
  "pool_inv p \<Longrightarrow> num_free p \<noteq> 0 \<Longrightarrow> allocate dbg None p = Inr (CtorThrew, p)"
  using pool_inv_next [of p] by (simp add: allocate_def Let_def)

lemma objects_of_occupy:
  "i < length bs \<Longrightarrow> storage (bs ! i) = None \<Longrightarrow> storage b = Some x \<Longrightarrow>
     mset (objects_of (bs[i := b])) = add_mset x (mset (objects_of bs))"
  by (induction bs arbitrary: i) (auto simp: nth_Cons split: nat.splits option.splits)

lemma objects_of_release:
  "i < length bs \<Longrightarrow> storage (bs ! i) = Some x \<Longrightarrow> storage b = None \<Longrightarrow>
     add_mset x (mset (objects_of (bs[i := b]))) = mset (objects_of bs)"
  by (induction bs arbitrary: i) (auto simp: nth_Cons split: nat.splits option.splits)

text \<open>Releasing slot \<open>i\<close>, which holds \<open>x\<close>, as \<open>deallocate\<close> does.\<close>

definition release :: "nat \<Rightarrow> 'a \<Rightarrow> 'a mempool \<Rightarrow> 'a mempool" where
  "release i x p = p\<lparr>pool_store := (pool_store p)[i := \<lparr>storage = None, is_free = True\<rparr>],
     num_free := num_free p + 1, next_free_index := of_nat i, dtor_log := dtor_log p @ [x]\<rparr>"

lemma live_SomeE:
  assumes "0 < pool_stride p" "live p a = Some x"
  obtains i where "i < length (pool_store p)" "find_slot p a 0 = i" "a = slot_addr p i"
    "storage (pool_store p ! i) = Some x"
  using live_SomeD [OF assms(2)] that find_slot_eq [OF assms(1)] by blast

lemma release_count:
  assumes "pool_inv p" "i < length (pool_store p)" "storage (pool_store p ! i) = Some x"
  shows "unat (num_free p + 1) = Suc (unat (num_free p))"
    and "Suc (unat (num_free p)) = free_count (pool_store (release i x p))"
proof -
  have fc: "free_count (pool_store (release i x p)) = Suc (free_count (pool_store p))"
    using assms pool_inv_block [of p i] by (simp add: release_def free_count_release)
  moreover have "free_count (pool_store (release i x p)) \<le> length (pool_store p)"
    using free_count_le [of "pool_store (release i x p)"] by (simp add: release_def)
  ultimately have "unat (num_free p) < length (pool_store p)"
    using pool_invD(5) [OF assms(1)] by simp
  then show "unat (num_free p + 1) = Suc (unat (num_free p))"
    using pool_invD(1) [OF assms(1)] by (rule unat_inc)
  show "Suc (unat (num_free p)) = free_count (pool_store (release i x p))"
    using fc pool_invD(5) [OF assms(1)] by simp
qed

lemma pool_inv_release:
  assumes "pool_inv p" "i < length (pool_store p)" "storage (pool_store p ! i) = Some x"
  shows "pool_inv (release i x p)"
proof -
  have "unat (of_nat i :: size_t) = i"
    using assms(2) pool_invD(1) [OF assms(1)] by (simp add: unat_of_nat_size)
  then have "cursor_ok (release i x p)"
    using assms(2) by (simp add: cursor_ok_def release_def)
  with pool_invD [OF assms(1)] release_count [OF assms] show ?thesis
    by (simp add: pool_inv_def blocks_ok_update) (simp add: release_def blocks_ok_update)
qed

lemma deallocate_live:
  assumes "pool_inv p" "live p a = Some x"
  obtains i where "i < length (pool_store p)" "a = slot_addr p i" "storage (pool_store p ! i) = Some x"
    "deallocate a p = Inr (True, release i x p)"
proof -
  obtain i where i: "i < length (pool_store p)" "find_slot p a 0 = i" "a = slot_addr p i"
      "storage (pool_store p ! i) = Some x"
    by (rule live_SomeE [OF pool_invD(3) [OF assms(1)] assms(2)])
  have "a \<noteq> 0" using i(3) pool_invD(2) [OF assms(1)] by (simp add: slot_addr_def)
  moreover have "\<not> is_free (pool_store p ! i)" using pool_inv_block [OF assms(1) i(1)] i(4) by simp
  ultimately have "deallocate a p = Inr (True, release i x p)"
    using i(1,2,4) by (simp add: deallocate_def release_def)
  with i that show ?thesis by blast
qed

lemma deallocate_dead:
  assumes "pool_inv p" "live p a = None"
  shows "deallocate a p = Inr (False, p)"
proof -
  let ?i = "find_slot p a 0"
  have i: "?i \<le> length (pool_store p)" "?i < length (pool_store p) \<Longrightarrow> slot_addr p ?i = a"
    using find_slot_spec [of 0 p a] by (simp_all add: Let_def)
  have "?i < length (pool_store p) \<Longrightarrow> is_free (pool_store p ! ?i)"
    using live_slot [OF pool_invD(3) [OF assms(1)], of ?i] i(2) assms by (simp add: pool_inv_block)
  with i(1) show ?thesis by (auto simp: deallocate_def Let_def)
qed

lemma live_release:
  assumes "pool_inv p" "i < length (pool_store p)"
  shows "live (release i x p) = (live p)(slot_addr p i := None)"
  using live_update [of p i "release i x p" "\<lparr>storage = None, is_free = True\<rparr>"]
    pool_invD [OF assms(1)] assms(2) by (simp add: release_def)

text \<open>A new pool satisfies the invariant, and its destructor destroys what is left.\<close>

lemma MemPool_inv:
  assumes "0 < data" "0 < stride" "0 < n"
  shows "\<exists>p. MemPool dbg data stride n = Inr p \<and> pool_inv p \<and> live p = Map.empty \<and>
           live_objects p = [] \<and> dtor_log p = [] \<and> num_free p = n"
proof -
  let ?p = "\<lparr>pool_store = replicate (unat n) empty_block, next_free_index = 0,
             num_free = n, pool_data = data, pool_stride = stride, dtor_log = []\<rparr>"
  have "objects_of (replicate k empty_block) = []" for k
    by (induction k) (simp_all add: empty_block_def)
  moreover have "live ?p = Map.empty"
    by (rule ext, rule ccontr) (auto simp: empty_block_def dest!: live_SomeD)
  moreover have "pool_inv ?p"
    using assms
    by (auto simp: pool_inv_def blocks_ok_def free_count_def cursor_ok_def empty_block_def unat_gt_0
        word_neq_0_conv)
  ultimately show ?thesis
    using assms by (auto simp: MemPool_def live_objects_def)
qed

lemma destroy_blocks_ok: "blocks_ok bs \<Longrightarrow> destroy_blocks bs = Inr (objects_of bs)"
  by (induction bs) (auto simp: blocks_ok_def split: option.splits)

section \<open>The contract of an object pool\<close>

text \<open>
  What a client of the pool may rely on, as laws over \<open>allocate\<close> and \<open>deallocate\<close>: they
  never fault, a returned slot is new, a slot is released once, and the objects made are
  the objects that exist together with the objects destroyed. \<open>pool_run\<close> is any client:
  a sequence of calls, with the objects it constructed collected in order.
\<close>

datatype 'a pool_op = Alloc "'a option" | Dealloc address

fun pool_run :: "('a option \<Rightarrow> 's \<Rightarrow> (alloc_result \<times> 's) outcome) \<Rightarrow>
    (address \<Rightarrow> 's \<Rightarrow> (bool \<times> 's) outcome) \<Rightarrow> 'a pool_op list \<Rightarrow> 's \<times> 'a list \<Rightarrow>
    ('s \<times> 'a list) outcome" where
  "pool_run alloc dealloc [] (s, made) = Inr (s, made)"
| "pool_run alloc dealloc (Alloc c # ops) (s, made) =
     obind (alloc c s) (\<lambda>(r, s').
       pool_run alloc dealloc ops
         (s', case (r, c) of (Slot _, Some x) \<Rightarrow> made @ [x] | _ \<Rightarrow> made))"
| "pool_run alloc dealloc (Dealloc a # ops) (s, made) =
     obind (dealloc a s) (\<lambda>(_, s'). pool_run alloc dealloc ops (s', made))"

locale object_pool =
  fixes inv :: "'s \<Rightarrow> bool"
    and objs :: "'s \<Rightarrow> address \<Rightarrow> 'a option"
    and existing :: "'s \<Rightarrow> 'a multiset"
    and destroyed :: "'s \<Rightarrow> 'a multiset"
    and free :: "'s \<Rightarrow> nat"
    and alloc :: "'a option \<Rightarrow> 's \<Rightarrow> (alloc_result \<times> 's) outcome"
    and dealloc :: "address \<Rightarrow> 's \<Rightarrow> (bool \<times> 's) outcome"
  assumes alloc_none: "inv s \<Longrightarrow> free s = 0 \<Longrightarrow> alloc c s = Inr (NullPtr, s)"
    and alloc_throw: "inv s \<Longrightarrow> 0 < free s \<Longrightarrow> alloc None s = Inr (CtorThrew, s)"
    and alloc_some: "inv s \<Longrightarrow> 0 < free s \<Longrightarrow>
      \<exists>a s'. alloc (Some x) s = Inr (Slot a, s') \<and> inv s' \<and> objs s a = None \<and>
        objs s' = (objs s)(a \<mapsto> x) \<and> existing s' = add_mset x (existing s) \<and>
        destroyed s' = destroyed s \<and> Suc (free s') = free s"
    and dealloc_none: "inv s \<Longrightarrow> objs s a = None \<Longrightarrow> dealloc a s = Inr (False, s)"
    and dealloc_some: "inv s \<Longrightarrow> objs s a = Some x \<Longrightarrow>
      \<exists>s'. dealloc a s = Inr (True, s') \<and> inv s' \<and> objs s' = (objs s)(a := None) \<and>
        existing s = add_mset x (existing s') \<and> destroyed s' = add_mset x (destroyed s) \<and>
        free s' = Suc (free s)"
begin

lemma run_conserves:
  assumes "inv s" "mset made = existing s + destroyed s"
  shows "\<exists>s' made'. pool_run alloc dealloc ops (s, made) = Inr (s', made') \<and> inv s' \<and>
    mset made' = existing s' + destroyed s' \<and>
    free s' + size (existing s') = free s + size (existing s)"
  using assms
proof (induction ops arbitrary: s made)
  case Nil
  then show ?case by simp
next
  case (Cons oper ops)
  show ?case
  proof (cases oper)
    case (Alloc c)
    consider "free s = 0" | "0 < free s" "c = None" | x where "0 < free s" "c = Some x"
      by (cases c) auto
    then show ?thesis
    proof cases
      case 1
      with Cons.IH [OF Cons.prems] Cons.prems(1) Alloc show ?thesis by (simp add: alloc_none)
    next
      case 2
      with Alloc Cons show ?thesis by (simp add: alloc_throw)
    next
      case 3
      with Cons.prems(1) obtain a s' where s': "alloc (Some x) s = Inr (Slot a, s')" "inv s'"
        "existing s' = add_mset x (existing s)" "destroyed s' = destroyed s" "Suc (free s') = free s"
        using alloc_some by blast
      then show ?thesis
        using Cons.IH [of s' "made @ [x]"] Cons.prems(2) Alloc 3 by (auto simp flip: s'(5))
    qed
  next
    case (Dealloc a)
    show ?thesis
    proof (cases "objs s a")
      case None
      with Dealloc Cons show ?thesis by (simp add: dealloc_none)
    next
      case (Some x)
      with Cons.prems(1) obtain s' where s': "dealloc a s = Inr (True, s')" "inv s'"
        "existing s = add_mset x (existing s')" "destroyed s' = add_mset x (destroyed s)"
        "free s' = Suc (free s)"
        using dealloc_some by blast
      with Cons.IH [of s' made] Cons.prems(2) Dealloc show ?thesis by simp
    qed
  qed
qed

text \<open>Releasing twice, or releasing what was never handed out, changes nothing.\<close>

lemma double_release:
  "inv s \<Longrightarrow> objs s a = Some x \<Longrightarrow>
     \<exists>s'. dealloc a s = Inr (True, s') \<and> dealloc a s' = Inr (False, s')"
  using dealloc_some [of s a x] dealloc_none [of _ a] by (metis fun_upd_same)

end

interpretation mp: object_pool pool_inv live "\<lambda>p. mset (live_objects p)" "\<lambda>p. mset (dtor_log p)"
  "\<lambda>p. unat (num_free p)" "allocate dbg" deallocate
proof (unfold_locales, goal_cases)
  case (1 p c)
  then show ?case by (simp add: allocate_full unat_eq_0)
next
  case (2 p)
  then show ?case by (simp add: allocate_throws unat_gt_0)
next
  case (3 p x)
  then have nf: "num_free p \<noteq> 0" by (simp add: unat_gt_0)
  let ?i = "unat (next_free_index p)"
  have i: "?i < length (pool_store p)" "storage (pool_store p ! ?i) = None"
    using pool_inv_next [OF 3(1) nf] pool_inv_block [OF 3(1), of ?i] by auto
  obtain k where k: "allocate dbg (Some x) p = Inr (Slot (slot_addr p ?i), (occupy x p)\<lparr>next_free_index := k\<rparr>)"
    "cursor_ok ((occupy x p)\<lparr>next_free_index := k\<rparr>)"
    by (rule allocate_ok [OF 3(1) nf])
  have "mset (live_objects ((occupy x p)\<lparr>next_free_index := k\<rparr>)) = add_mset x (mset (live_objects p))"
    using i by (simp add: live_objects_def occupy_def objects_of_occupy)
  moreover have "live p (slot_addr p ?i) = None"
    using i pool_invD [OF 3(1)] by (simp add: live_slot)
  moreover have "Suc (unat (num_free p - 1)) = unat (num_free p)"
    using 3(2) nf by (simp add: unat_dec)
  ultimately show ?case
    using k(1) pool_inv_occupy [OF 3(1) nf k(2)] live_occupy [OF 3(1) nf, where x = x and k = k] by auto
next
  case (4 p a)
  then show ?case by (rule deallocate_dead)
next
  case (5 p a x)
  then obtain i where i: "i < length (pool_store p)" "a = slot_addr p i"
    "storage (pool_store p ! i) = Some x" "deallocate a p = Inr (True, release i x p)"
    by (rule deallocate_live)
  have "mset (live_objects p) = add_mset x (mset (live_objects (release i x p)))"
    using i by (simp add: live_objects_def release_def objects_of_release)
  moreover have "unat (num_free (release i x p)) = Suc (unat (num_free p))"
    using release_count(1) [OF 5(1) i(1,3)] by (simp add: release_def)
  moreover have "dtor_log (release i x p) = dtor_log p @ [x]" by (simp add: release_def)
  ultimately show ?case
    using i pool_inv_release [OF 5(1) i(1,3)] live_release [OF 5(1) i(1), of x] by simp
qed

section \<open>Properties of the pool\<close>

text \<open>A pool of two slots at address 4096, the first one occupied, for the witnesses.\<close>

definition sample_pool :: "nat mempool" where
  "sample_pool = \<lparr>pool_store = [\<lparr>storage = Some 7, is_free = False\<rparr>, empty_block],
     next_free_index = 1, num_free = 1, pool_data = 4096, pool_stride = 16, dtor_log = []\<rparr>"

lemma sample_pool_inv: "pool_inv sample_pool"
  by (simp add: sample_pool_def empty_block_def pool_inv_def blocks_ok_def free_count_def cursor_ok_def)

lemma sample_pool_live [simp]: "live sample_pool 4096 = Some 7" "live sample_pool 4112 = None"
  using live_slot [of sample_pool 0] live_slot [of sample_pool 1]
  by (simp_all add: sample_pool_def slot_addr_def empty_block_def)

text \<open>The same pool with its last slot occupied instead.\<close>

definition last_pool :: "nat mempool" where
  "last_pool = sample_pool\<lparr>pool_store := [empty_block, \<lparr>storage = Some 9, is_free = False\<rparr>],
     next_free_index := 0\<rparr>"

lemma last_pool_inv: "pool_inv last_pool"
  by (simp add: last_pool_def sample_pool_def empty_block_def pool_inv_def blocks_ok_def free_count_def cursor_ok_def)

lemma last_pool_live: "live last_pool 4112 = Some 9" "dtor_log last_pool = []"
  using live_slot [of last_pool 1] by (simp_all add: last_pool_def sample_pool_def slot_addr_def)

lemma sample_pool_store:
  "length (live_objects sample_pool) = 1" "length (pool_store sample_pool) = 2"
  "next_free_index sample_pool = 1" "is_free (pool_store sample_pool ! Suc 0)"
  by (simp_all add: sample_pool_def live_objects_def empty_block_def)

lemma live_count:
  "blocks_ok bs \<Longrightarrow> length (objects_of bs) + free_count bs = length bs"
  by (induction bs) (auto simp: blocks_ok_def free_count_def split: option.splits)

text \<open>
  Property C11. Allocation, on every branch. In a pool that satisfies the invariant,
  \<open>allocate\<close> never reaches an assertion or an access outside the store. It returns null
  exactly when every slot holds an object; otherwise, if the constructor returns \<open>x\<close>, it
  returns the address of a slot that held no object, the objects that exist afterwards
  are those from before and \<open>x\<close> at that address, and the invariant holds again. If the
  constructor throws, the pool is unchanged.
\<close>

theorem allocate_correct:
  assumes inv: "pool_inv p"
  shows "(length (live_objects p) = length (pool_store p) \<longrightarrow>
            allocate dbg ctor p = Inr (NullPtr, p)) \<and>
         (length (live_objects p) < length (pool_store p) \<longrightarrow>
            allocate dbg None p = Inr (CtorThrew, p) \<and>
            (\<exists>a p'. allocate dbg (Some x) p = Inr (Slot a, p') \<and> live p a = None \<and>
               live p' = (live p)(a \<mapsto> x) \<and> pool_inv p'))"
proof -
  have "length (live_objects p) + unat (num_free p) = length (pool_store p)"
    using live_count [OF pool_invD(4) [OF inv]] pool_invD(5) [OF inv] by (simp add: live_objects_def)
  then show ?thesis
    using mp.alloc_none [OF inv] mp.alloc_throw [OF inv] mp.alloc_some [OF inv, of dbg x]
    by (metis add_cancel_right_right add.right_neutral less_not_refl not_gr_zero)
qed

theorem allocate_correct_witness:
  "pool_inv sample_pool \<and>
   (\<exists>a p'. allocate True (Some 9) sample_pool = Inr (Slot a, p') \<and> live sample_pool a = None \<and>
      live p' = (live sample_pool)(a \<mapsto> 9) \<and> pool_inv p')"
  using allocate_correct [OF sample_pool_inv, of True None 9] sample_pool_inv
  by (simp add: sample_pool_store)

text \<open>
  Property C12. Release, on every branch: the address of an existing object is accepted,
  its object is destroyed once and leaves the pool, and the invariant holds again; every
  other address (null, a foreign or interior pointer, a slot already free) is refused and
  changes nothing.
\<close>

theorem deallocate_correct:
  assumes inv: "pool_inv p"
  shows "(\<forall>x. live p a = Some x \<longrightarrow>
            (\<exists>p'. deallocate a p = Inr (True, p') \<and> live p' = (live p)(a := None) \<and>
               dtor_log p' = dtor_log p @ [x] \<and> pool_inv p')) \<and>
         (live p a = None \<longrightarrow> deallocate a p = Inr (False, p))"
proof (intro conjI allI impI)
  fix x
  assume "live p a = Some x"
  then obtain i where i: "i < length (pool_store p)" "a = slot_addr p i"
    "storage (pool_store p ! i) = Some x" "deallocate a p = Inr (True, release i x p)"
    using inv by (blast elim: deallocate_live)
  then show "\<exists>p'. deallocate a p = Inr (True, p') \<and> live p' = (live p)(a := None) \<and>
      dtor_log p' = dtor_log p @ [x] \<and> pool_inv p'"
    using pool_inv_release [OF inv i(1,3)] live_release [OF inv i(1), of x]
    by (auto simp: release_def)
qed (rule mp.dealloc_none [OF inv])

theorem deallocate_correct_witness:
  "pool_inv sample_pool \<and>
   (\<exists>p'. deallocate 4096 sample_pool = Inr (True, p') \<and> live p' = (live sample_pool)(4096 := None) \<and>
      dtor_log p' = dtor_log sample_pool @ [7] \<and> pool_inv p') \<and>
   (\<exists>p'. deallocate 4112 last_pool = Inr (True, p') \<and> dtor_log p' = [9] \<and> pool_inv p') \<and>
   deallocate 4112 sample_pool = Inr (False, sample_pool)"
  using deallocate_correct [OF sample_pool_inv, of 4096] sample_pool_inv sample_pool_live
    deallocate_correct [OF last_pool_inv, of 4112] last_pool_live
    deallocate_correct [OF sample_pool_inv, of 4112] by auto

text \<open>
  Property C13. Object lifetimes. Whatever sequence of \<open>allocate\<close> and \<open>deallocate\<close> calls a
  client makes on a new pool, with any addresses, no call faults, and once \<open>~MemPool\<close> has
  run every object that was constructed has been destroyed exactly once.
\<close>

theorem every_object_destroyed_once:
  fixes ops :: "'a pool_op list"
  assumes "0 < data" "0 < stride" "0 < n"
  shows "\<exists>p p' made gone. MemPool dbg data stride n = Inr p \<and>
           pool_run (allocate dbg) deallocate ops (p, []) = Inr (p', made) \<and>
           MemPool_dtor p' = Inr gone \<and> mset gone = mset made"
proof -
  obtain p :: "'a mempool" where p: "MemPool dbg data stride n = Inr p" "pool_inv p" "live_objects p = []"
      "dtor_log p = []"
    using MemPool_inv [OF assms, of dbg] by blast
  then obtain p' made where r: "pool_run (allocate dbg) deallocate ops (p, []) = Inr (p', made)"
      "pool_inv p'" "mset made = mset (live_objects p') + mset (dtor_log p')"
    using mp.run_conserves [of p "[]" dbg ops] by auto
  have "MemPool_dtor p' = Inr (dtor_log p' @ live_objects p')"
    using destroy_blocks_ok [OF pool_invD(4) [OF r(2)]] by (simp add: MemPool_dtor_def live_objects_def)
  with p(1) r show ?thesis by (auto simp: union_commute)
qed

theorem every_object_destroyed_once_witness:
  "\<exists>p p' made gone. MemPool True 4096 16 2 = Inr p \<and>
     pool_run (allocate True) deallocate
       [Alloc (Some 1), Alloc (Some 2), Alloc (Some 3), Dealloc 4096, Dealloc 4096, Alloc (Some (4 :: nat))]
       (p, []) = Inr (p', made) \<and> MemPool_dtor p' = Inr gone \<and> mset gone = mset made"
  by (rule every_object_destroyed_once) simp_all

text \<open>
  Property C27. The search for the next free slot terminates within one round, never
  reaches its \<open>assert\<close> while some slot is free, and stops at the first free slot after the
  cursor, going round the store.
\<close>

theorem updateNextFreeIndex_first_free:
  assumes "length (pool_store p) = n" "n < 18446744073709551616" "unat (next_free_index p) < n"
    and "j < n" "is_free (pool_store p ! j)"
  shows "\<exists>e k. 0 < e \<and> e \<le> n \<and> unat k = (unat (next_free_index p) + e) mod n \<and>
           updateNextFreeIndex dbg p = Inr (p\<lparr>next_free_index := k\<rparr>) \<and>
           is_free (pool_store p ! unat k) \<and>
           (\<forall>d. 0 < d \<and> d < e \<longrightarrow> \<not> is_free (pool_store p ! ((unat (next_free_index p) + d) mod n)))"
proof -
  let ?s = "unat (next_free_index p)"
  obtain e where e: "0 < e" "e \<le> n"
      "updateNextFreeIndex dbg p = Inr (p\<lparr>next_free_index := of_nat ((?s + e) mod n)\<rparr>)"
      "is_free (pool_store p ! ((?s + e) mod n))"
      "\<And>k. 0 < k \<Longrightarrow> k < e \<Longrightarrow> \<not> is_free (pool_store p ! ((?s + k) mod n))"
    by (rule updateNextFreeIndex_spec [OF assms, of dbg]) blast
  have "(?s + e) mod n < n" using assms(4) by (intro mod_less_divisor) linarith
  then have "unat (of_nat ((?s + e) mod n) :: size_t) = (?s + e) mod n"
    using assms(2) by (simp add: unat_of_nat_size)
  with e show ?thesis by (intro exI conjI) auto
qed

theorem updateNextFreeIndex_first_free_witness:
  "\<exists>e k. 0 < e \<and> e \<le> 2 \<and> unat k = (unat (next_free_index sample_pool) + e) mod 2 \<and>
     updateNextFreeIndex True sample_pool = Inr (sample_pool\<lparr>next_free_index := k\<rparr>) \<and>
     is_free (pool_store sample_pool ! unat k)"
  using updateNextFreeIndex_first_free [of sample_pool 2 "Suc 0" True] by (auto simp: sample_pool_store)



end
