(* ===== verification/LF_Queue.thy ===== *)
theory LF_Queue
  imports Prelude
begin

text \<open>
  The single-producer single-consumer queue \<open>LFQueue<T>\<close> of \<open>include/lf_queue.hpp\<close>.

  First the class as written: a ring of slots, a write index, a read index and a count
  of published items, all \<open>std::size_t\<close>. A pointer into the store is its slot number; the
  accesses through it check the range, and indexing modulo a size of 0 is undefined
  behaviour. Then the two threads: every access to one of the three atomics and every
  access to a slot is one step (the atomics are sequentially consistent, the C++ default),
  so \<open>prod_step\<close> and \<open>cons_step\<close> cut \<open>getNextToWriteTo\<close>, the write through its pointer,
  \<open>updateWriteIndex\<close> and their counterparts on the reading side into their atomic actions,
  and \<open>spsc_step\<close> interleaves them freely.
\<close>

section \<open>The class\<close>

record 'a lfqueue =
  queue_store :: "'a list"
  next_write_index :: size_t
  next_read_index :: size_t
  num_elements :: size_t

definition LFQueue :: "bool \<Rightarrow> 'a \<Rightarrow> size_t \<Rightarrow> 'a lfqueue outcome" where
  "LFQueue dbg dflt num_elems =
     guard_fault (cassert dbg (num_elems > 0) ''num_elems > 0'')
       (Inr \<lparr>queue_store = replicate (unat num_elems) dflt, next_write_index = 0,
             next_read_index = 0, num_elements = 0\<rparr>)"

text \<open>\<open>store_.size()\<close> as the \<open>std::size_t\<close> the code compares and divides with.\<close>

definition store_size :: "'a lfqueue \<Rightarrow> size_t" where
  "store_size q = of_nat (length (queue_store q))"

definition getNextToWriteTo :: "'a lfqueue \<Rightarrow> nat option" where
  "getNextToWriteTo q =
     (if num_elements q = store_size q then None else Some (unat (next_write_index q)))"

definition write_slot :: "nat \<Rightarrow> 'a \<Rightarrow> 'a lfqueue \<Rightarrow> 'a lfqueue outcome" where
  "write_slot i x q =
     (if i < length (queue_store q) then Inr (q\<lparr>queue_store := (queue_store q)[i := x]\<rparr>)
      else Inl (UndefinedBehaviour ''write outside store_''))"

definition updateWriteIndex :: "'a lfqueue \<Rightarrow> 'a lfqueue outcome" where
  "updateWriteIndex q =
     (if store_size q = 0 then Inl (UndefinedBehaviour ''% store_.size()'')
      else Inr (q\<lparr>next_write_index := (next_write_index q + 1) mod store_size q,
                  num_elements := num_elements q + 1\<rparr>))"

definition getNextToRead :: "'a lfqueue \<Rightarrow> nat option" where
  "getNextToRead q = (if num_elements q = 0 then None else Some (unat (next_read_index q)))"

definition read_slot :: "nat \<Rightarrow> 'a lfqueue \<Rightarrow> 'a outcome" where
  "read_slot i q =
     (if i < length (queue_store q) then Inr (queue_store q ! i)
      else Inl (UndefinedBehaviour ''read outside store_''))"

definition updateReadIndex :: "bool \<Rightarrow> 'a lfqueue \<Rightarrow> 'a lfqueue outcome" where
  "updateReadIndex dbg q =
     guard_fault (cassert dbg (num_elements q \<noteq> 0) ''num_elements_ != 0'')
       (if store_size q = 0 then Inl (UndefinedBehaviour ''% store_.size()'')
        else Inr (q\<lparr>next_read_index := (next_read_index q + 1) mod store_size q,
                    num_elements := num_elements q - 1\<rparr>))"

definition queue_size :: "'a lfqueue \<Rightarrow> size_t" where
  "queue_size q = num_elements q"

text \<open>One attempt of a client to push or pop, following the protocol the class documents:
  ask for a slot, fill or read it, then publish or release it.\<close>

definition try_push :: "'a \<Rightarrow> 'a lfqueue \<Rightarrow> (bool \<times> 'a lfqueue) outcome" where
  "try_push x q =
     (case getNextToWriteTo q of
        None \<Rightarrow> Inr (False, q)
      | Some i \<Rightarrow> obind (write_slot i x q) (\<lambda>q1. obind (updateWriteIndex q1) (\<lambda>q2. Inr (True, q2))))"

definition try_pop :: "bool \<Rightarrow> 'a lfqueue \<Rightarrow> ('a option \<times> 'a lfqueue) outcome" where
  "try_pop dbg q =
     (case getNextToRead q of
        None \<Rightarrow> Inr (None, q)
      | Some i \<Rightarrow> obind (read_slot i q) (\<lambda>x. obind (updateReadIndex dbg q) (\<lambda>q1. Inr (Some x, q1))))"

section \<open>The threads, one atomic access at a time\<close>

text \<open>
  The producer's positions while it pushes one element (the slot number and the new index
  are its local values). \<open>P_Idle\<close> is the entry of \<open>getNextToWriteTo\<close>.
\<close>

datatype prod_pc = P_Idle | P_Slot | P_Write nat | P_LoadW | P_StoreW size_t | P_Inc

fun prod_step :: "'a \<Rightarrow> prod_pc \<times> 'a lfqueue \<Rightarrow> (prod_pc \<times> 'a lfqueue) outcome" where
  "prod_step x (P_Idle, q) = Inr (if num_elements q = store_size q then P_Idle else P_Slot, q)"
| "prod_step x (P_Slot, q) = Inr (P_Write (unat (next_write_index q)), q)"
| "prod_step x (P_Write i, q) = obind (write_slot i x q) (\<lambda>q1. Inr (P_LoadW, q1))"
| "prod_step x (P_LoadW, q) =
     (if store_size q = 0 then Inl (UndefinedBehaviour ''% store_.size()'')
      else Inr (P_StoreW ((next_write_index q + 1) mod store_size q), q))"
| "prod_step x (P_StoreW w, q) = Inr (P_Inc, q\<lparr>next_write_index := w\<rparr>)"
| "prod_step x (P_Inc, q) = Inr (P_Idle, q\<lparr>num_elements := num_elements q + 1\<rparr>)"

text \<open>
  The consumer's positions. \<open>C_Idle\<close> is the entry of \<open>getNextToRead\<close>; a step that reads a
  slot also gives the value read.
\<close>

datatype cons_pc = C_Idle | C_Slot | C_Read nat | C_Assert | C_LoadR | C_StoreR size_t | C_Dec

fun cons_step :: "bool \<Rightarrow> cons_pc \<times> 'a lfqueue \<Rightarrow> (cons_pc \<times> 'a lfqueue \<times> 'a option) outcome" where
  "cons_step dbg (C_Idle, q) = Inr (if num_elements q = 0 then C_Idle else C_Slot, q, None)"
| "cons_step dbg (C_Slot, q) = Inr (C_Read (unat (next_read_index q)), q, None)"
| "cons_step dbg (C_Read i, q) = obind (read_slot i q) (\<lambda>x. Inr (C_Assert, q, Some x))"
| "cons_step dbg (C_Assert, q) =
     guard_fault (cassert dbg (num_elements q \<noteq> 0) ''num_elements_ != 0'') (Inr (C_LoadR, q, None))"
| "cons_step dbg (C_LoadR, q) =
     (if store_size q = 0 then Inl (UndefinedBehaviour ''% store_.size()'')
      else Inr (C_StoreR ((next_read_index q + 1) mod store_size q), q, None))"
| "cons_step dbg (C_StoreR r, q) = Inr (C_Dec, q\<lparr>next_read_index := r\<rparr>, None)"
| "cons_step dbg (C_Dec, q) = Inr (C_Idle, q\<lparr>num_elements := num_elements q - 1\<rparr>, None)"

text \<open>
  The whole system: the producer pushes \<open>todo\<close> in order, waiting while the queue is full;
  the consumer takes items as long as there are any. \<open>sent\<close>, \<open>released\<close> and \<open>got\<close>
  record what has been published, how many items have been released and what was read.
\<close>

record 'a spsc =
  sq :: "'a lfqueue"
  ppc :: prod_pc
  cpc :: cons_pc
  todo :: "'a list"
  sent :: "'a list"
  released :: nat
  got :: "'a list"

inductive spsc_step :: "bool \<Rightarrow> 'a spsc \<Rightarrow> 'a spsc \<Rightarrow> bool" for dbg where
  produce: "todo s = x # xs \<Longrightarrow> prod_step x (ppc s, sq s) = Inr (pp, q) \<Longrightarrow>
    spsc_step dbg s
      (s\<lparr>sq := q, ppc := pp, todo := (if ppc s = P_Inc then xs else todo s),
         sent := (if ppc s = P_Inc then sent s @ [x] else sent s)\<rparr>)"
| consume: "cons_step dbg (cpc s, sq s) = Inr (cp, q, r) \<Longrightarrow>
    spsc_step dbg s
      (s\<lparr>sq := q, cpc := cp, got := got s @ (case r of None \<Rightarrow> [] | Some v \<Rightarrow> [v]),
         released := (if cpc s = C_Dec then Suc (released s) else released s)\<rparr>)"

definition spsc_init :: "bool \<Rightarrow> 'a \<Rightarrow> size_t \<Rightarrow> 'a list \<Rightarrow> 'a spsc \<Rightarrow> bool" where
  "spsc_init dbg dflt n items s \<longleftrightarrow>
     (\<exists>q. LFQueue dbg dflt n = Inr q \<and>
        s = \<lparr>sq = q, ppc = P_Idle, cpc = C_Idle, todo = items, sent = [], released = 0, got = []\<rparr>)"

text \<open>Two threads race on a slot when both are about to access it and one writes.\<close>

definition slot_race :: "'a spsc \<Rightarrow> bool" where
  "slot_race s \<longleftrightarrow> (\<exists>i. ppc s = P_Write i \<and> cpc s = C_Read i)"

section \<open>The ring invariant\<close>

text \<open>
  \<open>snt\<close> are the items published so far and \<open>rel\<close> is how many of them have been released:
  the two indices are these counts modulo the capacity (one ahead while a thread stands
  between storing its index and changing the count), the count is their difference, and
  the slots in between hold the items in order.
\<close>

definition ring_inv :: "'a lfqueue \<Rightarrow> bool \<Rightarrow> bool \<Rightarrow> 'a list \<Rightarrow> nat \<Rightarrow> bool" where
  "ring_inv q wahead rahead snt rel \<longleftrightarrow>
     (let n = length (queue_store q) in
        0 < n \<and> n < 18446744073709551616 \<and> rel \<le> length snt \<and> length snt \<le> rel + n \<and>
        unat (num_elements q) = length snt - rel \<and>
        unat (next_write_index q) = (length snt + of_bool wahead) mod n \<and>
        unat (next_read_index q) = (rel + of_bool rahead) mod n \<and>
        (\<forall>k. rel \<le> k \<and> k < length snt \<longrightarrow> queue_store q ! (k mod n) = snt ! k))"

text \<open>What holds for the producer's local state while it pushes \<open>x\<close>.\<close>

fun prod_ok :: "'a \<Rightarrow> prod_pc \<Rightarrow> 'a lfqueue \<Rightarrow> 'a list \<Rightarrow> nat \<Rightarrow> bool" where
  "prod_ok x P_Idle q snt rel = True"
| "prod_ok x P_Slot q snt rel = (length snt < rel + length (queue_store q))"
| "prod_ok x (P_Write i) q snt rel =
     (length snt < rel + length (queue_store q) \<and> i = length snt mod length (queue_store q))"
| "prod_ok x P_LoadW q snt rel =
     (length snt < rel + length (queue_store q) \<and>
      queue_store q ! (length snt mod length (queue_store q)) = x)"
| "prod_ok x (P_StoreW w) q snt rel =
     (length snt < rel + length (queue_store q) \<and>
      queue_store q ! (length snt mod length (queue_store q)) = x \<and>
      unat w = Suc (length snt) mod length (queue_store q))"
| "prod_ok x P_Inc q snt rel =
     (length snt < rel + length (queue_store q) \<and>
      queue_store q ! (length snt mod length (queue_store q)) = x)"

fun cons_ok :: "cons_pc \<Rightarrow> 'a lfqueue \<Rightarrow> 'a list \<Rightarrow> nat \<Rightarrow> bool" where
  "cons_ok C_Idle q snt rel = True"
| "cons_ok (C_Read i) q snt rel = (rel < length snt \<and> i = rel mod length (queue_store q))"
| "cons_ok (C_StoreR r) q snt rel =
     (rel < length snt \<and> unat r = Suc rel mod length (queue_store q))"
| "cons_ok pc q snt rel = (rel < length snt)"

lemma ring_invD:
  assumes "ring_inv q wa ra snt rel"
  shows "0 < length (queue_store q)" "length (queue_store q) < 18446744073709551616"
    "rel \<le> length snt" "length snt \<le> rel + length (queue_store q)"
    "unat (num_elements q) = length snt - rel"
    "unat (next_write_index q) = (length snt + of_bool wa) mod length (queue_store q)"
    "unat (next_read_index q) = (rel + of_bool ra) mod length (queue_store q)"
    "\<And>k. rel \<le> k \<Longrightarrow> k < length snt \<Longrightarrow>
       queue_store q ! (k mod length (queue_store q)) = snt ! k"
  using assms by (simp_all add: ring_inv_def Let_def)

lemma store_size_facts:
  assumes "ring_inv q wa ra snt rel"
  shows "store_size q \<noteq> 0" "unat (store_size q) = length (queue_store q)"
proof -
  show u: "unat (store_size q) = length (queue_store q)"
    using ring_invD(2) [OF assms] by (simp add: store_size_def unat_of_nat_size)
  then show "store_size q \<noteq> 0" using ring_invD(1) [OF assms] by auto
qed

lemma full_iff:
  assumes "ring_inv q wa ra snt rel"
  shows "num_elements q = store_size q \<longleftrightarrow> length snt = rel + length (queue_store q)"
  using ring_invD(3-5) [OF assms] store_size_facts(2) [OF assms] by (auto simp: word_unat_eq_iff)

lemma empty_iff:
  assumes "ring_inv q wa ra snt rel"
  shows "num_elements q = 0 \<longleftrightarrow> length snt = rel"
  using ring_invD(3,5) [OF assms] by (auto simp: word_unat_eq_iff)

lemma unat_ring_inc:
  assumes "ring_inv q wa ra snt rel" "unat i = m mod length (queue_store q)"
  shows "unat ((i + 1) mod store_size q) = Suc m mod length (queue_store q)"
proof -
  let ?n = "length (queue_store q)"
  have "unat i < ?n" using assms(2) ring_invD(1) [OF assms(1)] by simp
  then have "unat (i + 1) = Suc (unat i)"
    using ring_invD(2) [OF assms(1)] by (rule unat_inc)
  then show ?thesis
    using assms(2) store_size_facts(2) [OF assms(1)] by (simp add: unat_mod mod_Suc_eq)
qed

text \<open>The producer's step keeps the invariant and its own local facts, and does not fault.\<close>

lemma prod_step_inv:
  assumes inv: "ring_inv q (pp = P_Inc) ra snt rel" and ok: "prod_ok x pp q snt rel"
  obtains pp' q' where "prod_step x (pp, q) = Inr (pp', q')"
    "ring_inv q' (pp' = P_Inc) ra (if pp = P_Inc then snt @ [x] else snt) rel"
    "prod_ok x pp' q' (if pp = P_Inc then snt @ [x] else snt) rel"
    "length (queue_store q') = length (queue_store q)"
    "pp = P_Idle \<Longrightarrow> pp' = (if length snt = rel + length (queue_store q) then P_Idle else P_Slot)"
proof (cases pp)
  case P_Idle
  then show ?thesis
    using that [of "if num_elements q = store_size q then P_Idle else P_Slot" q] inv full_iff [OF inv]
      ring_invD(4) [OF inv] by (auto split: if_splits)
next
  case P_Slot
  then show ?thesis
    using that [of "P_Write (unat (next_write_index q))" q] inv ok ring_invD(6) [OF inv] by simp
next
  case (P_Write i)
  let ?n = "length (queue_store q)"
  have i: "i < ?n" using P_Write ok ring_invD(1) [OF inv] by simp
  have ne: "i \<noteq> k mod ?n" if "rel \<le> k" "k < length snt" for k
    using ring_slots_differ [of k "length snt" ?n] that ok P_Write by auto
  let ?q = "q\<lparr>queue_store := (queue_store q)[i := x]\<rparr>"
  have "ring_inv ?q False ra snt rel"
    using inv P_Write ne by (auto simp: ring_inv_def Let_def)
  then show ?thesis
    using that [of P_LoadW ?q] P_Write ok i by (auto simp: write_slot_def)
next
  case P_LoadW
  have "unat ((next_write_index q + 1) mod store_size q) = Suc (length snt) mod length (queue_store q)"
    using unat_ring_inc [OF inv] ring_invD(6) [OF inv] P_LoadW by simp
  then show ?thesis
    using that [of "P_StoreW ((next_write_index q + 1) mod store_size q)" q] P_LoadW ok inv
      store_size_facts(1) [OF inv] by auto
next
  case (P_StoreW w)
  then have "ring_inv (q\<lparr>next_write_index := w\<rparr>) True ra snt rel"
    using inv ok by (simp add: ring_inv_def Let_def)
  then show ?thesis
    using that [of P_Inc "q\<lparr>next_write_index := w\<rparr>"] P_StoreW ok by simp
next
  case P_Inc
  let ?n = "length (queue_store q)" and ?q = "q\<lparr>num_elements := num_elements q + 1\<rparr>"
  have "unat (num_elements q) < ?n"
    using P_Inc ok ring_invD(3,5) [OF inv] by auto
  then have num: "unat (num_elements q + 1) = Suc (unat (num_elements q))"
    using ring_invD(2) [OF inv] by (rule unat_inc)
  have "ring_inv ?q False ra (snt @ [x]) rel"
    using P_Inc inv ok num by (auto simp: ring_inv_def Let_def nth_append less_Suc_eq)
  then show ?thesis
    using that [of P_Idle ?q] P_Inc by simp
qed

lemma cons_step_inv:
  assumes inv: "ring_inv q wa (cp = C_Dec) snt rel" and ok: "cons_ok cp q snt rel"
  obtains cp' q' r where "cons_step dbg (cp, q) = Inr (cp', q', r)"
    "ring_inv q' wa (cp' = C_Dec) snt (if cp = C_Dec then Suc rel else rel)"
    "cons_ok cp' q' snt (if cp = C_Dec then Suc rel else rel)"
    "queue_store q' = queue_store q"
    "r = (case cp of C_Read _ \<Rightarrow> Some (snt ! rel) | _ \<Rightarrow> None)"
    "cp = C_Idle \<Longrightarrow> cp' = (if length snt = rel then C_Idle else C_Slot)"
    "\<And>i. cp = C_Read i \<Longrightarrow> cp' = C_Assert"
proof (cases cp)
  case C_Idle
  then show ?thesis
    using that [of "if num_elements q = 0 then C_Idle else C_Slot" q None] inv empty_iff [OF inv]
      ring_invD(3) [OF inv] by (auto split: if_splits)
next
  case C_Slot
  then show ?thesis
    using that [of "C_Read (unat (next_read_index q))" q None] inv ok ring_invD(7) [OF inv] by simp
next
  case (C_Read i)
  then have "i < length (queue_store q)" "queue_store q ! i = snt ! rel"
    using ok ring_invD(1,8) [OF inv] by auto
  then show ?thesis
    using that [of C_Assert q "Some (snt ! rel)"] C_Read inv ok by (simp add: read_slot_def)
next
  case C_Assert
  then have "num_elements q \<noteq> 0" using ok empty_iff [OF inv] by simp
  then show ?thesis
    using that [of C_LoadR q None] C_Assert inv ok by simp
next
  case C_LoadR
  have "unat ((next_read_index q + 1) mod store_size q) = Suc rel mod length (queue_store q)"
    using unat_ring_inc [OF inv] ring_invD(7) [OF inv] C_LoadR by simp
  then show ?thesis
    using that [of "C_StoreR ((next_read_index q + 1) mod store_size q)" q None] C_LoadR ok inv
      store_size_facts(1) [OF inv] by auto
next
  case (C_StoreR r)
  then have "ring_inv (q\<lparr>next_read_index := r\<rparr>) wa True snt rel"
    using inv ok by (simp add: ring_inv_def Let_def)
  then show ?thesis
    using that [of C_Dec "q\<lparr>next_read_index := r\<rparr>" None] C_StoreR ok by simp
next
  case C_Dec
  let ?q = "q\<lparr>num_elements := num_elements q - 1\<rparr>"
  have ne: "num_elements q \<noteq> 0" using C_Dec ok empty_iff [OF inv] by simp
  have "ring_inv ?q wa False snt (Suc rel)"
    using C_Dec inv ok unat_dec [OF ne] by (auto simp: ring_inv_def Let_def)
  then show ?thesis
    using that [of C_Idle ?q None] C_Dec by simp
qed

text \<open>The other thread's step does not disturb the local facts.\<close>

lemma prod_ok_stable:
  "prod_ok x pp q snt rel \<Longrightarrow> queue_store q' = queue_store q \<Longrightarrow> rel \<le> rel' \<Longrightarrow>
     prod_ok x pp q' snt rel'"
  by (cases pp) auto

lemma cons_ok_stable:
  "cons_ok cp q snt rel \<Longrightarrow> length (queue_store q') = length (queue_store q) \<Longrightarrow>
     length snt \<le> length snt' \<Longrightarrow> cons_ok cp q' snt' rel"
  by (cases cp) auto

section \<open>The producer-consumer system\<close>

fun has_read :: "cons_pc \<Rightarrow> bool" where
  "has_read C_Idle = False"
| "has_read C_Slot = False"
| "has_read (C_Read i) = False"
| "has_read cp = True"

definition spsc_inv :: "'a list \<Rightarrow> 'a spsc \<Rightarrow> bool" where
  "spsc_inv items s \<longleftrightarrow>
     ring_inv (sq s) (ppc s = P_Inc) (cpc s = C_Dec) (sent s) (released s) \<and>
     (todo s = [] \<longrightarrow> ppc s = P_Idle) \<and>
     prod_ok (hd (todo s)) (ppc s) (sq s) (sent s) (released s) \<and>
     cons_ok (cpc s) (sq s) (sent s) (released s) \<and>
     sent s @ todo s = items \<and>
     got s = take (released s + of_bool (has_read (cpc s))) (sent s)"

lemma spsc_inv_produce:
  assumes inv: "spsc_inv items s" and td: "todo s = x # xs"
    and st: "prod_step x (ppc s, sq s) = Inr (pp, q)"
  shows "spsc_inv items
      (s\<lparr>sq := q, ppc := pp, todo := (if ppc s = P_Inc then xs else todo s),
         sent := (if ppc s = P_Inc then sent s @ [x] else sent s)\<rparr>)"
proof -
  have ring: "ring_inv (sq s) (ppc s = P_Inc) (cpc s = C_Dec) (sent s) (released s)"
    and ok: "prod_ok x (ppc s) (sq s) (sent s) (released s)"
    using inv td by (simp_all add: spsc_inv_def)
  let ?snt = "if ppc s = P_Inc then sent s @ [x] else sent s"
  have step: "ring_inv q (pp = P_Inc) (cpc s = C_Dec) ?snt (released s)"
      "prod_ok x pp q ?snt (released s)" "length (queue_store q) = length (queue_store (sq s))"
    using prod_step_inv [OF ring ok] st by (metis Inr_inject Pair_inject)+
  have cons: "cons_ok (cpc s) q ?snt (released s)"
    by (rule cons_ok_stable [of _ "sq s" "sent s"]) (use inv step(3) in \<open>auto simp: spsc_inv_def\<close>)
  have idle: "ppc s = P_Inc \<Longrightarrow> pp = P_Idle" using st by auto
  have "released s + of_bool (has_read (cpc s)) \<le> length (sent s)"
    using inv ring_invD(3) [OF ring] by (cases "cpc s") (auto simp: spsc_inv_def)
  with inv td step cons idle show ?thesis by (auto simp: spsc_inv_def)
qed

lemma take_Suc_nth_eq: "k < length xs \<Longrightarrow> take k xs @ [xs ! k] = take (Suc k) xs"
  by (simp add: take_Suc_conv_app_nth)

lemma spsc_inv_consume:
  assumes inv: "spsc_inv items s" and st: "cons_step dbg (cpc s, sq s) = Inr (cp, q, r)"
  shows "spsc_inv items
      (s\<lparr>sq := q, cpc := cp, got := got s @ (case r of None \<Rightarrow> [] | Some v \<Rightarrow> [v]),
         released := (if cpc s = C_Dec then Suc (released s) else released s)\<rparr>)"
proof -
  have ring: "ring_inv (sq s) (ppc s = P_Inc) (cpc s = C_Dec) (sent s) (released s)"
    and ok: "cons_ok (cpc s) (sq s) (sent s) (released s)"
    using inv by (simp_all add: spsc_inv_def)
  let ?rel = "if cpc s = C_Dec then Suc (released s) else released s"
  have step: "ring_inv q (ppc s = P_Inc) (cp = C_Dec) (sent s) ?rel" "cons_ok cp q (sent s) ?rel"
      "queue_store q = queue_store (sq s)"
      "r = (case cpc s of C_Read _ \<Rightarrow> Some (sent s ! released s) | _ \<Rightarrow> None)"
      "\<And>i. cpc s = C_Read i \<Longrightarrow> cp = C_Assert"
    using cons_step_inv [OF ring ok, of dbg] st by (metis Inr_inject Pair_inject)+
  have prod: "prod_ok (hd (todo s)) (ppc s) q (sent s) ?rel"
    by (rule prod_ok_stable [of _ _ "sq s" _ "released s"]) (use inv step(3) in \<open>auto simp: spsc_inv_def\<close>)
  have "got s @ (case r of None \<Rightarrow> [] | Some v \<Rightarrow> [v]) = take (?rel + of_bool (has_read cp)) (sent s)"
    using inv ok step(4,5) st
    by (cases "cpc s") (auto simp: spsc_inv_def take_Suc_nth_eq guard_fault_Inr_iff split: if_splits)
  with inv step prod show ?thesis by (simp add: spsc_inv_def)
qed

lemma spsc_inv_init:
  assumes "0 < n" "spsc_init dbg dflt n items s"
  shows "spsc_inv items s"
proof -
  from assms obtain q where q: "q = \<lparr>queue_store = replicate (unat n) dflt, next_write_index = 0,
      next_read_index = 0, num_elements = 0\<rparr>"
    and s: "s = \<lparr>sq = q, ppc = P_Idle, cpc = C_Idle, todo = items, sent = [], released = 0, got = []\<rparr>"
    by (auto simp: spsc_init_def LFQueue_def)
  have "ring_inv q False False [] 0"
    using assms(1) by (simp add: q ring_inv_def unat_gt_0 word_neq_0_conv)
  then show ?thesis by (simp add: s spsc_inv_def)
qed

text \<open>How far a push and a pop have come: every step but the spinning ones adds one.\<close>

fun pstage :: "prod_pc \<Rightarrow> nat" where
  "pstage P_Idle = 0"
| "pstage P_Slot = 1"
| "pstage (P_Write i) = 2"
| "pstage P_LoadW = 3"
| "pstage (P_StoreW w) = 4"
| "pstage P_Inc = 5"

fun cstage :: "cons_pc \<Rightarrow> nat" where
  "cstage C_Idle = 0"
| "cstage C_Slot = 1"
| "cstage (C_Read i) = 2"
| "cstage C_Assert = 3"
| "cstage C_LoadR = 4"
| "cstage (C_StoreR r) = 5"
| "cstage C_Dec = 6"

lemma pstage_step:
  "prod_step x (pp, q) = Inr (pp', q') \<Longrightarrow> pp \<noteq> P_Idle \<Longrightarrow>
     pstage pp' = (if pp = P_Inc then 0 else Suc (pstage pp))"
  by (cases pp) (auto simp: obind_Inr_iff split: if_splits)

lemma cstage_step:
  "cons_step dbg (cp, q) = Inr (cp', q', r) \<Longrightarrow> cp \<noteq> C_Idle \<Longrightarrow>
     cstage cp' = (if cp = C_Dec then 0 else Suc (cstage cp))"
  by (cases cp) (auto simp: obind_Inr_iff guard_fault_Inr_iff split: if_splits)

lemma pstage_le: "pstage pp \<le> 5"
  by (cases pp) simp_all

lemma cstage_le: "cstage cp \<le> 6"
  by (cases cp) simp_all

definition spsc_rank :: "'a spsc \<Rightarrow> nat" where
  "spsc_rank s = (6 * length (todo s) - pstage (ppc s)) +
     (7 * (length (sent s) + length (todo s) - released s) - cstage (cpc s))"

definition spsc_final :: "'a list \<Rightarrow> 'a spsc \<Rightarrow> bool" where
  "spsc_final items s \<longleftrightarrow> todo s = [] \<and> got s = items \<and> ppc s = P_Idle \<and> cpc s = C_Idle"

lemma spsc_produce_progress:
  assumes inv: "spsc_inv items s" and td: "todo s = x # xs"
    and go: "ppc s \<noteq> P_Idle \<or> length (sent s) \<noteq> released s + length (queue_store (sq s))"
  shows "\<exists>t. spsc_step dbg s t \<and> spsc_rank t < spsc_rank s"
proof -
  have ring: "ring_inv (sq s) (ppc s = P_Inc) (cpc s = C_Dec) (sent s) (released s)"
    and ok: "prod_ok x (ppc s) (sq s) (sent s) (released s)"
    using inv td by (simp_all add: spsc_inv_def)
  obtain pp q where st: "prod_step x (ppc s, sq s) = Inr (pp, q)"
      "ppc s = P_Idle \<Longrightarrow> pp = (if length (sent s) = released s + length (queue_store (sq s)) then P_Idle else P_Slot)"
    by (rule prod_step_inv [OF ring ok]) blast
  have stage: "pstage pp = (if ppc s = P_Inc then 0 else Suc (pstage (ppc s)))"
    using pstage_step [OF st(1)] st(2) go by (cases "ppc s = P_Idle") auto
  let ?t = "s\<lparr>sq := q, ppc := pp, todo := (if ppc s = P_Inc then xs else todo s),
         sent := (if ppc s = P_Inc then sent s @ [x] else sent s)\<rparr>"
  have "spsc_step dbg s ?t" by (rule spsc_step.produce [OF td st(1)])
  moreover have "spsc_rank ?t < spsc_rank s"
    using stage td pstage_le [of "ppc s"] by (cases "ppc s") (auto simp: spsc_rank_def)
  ultimately show ?thesis by blast
qed

lemma spsc_consume_progress:
  assumes inv: "spsc_inv items s" and go: "cpc s \<noteq> C_Idle \<or> length (sent s) \<noteq> released s"
  shows "\<exists>t. spsc_step dbg s t \<and> spsc_rank t < spsc_rank s"
proof -
  have ring: "ring_inv (sq s) (ppc s = P_Inc) (cpc s = C_Dec) (sent s) (released s)"
    and ok: "cons_ok (cpc s) (sq s) (sent s) (released s)"
    using inv by (simp_all add: spsc_inv_def)
  obtain cp q r where st: "cons_step dbg (cpc s, sq s) = Inr (cp, q, r)"
      "cpc s = C_Idle \<Longrightarrow> cp = (if length (sent s) = released s then C_Idle else C_Slot)"
    by (rule cons_step_inv [OF ring ok, of dbg]) blast
  have stage: "cstage cp = (if cpc s = C_Dec then 0 else Suc (cstage (cpc s)))"
    using cstage_step [OF st(1)] st(2) go by (cases "cpc s = C_Idle") auto
  have lt: "released s < length (sent s)"
    using go ok ring_invD(3) [OF ring] by (cases "cpc s") auto
  let ?t = "s\<lparr>sq := q, cpc := cp, got := got s @ (case r of None \<Rightarrow> [] | Some v \<Rightarrow> [v]),
         released := (if cpc s = C_Dec then Suc (released s) else released s)\<rparr>"
  have "spsc_step dbg s ?t" by (rule spsc_step.consume [OF st(1)])
  moreover have "spsc_rank ?t < spsc_rank s"
    using stage lt cstage_le [of "cpc s"] by (cases "cpc s") (auto simp: spsc_rank_def)
  ultimately show ?thesis by blast
qed

lemma spsc_progress:
  assumes inv: "spsc_inv items s" and nf: "\<not> spsc_final items s"
  shows "\<exists>t. spsc_step dbg s t \<and> spsc_rank t < spsc_rank s"
proof -
  have ring: "ring_inv (sq s) (ppc s = P_Inc) (cpc s = C_Dec) (sent s) (released s)"
    using inv by (simp add: spsc_inv_def)
  consider (cons) "cpc s \<noteq> C_Idle \<or> length (sent s) \<noteq> released s"
    | (prod) x xs where "cpc s = C_Idle" "length (sent s) = released s" "todo s = x # xs"
    | (finished) "cpc s = C_Idle" "length (sent s) = released s" "todo s = []"
    by (cases "todo s") auto
  then show ?thesis
  proof cases
    case cons
    then show ?thesis by (rule spsc_consume_progress [OF inv])
  next
    case prod
    then show ?thesis
      using spsc_produce_progress [OF inv prod(3)] ring_invD(1) [OF ring] by simp
  next
    case finished
    with inv nf show ?thesis by (simp add: spsc_final_def spsc_inv_def)
  qed
qed

interpretation spsc: progress_system "\<lambda>s. 0 < n \<and> spsc_init dbg dflt n items s" "spsc_step dbg"
  "spsc_inv items" "spsc_final items" spsc_rank
proof (unfold_locales, goal_cases)
  case (1 s)
  then show ?case by (blast intro: spsc_inv_init)
next
  case (2 s t)
  from 2(2,1) show ?case
    by (cases rule: spsc_step.cases) (blast intro: spsc_inv_produce spsc_inv_consume)+
next
  case (3 s)
  then show ?case by (rule spsc_progress)
qed

lemma spsc_reachable_inv:
  "0 < n \<Longrightarrow> reachable (spsc_init dbg dflt n items) (spsc_step dbg) s \<Longrightarrow> spsc_inv items s"
  using spsc.reachable_inv [of n dbg dflt items s] by (simp add: reachable_def)

section \<open>The queue used by one thread: a bounded FIFO\<close>

definition contents :: "'a lfqueue \<Rightarrow> 'a list" where
  "contents q = map (\<lambda>k. queue_store q ! ((unat (next_read_index q) + k) mod length (queue_store q)))
     [0..<unat (num_elements q)]"

definition queue_inv :: "'a lfqueue \<Rightarrow> bool" where
  "queue_inv q \<longleftrightarrow>
     (let n = length (queue_store q) in
        0 < n \<and> n < 18446744073709551616 \<and> unat (next_read_index q) < n \<and>
        unat (num_elements q) \<le> n \<and>
        unat (next_write_index q) = (unat (next_read_index q) + unat (num_elements q)) mod n)"

text \<open>Both views agree: between operations, the items published and not yet released are
  the queue's contents.\<close>

lemma ring_inv_contents:
  assumes "ring_inv q False False snt rel"
  shows "queue_inv q" "contents q = drop rel snt"
proof -
  note D = ring_invD [OF assms]
  have "(rel mod length (queue_store q) + (length snt - rel)) mod length (queue_store q)
      = length snt mod length (queue_store q)"
    by (simp only: mod_add_left_eq le_add_diff_inverse [OF D(3)])
  then show "queue_inv q"
    using D(1-7) by (simp add: queue_inv_def Let_def)
  show "contents q = drop rel snt"
  proof (rule nth_equalityI)
    show "length (contents q) = length (drop rel snt)" using D(5) by (simp add: contents_def)
    fix k
    assume "k < length (contents q)"
    then have k: "k < length snt - rel" using D(5) by (simp add: contents_def)
    then show "contents q ! k = drop rel snt ! k"
      using D(3,5,7) D(8) [of "rel + k"] by (simp add: contents_def mod_add_left_eq)
  qed
qed

lemma queue_inv_ring:
  assumes "queue_inv q"
  obtains snt rel where "ring_inv q False False snt rel" "contents q = drop rel snt"
proof -
  let ?rel = "unat (next_read_index q)"
  let ?snt = "replicate ?rel undefined @ contents q"
  have "ring_inv q False False ?snt ?rel"
    using assms by (auto simp: ring_inv_def queue_inv_def Let_def contents_def nth_append)
  with that [of ?snt ?rel] show ?thesis by simp
qed

text \<open>
  The calls of one thread are the atomic steps run without interference, so the facts about
  the steps give the facts about the methods.
\<close>

fun prod_iter :: "nat \<Rightarrow> 'a \<Rightarrow> prod_pc \<times> 'a lfqueue \<Rightarrow> (prod_pc \<times> 'a lfqueue) outcome" where
  "prod_iter 0 x c = Inr c"
| "prod_iter (Suc k) x c = obind (prod_step x c) (prod_iter k x)"

fun cons_iter :: "nat \<Rightarrow> bool \<Rightarrow> cons_pc \<times> 'a lfqueue \<times> 'a option \<Rightarrow>
    (cons_pc \<times> 'a lfqueue \<times> 'a option) outcome" where
  "cons_iter 0 dbg c = Inr c"
| "cons_iter (Suc k) dbg (cp, q, r) =
     obind (cons_step dbg (cp, q)) (\<lambda>(cp', q', r').
       cons_iter k dbg (cp', q', if r' = None then r else r'))"

lemma try_push_steps:
  assumes "num_elements q \<noteq> store_size q"
  shows "obind (try_push x q) (\<lambda>(b, q'). Inr (P_Idle, q')) = prod_iter 6 x (P_Idle, q)"
  using assms
  by (simp add: try_push_def getNextToWriteTo_def numeral_eq_Suc write_slot_def updateWriteIndex_def
      store_size_def)

lemma try_pop_steps:
  assumes "num_elements q \<noteq> 0"
  shows "obind (try_pop dbg q) (\<lambda>(r, q'). Inr (C_Idle, q', r)) = cons_iter 7 dbg (C_Idle, q, None)"
  using assms
  by (simp add: try_pop_def getNextToRead_def numeral_eq_Suc read_slot_def updateReadIndex_def
      store_size_def)

text \<open>
  The contract a client of the queue relies on: a bounded first-in first-out buffer. The
  logger's \<open>pushValue\<close> and \<open>flushQueue\<close> are such clients.
\<close>

datatype 'a fifo_op = Push 'a | Pop

datatype 'a fifo_result = Pushed bool | Popped "'a option"

fun fifo_run :: "('a \<Rightarrow> 'q \<Rightarrow> (bool \<times> 'q) outcome) \<Rightarrow> ('q \<Rightarrow> ('a option \<times> 'q) outcome) \<Rightarrow>
    'a fifo_op list \<Rightarrow> 'q \<Rightarrow> ('a fifo_result list \<times> 'q) outcome" where
  "fifo_run push pop [] q = Inr ([], q)"
| "fifo_run push pop (Push x # ops) q =
     obind (push x q) (\<lambda>(ok, q1). obind (fifo_run push pop ops q1) (\<lambda>(rs, q2). Inr (Pushed ok # rs, q2)))"
| "fifo_run push pop (Pop # ops) q =
     obind (pop q) (\<lambda>(r, q1). obind (fifo_run push pop ops q1) (\<lambda>(rs, q2). Inr (Popped r # rs, q2)))"

text \<open>The specification: a list of at most \<open>cap\<close> items. A push succeeds exactly if there is
  room, and appends; a pop takes the first item exactly if there is one.\<close>

fun bounded_list_run :: "nat \<Rightarrow> 'a fifo_op list \<Rightarrow> 'a list \<Rightarrow> 'a fifo_result list \<times> 'a list" where
  "bounded_list_run cap [] xs = ([], xs)"
| "bounded_list_run cap (Push x # ops) xs =
     (if length xs < cap
      then apfst (Cons (Pushed True)) (bounded_list_run cap ops (xs @ [x]))
      else apfst (Cons (Pushed False)) (bounded_list_run cap ops xs))"
| "bounded_list_run cap (Pop # ops) [] = apfst (Cons (Popped None)) (bounded_list_run cap ops [])"
| "bounded_list_run cap (Pop # ops) (x # xs) =
     apfst (Cons (Popped (Some x))) (bounded_list_run cap ops xs)"

locale bounded_fifo =
  fixes inv :: "'q \<Rightarrow> bool"
    and items :: "'q \<Rightarrow> 'a list"
    and capacity :: "'q \<Rightarrow> nat"
    and push :: "'a \<Rightarrow> 'q \<Rightarrow> (bool \<times> 'q) outcome"
    and pop :: "'q \<Rightarrow> ('a option \<times> 'q) outcome"
  assumes bounded: "inv q \<Longrightarrow> length (items q) \<le> capacity q"
    and push_full: "inv q \<Longrightarrow> length (items q) = capacity q \<Longrightarrow> push x q = Inr (False, q)"
    and push_room: "inv q \<Longrightarrow> length (items q) < capacity q \<Longrightarrow>
      \<exists>q'. push x q = Inr (True, q') \<and> inv q' \<and> capacity q' = capacity q \<and> items q' = items q @ [x]"
    and pop_empty: "inv q \<Longrightarrow> items q = [] \<Longrightarrow> pop q = Inr (None, q)"
    and pop_item: "inv q \<Longrightarrow> items q = x # xs \<Longrightarrow>
      \<exists>q'. pop q = Inr (Some x, q') \<and> inv q' \<and> capacity q' = capacity q \<and> items q' = xs"
begin

text \<open>Every run gives the results of the specification and ends with its contents, and no
  call faults.\<close>

lemma run_refines:
  assumes "inv q"
  shows "\<exists>q'. fifo_run push pop ops q = Inr (fst (bounded_list_run (capacity q) ops (items q)), q') \<and>
    inv q' \<and> capacity q' = capacity q \<and> items q' = snd (bounded_list_run (capacity q) ops (items q))"
  using assms
proof (induction ops arbitrary: q)
  case Nil
  then show ?case by auto
next
  case (Cons oper ops)
  show ?case
  proof (cases oper)
    case (Push x)
    show ?thesis
    proof (cases "length (items q) = capacity q")
      case True
      then have "push x q = Inr (False, q)" using Cons.prems by (simp add: push_full)
      with Cons.IH [OF Cons.prems] Push True show ?thesis by auto
    next
      case False
      with bounded [OF Cons.prems] have room: "length (items q) < capacity q" by simp
      then obtain q' where "push x q = Inr (True, q')" "inv q'" "capacity q' = capacity q"
          "items q' = items q @ [x]"
        using push_room [OF Cons.prems] by blast
      with Cons.IH [of q'] Push room show ?thesis by auto
    qed
  next
    case Pop
    show ?thesis
    proof (cases "items q")
      case Nil
      then have "pop q = Inr (None, q)" using Cons.prems by (simp add: pop_empty)
      with Cons.IH [OF Cons.prems] Nil Pop show ?thesis by auto
    next
      case it: (Cons x xs)
      with Cons.prems obtain q' where "pop q = Inr (Some x, q')" "inv q'" "capacity q' = capacity q"
          "items q' = xs"
        using pop_item by blast
      with Cons.IH [of q'] it Pop show ?thesis by auto
    qed
  qed
qed

end

lemma queue_inv_new:
  assumes "0 < n"
  shows "\<exists>q. LFQueue dbg dflt n = Inr q \<and> queue_inv q \<and> contents q = [] \<and>
           length (queue_store q) = unat n"
  using assms by (simp add: LFQueue_def queue_inv_def contents_def unat_gt_0 word_neq_0_conv)

lemma length_contents: "length (contents q) = unat (num_elements q)"
  by (simp add: contents_def)

lemma prod_iter_inv:
  assumes "ring_inv q (pp = P_Inc) ra snt rel" "prod_ok x pp q snt rel" "pp \<noteq> P_Idle"
  shows "\<exists>q'. prod_iter (6 - pstage pp) x (pp, q) = Inr (P_Idle, q') \<and>
           ring_inv q' False ra (snt @ [x]) rel \<and> length (queue_store q') = length (queue_store q)"
  using assms
proof (induction "6 - pstage pp" arbitrary: pp q rule: less_induct)
  case less
  obtain pp' q' where st: "prod_step x (pp, q) = Inr (pp', q')"
      "ring_inv q' (pp' = P_Inc) ra (if pp = P_Inc then snt @ [x] else snt) rel"
      "prod_ok x pp' q' (if pp = P_Inc then snt @ [x] else snt) rel"
      "length (queue_store q') = length (queue_store q)"
    by (rule prod_step_inv [OF less.prems(1,2)])
  have stage: "pstage pp' = (if pp = P_Inc then 0 else Suc (pstage pp))"
    using pstage_step [OF st(1) less.prems(3)] .
  have it: "prod_iter (6 - pstage pp) x (pp, q) = prod_iter (5 - pstage pp) x (pp', q')"
    using st(1) pstage_le [of pp] by (simp add: Suc_diff_le [of "pstage pp" 5, simplified])
  show ?case
  proof (cases "pp = P_Inc")
    case True
    then have "pp' = P_Idle" using st(1) by simp
    with True it st show ?thesis by simp
  next
    case False
    then have "pp' \<noteq> P_Idle" using stage by (cases pp') auto
    with less.hyps [of pp' q'] False stage st pstage_le [of pp] it show ?thesis by simp
  qed
qed

lemma cons_iter_inv:
  assumes "ring_inv q wa (cp = C_Dec) snt rel" "cons_ok cp q snt rel" "cp \<noteq> C_Idle"
    and "has_read cp \<Longrightarrow> v = Some (snt ! rel)"
  shows "\<exists>q'. cons_iter (7 - cstage cp) dbg (cp, q, v) = Inr (C_Idle, q', Some (snt ! rel)) \<and>
           ring_inv q' wa False snt (Suc rel) \<and> queue_store q' = queue_store q"
  using assms
proof (induction "7 - cstage cp" arbitrary: cp q v rule: less_induct)
  case less
  obtain cp' q' r where st: "cons_step dbg (cp, q) = Inr (cp', q', r)"
      "ring_inv q' wa (cp' = C_Dec) snt (if cp = C_Dec then Suc rel else rel)"
      "cons_ok cp' q' snt (if cp = C_Dec then Suc rel else rel)"
      "queue_store q' = queue_store q"
      "r = (case cp of C_Read _ \<Rightarrow> Some (snt ! rel) | _ \<Rightarrow> None)"
    by (rule cons_step_inv [OF less.prems(1,2), of dbg])
  have stage: "cstage cp' = (if cp = C_Dec then 0 else Suc (cstage cp))"
    using cstage_step [OF st(1) less.prems(3)] .
  have it: "cons_iter (7 - cstage cp) dbg (cp, q, v) =
      cons_iter (6 - cstage cp) dbg (cp', q', if r = None then v else r)"
    using st(1) cstage_le [of cp] by (simp add: Suc_diff_le [of "cstage cp" 6, simplified])
  show ?case
  proof (cases "cp = C_Dec")
    case True
    then have "cp' = C_Idle" using st(1) by simp
    with True it st less.prems(4) show ?thesis by simp
  next
    case False
    then have ne: "cp' \<noteq> C_Idle" using stage by (cases cp') auto
    have "has_read cp' \<Longrightarrow> (if r = None then v else r) = Some (snt ! rel)"
      using less.prems(3,4) stage st(5) False by (cases cp; cases cp') auto
    with less.hyps [of cp' q' "if r = None then v else r"] False ne stage st cstage_le [of cp] it
    show ?thesis by simp
  qed
qed

text \<open>Pushing and popping on the methods of the class.\<close>

lemma try_push_room:
  assumes inv: "ring_inv q False ra snt rel" and room: "length snt < rel + length (queue_store q)"
  shows "\<exists>q'. try_push x q = Inr (True, q') \<and> ring_inv q' False ra (snt @ [x]) rel \<and>
           length (queue_store q') = length (queue_store q)"
proof -
  have nf: "num_elements q \<noteq> store_size q" using full_iff [OF inv] room by simp
  have "\<exists>q'. prod_iter 5 x (P_Slot, q) = Inr (P_Idle, q') \<and> ring_inv q' False ra (snt @ [x]) rel \<and>
      length (queue_store q') = length (queue_store q)"
    using prod_iter_inv [of q P_Slot ra snt rel x] inv room by simp
  then obtain q' where q': "prod_iter 6 x (P_Idle, q) = Inr (P_Idle, q')"
      "ring_inv q' False ra (snt @ [x]) rel" "length (queue_store q') = length (queue_store q)"
    using nf by (auto simp: numeral_eq_Suc)
  then show ?thesis
    using try_push_steps [OF nf, of x]
    by (cases "try_push x q")
      (auto simp: try_push_def getNextToWriteTo_def nf obind_def split: sum.splits)
qed

lemma try_pop_item:
  assumes inv: "ring_inv q wa False snt rel" and ne: "rel < length snt"
  shows "\<exists>q'. try_pop dbg q = Inr (Some (snt ! rel), q') \<and> ring_inv q' wa False snt (Suc rel) \<and>
           queue_store q' = queue_store q"
proof -
  have nz: "num_elements q \<noteq> 0" using empty_iff [OF inv] ne by simp
  have "\<exists>q'. cons_iter 6 dbg (C_Slot, q, None) = Inr (C_Idle, q', Some (snt ! rel)) \<and>
      ring_inv q' wa False snt (Suc rel) \<and> queue_store q' = queue_store q"
    using cons_iter_inv [of q wa C_Slot snt rel None dbg] inv ne by simp
  then obtain q' where q': "cons_iter 7 dbg (C_Idle, q, None) = Inr (C_Idle, q', Some (snt ! rel))"
      "ring_inv q' wa False snt (Suc rel)" "queue_store q' = queue_store q"
    using nz by (auto simp: numeral_eq_Suc)
  then show ?thesis
    using try_pop_steps [OF nz, of dbg] by (cases "try_pop dbg q") (auto simp: obind_def)
qed

interpretation lfq: bounded_fifo queue_inv contents "\<lambda>q. length (queue_store q)" try_push "try_pop dbg"
proof (unfold_locales, goal_cases)
  case (1 q)
  then show ?case by (simp add: queue_inv_def Let_def length_contents)
next
  case (2 q x)
  then have "num_elements q = store_size q"
    by (simp add: word_unat_eq_iff length_contents store_size_def queue_inv_def Let_def unat_of_nat_size)
  then show ?case by (simp add: try_push_def getNextToWriteTo_def)
next
  case (3 q x)
  obtain snt rel where r: "ring_inv q False False snt rel" "contents q = drop rel snt"
    using 3(1) by (rule queue_inv_ring)
  with 3(2) ring_invD(3) [OF r(1)] have "length snt < rel + length (queue_store q)" by simp
  then obtain q' where q': "try_push x q = Inr (True, q')" "ring_inv q' False False (snt @ [x]) rel"
      "length (queue_store q') = length (queue_store q)"
    using try_push_room [OF r(1)] by blast
  with ring_inv_contents [OF q'(2)] ring_invD(3) [OF r(1)] r(2) show ?case by simp
next
  case (4 q)
  then have "num_elements q = 0" by (simp add: word_unat_eq_iff flip: length_contents)
  then show ?case by (simp add: try_pop_def getNextToRead_def)
next
  case (5 q x xs)
  obtain snt rel where r: "ring_inv q False False snt rel" "contents q = drop rel snt"
    using 5(1) by (rule queue_inv_ring)
  with 5(2) have d: "drop rel snt = x # xs" by simp
  then have lt: "rel < length snt" by (metis drop_all list.distinct(1) not_le)
  then obtain q' where q': "try_pop dbg q = Inr (Some (snt ! rel), q')"
      "ring_inv q' False False snt (Suc rel)" "queue_store q' = queue_store q"
    using try_pop_item [OF r(1), of dbg] by blast
  have "snt ! rel = x" "drop (Suc rel) snt = xs"
    using d lt by (simp_all add: Cons_nth_drop_Suc [symmetric])
  with q' ring_inv_contents [OF q'(2)] show ?case by simp
qed

section \<open>Properties of the queue\<close>

lemma spsc_reachable_can_finish:
  assumes "0 < n" "reachable (spsc_init dbg dflt n items) (spsc_step dbg) s"
  shows "\<exists>t. (spsc_step dbg)\<^sup>*\<^sup>* s t \<and> spsc_final items t"
  using spsc.reachable_can_finish [of n dbg dflt items s] assms by (simp add: reachable_def)

lemma spsc_sample_run:
  "\<exists>s. reachable (spsc_init True 0 2 [1, 2, 3 :: nat]) (spsc_step True) s \<and> got s = [1, 2, 3]"
proof -
  obtain s where i: "spsc_init True 0 2 [1, 2, 3 :: nat] s"
    by (auto simp: spsc_init_def LFQueue_def)
  then have "reachable (spsc_init True 0 2 [1, 2, 3 :: nat]) (spsc_step True) s" by blast
  then show ?thesis
    using spsc_reachable_can_finish [of 2 True 0 "[1, 2, 3 :: nat]" s]
    by (auto simp: spsc_final_def dest: reachable_steps)
qed

text \<open>
  Property C4. FIFO delivery under every interleaving of the two threads' atomic steps: at
  every moment the consumer has read a prefix of what was published, what was published
  is a prefix of what the producer pushes, in order, and no more than the capacity is
  waiting. Nothing is lost, duplicated, reordered or read before it is published.
\<close>

theorem spsc_fifo:
  assumes "0 < n" "reachable (spsc_init dbg dflt n items) (spsc_step dbg) s"
  shows "got s = take (length (got s)) (sent s) \<and> sent s @ todo s = items \<and>
         released s \<le> length (got s) \<and> length (got s) \<le> length (sent s) \<and>
         length (sent s) - released s \<le> length (queue_store (sq s))"
proof -
  have inv: "spsc_inv items s" using assms by (rule spsc_reachable_inv)
  then have ring: "ring_inv (sq s) (ppc s = P_Inc) (cpc s = C_Dec) (sent s) (released s)"
    and c: "cons_ok (cpc s) (sq s) (sent s) (released s)" by (simp_all add: spsc_inv_def)
  have g: "got s = take (released s + of_bool (has_read (cpc s))) (sent s)" "sent s @ todo s = items"
    using inv by (simp_all add: spsc_inv_def)
  have le: "released s + of_bool (has_read (cpc s)) \<le> length (sent s)"
    using c ring_invD(3) [OF ring] by (cases "cpc s") auto
  with g ring_invD(4) [OF ring] show ?thesis by (auto simp: min_def)
qed

theorem spsc_fifo_witness:
  "\<exists>s :: nat spsc. reachable (spsc_init True 0 2 [1, 2, 3]) (spsc_step True) s \<and>
     got s = [1, 2, 3] \<and> sent s @ todo s = [1, 2, 3] \<and> length (got s) \<le> length (sent s)"
proof -
  obtain s where s: "reachable (spsc_init True 0 2 [1, 2, 3 :: nat]) (spsc_step True) s" "got s = [1, 2, 3]"
    using spsc_sample_run by blast
  have "0 < (2 :: size_t)" by simp
  from spsc_fifo [OF this s(1)] s show ?thesis by blast
qed

text \<open>
  Property C10. Data-race freedom and memory safety: in no reachable state do the producer and
  the consumer stand at accesses to the same slot, and no step of either thread faults: no
  access outside the store, no failed assertion, no modulus by zero, and the count never
  wraps round.
\<close>

theorem spsc_race_free:
  assumes n: "0 < n" and r: "reachable (spsc_init dbg dflt n items) (spsc_step dbg) s"
  shows "\<not> slot_race s \<and>
         (todo s \<noteq> [] \<longrightarrow> (\<exists>pp q. prod_step (hd (todo s)) (ppc s, sq s) = Inr (pp, q))) \<and>
         (\<exists>cp q v. cons_step dbg (cpc s, sq s) = Inr (cp, q, v)) \<and>
         unat (num_elements (sq s)) = length (sent s) - released s"
proof -
  have inv: "spsc_inv items s" using n r by (rule spsc_reachable_inv)
  then have ring: "ring_inv (sq s) (ppc s = P_Inc) (cpc s = C_Dec) (sent s) (released s)"
    and p: "prod_ok (hd (todo s)) (ppc s) (sq s) (sent s) (released s)"
    and c: "cons_ok (cpc s) (sq s) (sent s) (released s)" by (simp_all add: spsc_inv_def)
  have "\<not> slot_race s"
    using p c ring_slots_differ [of "released s" "length (sent s)" "length (queue_store (sq s))"]
    by (auto simp: slot_race_def)
  moreover have "\<exists>pp q. prod_step (hd (todo s)) (ppc s, sq s) = Inr (pp, q)"
    by (rule prod_step_inv [OF ring p]) blast
  moreover have "\<exists>cp q v. cons_step dbg (cpc s, sq s) = Inr (cp, q, v)"
    by (rule cons_step_inv [OF ring c, of dbg]) blast
  ultimately show ?thesis using ring_invD(5) [OF ring] by blast
qed

theorem spsc_race_free_witness:
  "\<exists>s. reachable (spsc_init True 0 2 [1, 2, 3]) (spsc_step True) s \<and> got s = [1, 2, 3 :: nat] \<and>
     \<not> slot_race s \<and> (\<exists>cp q v. cons_step True (cpc s, sq s) = Inr (cp, q, v))"
proof -
  obtain s where s: "reachable (spsc_init True 0 2 [1, 2, 3 :: nat]) (spsc_step True) s" "got s = [1, 2, 3]"
    using spsc_sample_run by blast
  have "0 < (2 :: size_t)" by simp
  from spsc_race_free [OF this s(1)] s show ?thesis by blast
qed

text \<open>
  Property C18. No deadlock and no dead end: from every reachable state, whatever the
  interleaving so far, the two threads can go on to a state where every item has been
  delivered to the consumer in order.
\<close>

theorem spsc_delivers_all:
  assumes "0 < n" "reachable (spsc_init dbg dflt n items) (spsc_step dbg) s"
  shows "\<exists>t. (spsc_step dbg)\<^sup>*\<^sup>* s t \<and> got t = items \<and> todo t = []"
  using spsc_reachable_can_finish [OF assms] by (auto simp: spsc_final_def)

lemma replicate_2: "replicate 2 x = [x, x]"
  by (simp add: numeral_2_eq_2)

definition spsc_sample :: "nat spsc" where
  "spsc_sample = \<lparr>sq = \<lparr>queue_store = [0, 0], next_write_index = 0, next_read_index = 0, num_elements = 0\<rparr>,
    ppc = P_Idle, cpc = C_Idle, todo = [5, 6, 7], sent = [], released = 0, got = []\<rparr>"

theorem spsc_delivers_all_witness:
  "todo spsc_sample = [5, 6, 7] \<and>
   (\<exists>t. (spsc_step True)\<^sup>*\<^sup>* spsc_sample t \<and> got t = [5, 6, 7] \<and> todo t = [])"
proof -
  have "spsc_init True 0 2 [5, 6, 7] spsc_sample"
    by (simp add: spsc_init_def LFQueue_def replicate_2 spsc_sample_def)
  then have r: "reachable (spsc_init True 0 2 [5, 6, 7]) (spsc_step True) spsc_sample" by blast
  have "0 < (2 :: size_t)" by simp
  from spsc_delivers_all [OF this r] show ?thesis by (simp add: spsc_sample_def)
qed

text \<open>
  Property C17. Used by one thread at a time, the class refines a bounded FIFO list: any
  sequence of pushes and pops on a new queue gives, call by call, the results of the same
  sequence on a list of at most \<open>num_elems\<close> items, in which a push succeeds exactly if there
  is room and a pop returns the oldest item exactly if there is one; no call faults, and the
  queue ends up holding what the list holds.
\<close>

theorem lfqueue_refines_fifo:
  assumes "0 < n"
  shows "\<exists>q q' results. LFQueue dbg dflt n = Inr q \<and>
           fifo_run try_push (try_pop dbg) ops q = Inr (results, q') \<and>
           bounded_list_run (unat n) ops [] = (results, contents q') \<and> length (contents q') \<le> unat n"
proof -
  obtain q where q: "LFQueue dbg dflt n = Inr q" "queue_inv q" "contents q = []"
      "length (queue_store q) = unat n"
    using queue_inv_new [OF assms, of dbg dflt] by blast
  obtain q' where r: "fifo_run try_push (try_pop dbg) ops q = Inr (fst (bounded_list_run (unat n) ops []), q')"
    "queue_inv q'" "length (queue_store q') = unat n" "contents q' = snd (bounded_list_run (unat n) ops [])"
    using lfq.run_refines [OF q(2), of dbg ops] q(3,4) by auto
  have "length (contents q') \<le> length (queue_store q')" using r(2) by (rule lfq.bounded)
  with q r show ?thesis by (auto simp: prod_eq_iff)
qed

theorem lfqueue_refines_fifo_witness:
  "\<exists>q q'. LFQueue True 0 2 = Inr q \<and>
     fifo_run try_push (try_pop True) [Push 1, Push 2, Push 3, Pop, Push 4, Pop, Pop, Pop, Push (5 :: nat)] q =
       Inr ([Pushed True, Pushed True, Pushed False, Popped (Some 1), Pushed True, Popped (Some 2),
             Popped (Some 4), Popped None, Pushed True], q') \<and>
     contents q' = [5]"
  using lfqueue_refines_fifo
    [of 2 True 0 "[Push 1, Push 2, Push 3, Pop, Push 4, Pop, Pop, Pop, Push (5 :: nat)]"]
  by auto

text \<open>
  Releasing from an empty queue. A Debug build stops at the assertion. In a
  Release build the count wraps to the largest \<open>std::size_t\<close>, after which \<open>getNextToRead\<close>
  hands out a slot that was never published.
\<close>

lemma updateReadIndex_on_empty:
  assumes "queue_inv q" "contents q = []"
  shows "updateReadIndex True q = Inl (AssertFailed ''num_elements_ != 0'') \<and>
         (\<exists>q'. updateReadIndex False q = Inr q' \<and> queue_size q' = - 1 \<and> getNextToRead q' \<noteq> None)"
proof -
  have "num_elements q = 0"
    using length_contents [of q] assms(2) by (simp add: word_unat_eq_iff)
  moreover have "store_size q \<noteq> 0"
    using assms(1) store_size_facts(1) by (blast elim: queue_inv_ring)
  ultimately show ?thesis by (simp add: updateReadIndex_def queue_size_def getNextToRead_def)
qed

end
