(* ===== verification/Time_Utils.thy ===== *)
theory Time_Utils
  imports Prelude
begin

text \<open>
  The time utilities of \<open>include/time_utils.hpp\<close>. \<open>Nanos\<close> is a signed 64-bit integer, whose
  overflow is undefined behaviour, so it is an \<open>int\<close> and results outside the range are
  faults. The clocks and \<open>localtime_r\<close> belong to the platform: the periods of the two clocks
  (as fractions of a second), what each of them shows at a moment, and the broken-down local
  time are parameters.
  \<open>strftime\<close> is modelled for the format the code passes, with its buffer limit.
\<close>

type_synonym Nanos = int

definition NANOS_TO_MICROS :: Nanos where "NANOS_TO_MICROS = 1000"
definition MICROS_TO_MILLIS :: Nanos where "MICROS_TO_MILLIS = 1000"
definition MILLIS_TO_SECS :: Nanos where "MILLIS_TO_SECS = 1000"
definition NANOS_TO_MILLIS :: Nanos where "NANOS_TO_MILLIS = NANOS_TO_MICROS * MICROS_TO_MILLIS"
definition NANOS_TO_SECS :: Nanos where "NANOS_TO_SECS = NANOS_TO_MILLIS * MILLIS_TO_SECS"

lemmas time_constants = NANOS_TO_MICROS_def MICROS_TO_MILLIS_def MILLIS_TO_SECS_def
  NANOS_TO_MILLIS_def NANOS_TO_SECS_def

definition int64_range :: "int \<Rightarrow> bool" where
  "int64_range i \<longleftrightarrow> - 9223372036854775808 \<le> i \<and> i \<le> 9223372036854775807"

text \<open>Signed 64-bit arithmetic: a result outside the range is undefined behaviour.\<close>

definition int64 :: "int \<Rightarrow> int outcome" where
  "int64 i = (if int64_range i then Inr i else Inl (UndefinedBehaviour ''signed overflow''))"

section \<open>Clocks\<close>

text \<open>The two clocks of \<open>std::chrono\<close> the code reads: the period of each (numerator and
  denominator, in seconds), and its ticks since its epoch at one moment. Nothing ties the one
  to the other; the system clock can be set back.\<close>

record clock_periods =
  system_period :: "int \<times> int"
  steady_period :: "int \<times> int"

record moment =
  system_clock_now :: int
  steady_clock_now :: int

text \<open>
  \<open>duration_cast\<close> from a duration of period \<open>num/den\<close> to nanoseconds: the tick count times the
  numerator of the ratio of the periods in lowest terms, divided by its denominator and
  rounded towards zero, in 64-bit arithmetic.
\<close>

definition trunc_div :: "int \<Rightarrow> int \<Rightarrow> int" where
  "trunc_div a b = sgn a * sgn b * (\<bar>a\<bar> div \<bar>b\<bar>)"

definition cast_num :: "int \<times> int \<Rightarrow> int" where
  "cast_num p = fst p * NANOS_TO_SECS div gcd (fst p * NANOS_TO_SECS) (snd p)"

definition cast_den :: "int \<times> int \<Rightarrow> int" where
  "cast_den p = snd p div gcd (fst p * NANOS_TO_SECS) (snd p)"

definition duration_cast_nanos :: "int \<times> int \<Rightarrow> int \<Rightarrow> Nanos outcome" where
  "duration_cast_nanos p ticks =
     obind (int64 (ticks * cast_num p)) (\<lambda>scaled. int64 (trunc_div scaled (cast_den p)))"

definition getCurrentNanos :: "clock_periods \<Rightarrow> moment \<Rightarrow> Nanos outcome" where
  "getCurrentNanos c m = duration_cast_nanos (system_period c) (system_clock_now m)"

definition getSteadyNanos :: "clock_periods \<Rightarrow> moment \<Rightarrow> Nanos outcome" where
  "getSteadyNanos c m = duration_cast_nanos (steady_period c) (steady_clock_now m)"

section \<open>Local time as text\<close>

record tm =
  tm_year :: int
  tm_mon :: nat
  tm_mday :: nat
  tm_hour :: nat
  tm_min :: nat
  tm_sec :: nat

text \<open>\<open>strftime\<close> with \<open>"%Y-%m-%d %H:%M:%S"\<close>: the characters it would write.\<close>

definition strftime_text :: "tm \<Rightarrow> string" where
  "strftime_text t =
     show_int (tm_year t + 1900) @ ''-'' @ pad2 (tm_mon t + 1) @ ''-'' @ pad2 (tm_mday t) @ '' '' @
     pad2 (tm_hour t) @ '':'' @ pad2 (tm_min t) @ '':'' @ pad2 (tm_sec t)"

text \<open>It writes nothing and returns 0 when the text and its terminating null do not fit.\<close>

definition strftime :: "nat \<Rightarrow> tm \<Rightarrow> string" where
  "strftime max_size t = (if length (strftime_text t) + 1 \<le> max_size then strftime_text t else '''')"

definition getCurrentTimeStr :: "tm option \<Rightarrow> string" where
  "getCurrentTimeStr local_time =
     (case local_time of
        None \<Rightarrow> ''''
      | Some t \<Rightarrow>
          let buffer = strftime 20 t; characters_written = length buffer
          in if characters_written = 0 then '''' else take characters_written buffer)"

section \<open>Properties\<close>

lemma trunc_div_mono:
  assumes "a \<le> b" "0 < d"
  shows "trunc_div a d \<le> trunc_div b d"
proof (cases "0 \<le> a")
  case True
  with assms show ?thesis by (auto simp: trunc_div_def sgn_if zdiv_mono1 pos_imp_zdiv_nonneg_iff)
next
  case False
  then have n: "trunc_div a d = - ((- a) div d)" using assms by (simp add: trunc_div_def)
  show ?thesis
  proof (cases "0 \<le> b")
    case True
    then have "0 \<le> trunc_div b d" using assms by (auto simp: trunc_div_def sgn_if pos_imp_zdiv_nonneg_iff)
    moreover have "0 \<le> (- a) div d" using False assms by (simp add: pos_imp_zdiv_nonneg_iff)
    ultimately show ?thesis using n by simp
  next
    case nb: False
    then have "trunc_div b d = - ((- b) div d)" using assms by (simp add: trunc_div_def)
    moreover have "(- b) div d \<le> (- a) div d" using assms by (simp add: zdiv_mono1)
    ultimately show ?thesis using n by simp
  qed
qed

lemma trunc_div_cases:
  assumes "0 < (d :: int)"
  shows "0 \<le> a \<Longrightarrow> trunc_div a d = a div d" "a \<le> 0 \<Longrightarrow> trunc_div a d = - ((- a) div d)"
  using assms by (auto simp: trunc_div_def sgn_if)

lemma div_error: "0 < (d :: int) \<Longrightarrow> \<bar>a - a div d * d\<bar> < d"
  by (simp add: minus_div_mult_eq_mod)

lemma trunc_div_error: "0 < d \<Longrightarrow> \<bar>a - trunc_div a d * d\<bar> < d"
  using div_error [of d a] div_error [of d "- a"]
  by (cases "0 \<le> a") (simp_all add: trunc_div_cases abs_minus_commute add.commute)

lemma div_le_self: "0 < (d :: int) \<Longrightarrow> 0 \<le> a \<Longrightarrow> 0 \<le> a div d \<and> a div d \<le> a"
  using zdiv_mono2 [of a 1 d] by (simp add: pos_imp_zdiv_nonneg_iff)

lemma trunc_div_range: "0 < d \<Longrightarrow> int64_range a \<Longrightarrow> int64_range (trunc_div a d)"
  using div_le_self [of d a] div_le_self [of d "- a"]
  by (cases "0 \<le> a") (auto simp: int64_range_def trunc_div_cases)

lemma cast_ratio:
  assumes "0 < fst p" "0 < snd p"
  shows "0 < cast_num p" "0 < cast_den p" "cast_num p * snd p = cast_den p * (fst p * NANOS_TO_SECS)"
  using assms
  by (auto simp: cast_num_def cast_den_def pos_imp_zdiv_pos_iff time_constants zdvd_imp_le
      div_mult_swap dvd_div_mult mult.commute)

text \<open>A cast succeeds exactly if the scaled tick count is in range.\<close>

lemma duration_cast_result:
  assumes "0 < fst p" "0 < snd p"
  shows "duration_cast_nanos p ticks =
    (if int64_range (ticks * cast_num p) then Inr (trunc_div (ticks * cast_num p) (cast_den p))
     else Inl (UndefinedBehaviour ''signed overflow''))"
  using trunc_div_range [OF cast_ratio(2) [OF assms]] by (simp add: duration_cast_nanos_def int64_def)

text \<open>Its error, and the error of a difference of two casts.\<close>

lemma duration_cast_error:
  assumes p: "0 < fst p" "0 < snd p" and r: "int64_range (t * cast_num p)"
  shows "\<exists>a. duration_cast_nanos p t = Inr a \<and> \<bar>a * snd p - t * (fst p * NANOS_TO_SECS)\<bar> < snd p"
proof -
  let ?n = "cast_num p" and ?d = "cast_den p" and ?N = "fst p * NANOS_TO_SECS"
  define a where "a = trunc_div (t * ?n) ?d"
  note pos = cast_ratio [OF p]
  have "\<bar>a * ?d - t * ?n\<bar> < ?d"
    using trunc_div_error [OF pos(2), of "t * ?n"] by (simp add: a_def abs_minus_commute)
  then have "\<bar>a * ?d - t * ?n\<bar> * snd p < ?d * snd p" using p by simp
  moreover have "\<bar>a * ?d - t * ?n\<bar> * snd p = \<bar>(a * ?d - t * ?n) * snd p\<bar>" using p by (simp add: abs_mult)
  moreover have "(a * ?d - t * ?n) * snd p = ?d * (a * snd p - t * ?N)"
    using pos(3) by (simp add: algebra_simps)
  ultimately have "?d * \<bar>a * snd p - t * ?N\<bar> < ?d * snd p" using pos(2) by (simp add: abs_mult)
  then have "\<bar>a * snd p - t * ?N\<bar> < snd p" using pos(2) by (simp only: mult_less_cancel_left_pos)
  with r show ?thesis using duration_cast_result [OF p] by (simp add: a_def)
qed

lemma duration_cast_elapsed:
  assumes p: "0 < fst p" "0 < snd p" and le: "t \<le> u"
    and r: "int64_range (t * cast_num p)" "int64_range (u * cast_num p)"
  obtains a b where "duration_cast_nanos p t = Inr a" "duration_cast_nanos p u = Inr b"
    "a \<le> b" "\<bar>(b - a) * snd p - (u - t) * (fst p * NANOS_TO_SECS)\<bar> < 2 * snd p"
    "0 \<le> t \<Longrightarrow> 0 \<le> a"
proof -
  obtain a b where a: "duration_cast_nanos p t = Inr a" "\<bar>a * snd p - t * (fst p * NANOS_TO_SECS)\<bar> < snd p"
    and b: "duration_cast_nanos p u = Inr b" "\<bar>b * snd p - u * (fst p * NANOS_TO_SECS)\<bar> < snd p"
    using duration_cast_error [OF p r(1)] duration_cast_error [OF p r(2)] by blast
  have v: "a = trunc_div (t * cast_num p) (cast_den p)" "b = trunc_div (u * cast_num p) (cast_den p)"
    using a(1) b(1) r by (simp_all add: duration_cast_result [OF p])
  have "\<bar>(b - a) * snd p - (u - t) * (fst p * NANOS_TO_SECS)\<bar> < 2 * snd p"
    unfolding left_diff_distrib using a(2) b(2) by linarith
  moreover have "a \<le> b" unfolding v
    using cast_ratio [OF p] le by (intro trunc_div_mono mult_right_mono) simp_all
  moreover have "0 \<le> t \<Longrightarrow> 0 \<le> a" unfolding v
    using cast_ratio [OF p] div_le_self [of "cast_den p" "t * cast_num p"] by (simp add: trunc_div_cases)
  ultimately show ?thesis using that a(1) b(1) by blast
qed



definition tm_valid :: "tm \<Rightarrow> bool" where
  "tm_valid t \<longleftrightarrow> tm_mon t \<le> 11 \<and> tm_mday t \<le> 31 \<and> tm_hour t \<le> 23 \<and> tm_min t \<le> 59 \<and> tm_sec t \<le> 60"

lemma strftime_text_4:
  assumes "tm_valid t" "1000 \<le> tm_year t + 1900" "tm_year t + 1900 \<le> 9999"
  obtains y where "tm_year t + 1900 = int y" "length (show_nat y) = 4"
    "strftime_text t = show_nat y @ ''-'' @ pad2 (tm_mon t + 1) @ ''-'' @ pad2 (tm_mday t) @ '' '' @
       pad2 (tm_hour t) @ '':'' @ pad2 (tm_min t) @ '':'' @ pad2 (tm_sec t)"
proof -
  obtain y where y: "tm_year t + 1900 = int y" using assms(2) by (metis nonneg_int_cases order_trans zero_le_numeral)
  then have "length (show_nat y) = 4" using assms by (intro length_show_nat_4) linarith+
  with y that [of y] show ?thesis by (simp add: strftime_text_def show_int_def)
qed

text \<open>
  Property C32. The text of a valid local time with a four-digit year is exactly 19
  characters with the separators in place, and every field can be read back from its
  position; a year past 9999 does not fit the buffer and gives the empty string.
\<close>

theorem getCurrentTimeStr_roundtrip:
  assumes "tm_valid t"
  shows "(1000 \<le> tm_year t + 1900 \<and> tm_year t + 1900 \<le> 9999 \<longrightarrow>
            (let s = getCurrentTimeStr (Some t) in
               length s = 19 \<and> s ! 4 = CHR ''-'' \<and> s ! 7 = CHR ''-'' \<and> s ! 10 = CHR '' '' \<and>
               s ! 13 = CHR '':'' \<and> s ! 16 = CHR '':'' \<and>
               int (decimal_value (take 4 s)) = tm_year t + 1900 \<and>
               decimal_value (take 2 (drop 5 s)) = tm_mon t + 1 \<and>
               decimal_value (take 2 (drop 8 s)) = tm_mday t \<and>
               decimal_value (take 2 (drop 11 s)) = tm_hour t \<and>
               decimal_value (take 2 (drop 14 s)) = tm_min t \<and>
               decimal_value (take 2 (drop 17 s)) = tm_sec t)) \<and>
         (9999 < tm_year t + 1900 \<longrightarrow> getCurrentTimeStr (Some t) = '''')"
proof (intro conjI impI)
  assume y4: "1000 \<le> tm_year t + 1900 \<and> tm_year t + 1900 \<le> 9999"
  obtain y where y: "tm_year t + 1900 = int y" "length (show_nat y) = 4"
    "strftime_text t = show_nat y @ ''-'' @ pad2 (tm_mon t + 1) @ ''-'' @ pad2 (tm_mday t) @ '' '' @
       pad2 (tm_hour t) @ '':'' @ pad2 (tm_min t) @ '':'' @ pad2 (tm_sec t)"
    using strftime_text_4 [OF assms] y4 by blast
  have p: "length (pad2 (tm_mon t + 1)) = 2" "length (pad2 (tm_mday t)) = 2"
    "length (pad2 (tm_hour t)) = 2" "length (pad2 (tm_min t)) = 2" "length (pad2 (tm_sec t)) = 2"
    using assms by (simp_all add: tm_valid_def length_pad2)
  have s: "getCurrentTimeStr (Some t) = strftime_text t"
    using y p by (simp add: getCurrentTimeStr_def strftime_def)
  show "let s = getCurrentTimeStr (Some t) in
      length s = 19 \<and> s ! 4 = CHR ''-'' \<and> s ! 7 = CHR ''-'' \<and> s ! 10 = CHR '' '' \<and>
      s ! 13 = CHR '':'' \<and> s ! 16 = CHR '':'' \<and>
      int (decimal_value (take 4 s)) = tm_year t + 1900 \<and>
      decimal_value (take 2 (drop 5 s)) = tm_mon t + 1 \<and>
      decimal_value (take 2 (drop 8 s)) = tm_mday t \<and>
      decimal_value (take 2 (drop 11 s)) = tm_hour t \<and>
      decimal_value (take 2 (drop 14 s)) = tm_min t \<and>
      decimal_value (take 2 (drop 17 s)) = tm_sec t"
    unfolding Let_def s y(3)
    using y(1,2) p by (simp add: nth_append decimal_value_show_nat decimal_value_pad2)
next
  assume y5: "9999 < tm_year t + 1900"
  then have "5 \<le> length (show_nat (nat (tm_year t + 1900)))"
    by (intro length_show_nat_ge_5) linarith
  then have "\<not> length (strftime_text t) + 1 \<le> 20"
    using assms y5 by (simp add: strftime_text_def show_int_def length_pad2 tm_valid_def)
  then show "getCurrentTimeStr (Some t) = ''''"
    by (simp add: getCurrentTimeStr_def strftime_def)
qed

theorem getCurrentTimeStr_roundtrip_witness:
  "length (getCurrentTimeStr (Some \<lparr>tm_year = 125, tm_mon = 10, tm_mday = 16,
      tm_hour = 6, tm_min = 14, tm_sec = 59\<rparr>)) = 19"
  using getCurrentTimeStr_roundtrip [of "\<lparr>tm_year = 125, tm_mon = 10, tm_mday = 16,
      tm_hour = 6, tm_min = 14, tm_sec = 59\<rparr>"]
  by (simp add: tm_valid_def Let_def)

end
