(* ===== verification/Thread_Utils.thy ===== *)
theory Thread_Utils
  imports Prelude
begin

text \<open>
  The thread utilities of \<open>include/thread_utils.hpp\<close>. \<open>pthread_setaffinity_np\<close> is a
  parameter \<open>setaffinity\<close> (the set of CPUs to its return value), and so is whether the
  system can create the thread at all.

  \<open>createAndStartThread\<close> is a machine of two threads that share the flags \<open>running\<close> and
  \<open>failed\<close>. These are local variables of the caller, captured by reference: once the caller
  has returned or thrown, an access to them by the new thread would be undefined behaviour
  (\<open>dangling\<close>).
\<close>

section \<open>Pinning\<close>

definition CPU_SETSIZE :: int where "CPU_SETSIZE = 1024"

type_synonym affinity = "nat set \<Rightarrow> int"

definition setThreadCore :: "affinity \<Rightarrow> int \<Rightarrow> bool" where
  "setThreadCore setaffinity core_id =
     (if core_id < 0 \<or> core_id \<ge> CPU_SETSIZE then False
      else let cpu_set = insert (nat core_id) {} in setaffinity cpu_set = 0)"

section \<open>Starting a thread\<close>

text \<open>The caller: the constructor of \<open>std::thread\<close>, the two loads of the waiting loop, the
  load that decides, the join of a failed thread, and the two ways out (the
  \<open>std::runtime_error\<close> of the code, and the \<open>std::system_error\<close> of the constructor).\<close>

datatype start_error = SystemError | FailedToStartThread

datatype caller_pc = K_Spawn | K_LoadRunning | K_LoadFailed | K_Decide | K_Join
  | K_Threw start_error | K_Returned

text \<open>The new thread: the pinning step, the two stores, the task, the end.\<close>

datatype child_pc = T_None | T_Pin | T_StoreFailed | T_StoreRunning | T_Invoke | T_Done

record start_state =
  kpc :: caller_pc
  tpc :: child_pc
  running :: bool
  failed :: bool
  invoked :: nat
  cerr :: string

definition caller_step :: "bool \<Rightarrow> start_state \<Rightarrow> start_state option" where
  "caller_step spawn_ok s =
     (case kpc s of
        K_Spawn \<Rightarrow>
          if spawn_ok then Some (s\<lparr>kpc := K_LoadRunning, tpc := T_Pin\<rparr>)
          else Some (s\<lparr>kpc := K_Threw SystemError\<rparr>)
      | K_LoadRunning \<Rightarrow> Some (s\<lparr>kpc := (if \<not> running s then K_LoadFailed else K_Decide)\<rparr>)
      | K_LoadFailed \<Rightarrow> Some (s\<lparr>kpc := (if \<not> failed s then K_LoadRunning else K_Decide)\<rparr>)
      | K_Decide \<Rightarrow> Some (s\<lparr>kpc := (if failed s then K_Join else K_Returned)\<rparr>)
      | K_Join \<Rightarrow> if tpc s = T_Done then Some (s\<lparr>kpc := K_Threw FailedToStartThread\<rparr>) else None
      | K_Threw _ \<Rightarrow> None
      | K_Returned \<Rightarrow> None)"

definition child_step :: "affinity \<Rightarrow> int \<Rightarrow> start_state \<Rightarrow> start_state option" where
  "child_step setaffinity core_id s =
     (case tpc s of
        T_None \<Rightarrow> None
      | T_Pin \<Rightarrow>
          if core_id \<ge> 0 \<and> \<not> setThreadCore setaffinity core_id
          then Some (s\<lparr>cerr := cerr s @ ''Failed to set thread affinity to CPU '' @ show_int core_id @ [CHR 0x0A],
                      tpc := T_StoreFailed\<rparr>)
          else Some (s\<lparr>tpc := T_StoreRunning\<rparr>)
      | T_StoreFailed \<Rightarrow> Some (s\<lparr>failed := True, tpc := T_Done\<rparr>)
      | T_StoreRunning \<Rightarrow> Some (s\<lparr>running := True, tpc := T_Invoke\<rparr>)
      | T_Invoke \<Rightarrow> Some (s\<lparr>invoked := Suc (invoked s), tpc := T_Done\<rparr>)
      | T_Done \<Rightarrow> None)"

definition start_init :: "start_state \<Rightarrow> bool" where
  "start_init s \<longleftrightarrow> s = \<lparr>kpc = K_Spawn, tpc = T_None, running = False, failed = False, invoked = 0, cerr = []\<rparr>"

inductive start_step :: "affinity \<Rightarrow> bool \<Rightarrow> int \<Rightarrow> start_state \<Rightarrow> start_state \<Rightarrow> bool"
  for setaffinity spawn_ok core_id where
  caller: "caller_step spawn_ok s = Some t \<Longrightarrow> start_step setaffinity spawn_ok core_id s t"
| child: "child_step setaffinity core_id s = Some t \<Longrightarrow> start_step setaffinity spawn_ok core_id s t"

inductive_cases start_stepE: "start_step setaffinity spawn_ok core_id s t"

definition frame_gone :: "start_state \<Rightarrow> bool" where
  "frame_gone s \<longleftrightarrow> (case kpc s of K_Threw _ \<Rightarrow> True | K_Returned \<Rightarrow> True | _ \<Rightarrow> False)"

definition dangling :: "start_state \<Rightarrow> bool" where
  "dangling s \<longleftrightarrow> frame_gone s \<and> (tpc s = T_StoreFailed \<or> tpc s = T_StoreRunning \<or> tpc s = T_Pin)"

text \<open>Whether the set-up of the thread succeeds: no pinning asked for, or the pinning worked.\<close>

definition setup_ok :: "affinity \<Rightarrow> int \<Rightarrow> bool" where
  "setup_ok setaffinity core_id \<longleftrightarrow> core_id < 0 \<or> setThreadCore setaffinity core_id"

text \<open>
  The call seen by a client: it throws, or returns with the thread started. \<open>start_outcome\<close> below
  shows that the two threads can end in no other way.
\<close>

definition createAndStartThread :: "affinity \<Rightarrow> bool \<Rightarrow> int \<Rightarrow> start_error + unit" where
  "createAndStartThread setaffinity spawn_ok core_id =
     (if \<not> spawn_ok then Inl SystemError
      else if core_id \<ge> 0 \<and> \<not> setThreadCore setaffinity core_id then Inl FailedToStartThread
      else Inr ())"

section \<open>Invariant\<close>

text \<open>Where the two threads can stand together, given whether the thread can be created
  (\<open>sp\<close>) and set up (\<open>ok\<close>).\<close>

fun child_at :: "bool \<Rightarrow> child_pc \<Rightarrow> bool" where
  "child_at ok T_None = False"
| "child_at ok T_Pin = True"
| "child_at ok T_StoreFailed = (\<not> ok)"
| "child_at ok T_StoreRunning = ok"
| "child_at ok T_Invoke = ok"
| "child_at ok T_Done = True"

fun started :: "bool \<Rightarrow> child_pc \<Rightarrow> bool" where
  "started ok T_Invoke = ok"
| "started ok T_Done = ok"
| "started ok t = False"

fun together :: "bool \<Rightarrow> bool \<Rightarrow> caller_pc \<Rightarrow> child_pc \<Rightarrow> bool" where
  "together sp ok K_Spawn t = (t = T_None)"
| "together sp ok (K_Threw SystemError) t = (\<not> sp \<and> t = T_None)"
| "together sp ok K_LoadRunning t = (sp \<and> child_at ok t)"
| "together sp ok K_LoadFailed t = (sp \<and> child_at ok t)"
| "together sp ok K_Decide t = (sp \<and> (started ok t \<or> \<not> ok \<and> t = T_Done))"
| "together sp ok K_Join t = (sp \<and> \<not> ok \<and> t = T_Done)"
| "together sp ok (K_Threw FailedToStartThread) t = (sp \<and> \<not> ok \<and> t = T_Done)"
| "together sp ok K_Returned t = (sp \<and> started ok t)"

definition start_inv :: "affinity \<Rightarrow> bool \<Rightarrow> int \<Rightarrow> start_state \<Rightarrow> bool" where
  "start_inv setaffinity spawn_ok core_id s \<longleftrightarrow>
     (let ok = setup_ok setaffinity core_id in
        together spawn_ok ok (kpc s) (tpc s) \<and> running s = started ok (tpc s) \<and>
        failed s = (\<not> ok \<and> tpc s = T_Done) \<and> invoked s = of_bool (ok \<and> tpc s = T_Done))"

lemma start_inv_init: "start_init s \<Longrightarrow> start_inv setaffinity spawn_ok core_id s"
  by (simp add: start_init_def start_inv_def Let_def)

lemma start_inv_caller:
  assumes "start_inv setaffinity spawn_ok core_id s" "caller_step spawn_ok s = Some t"
  shows "start_inv setaffinity spawn_ok core_id t"
proof (cases "kpc s")
  case (K_Threw e)
  with assms show ?thesis by (simp add: caller_step_def)
qed (use assms in \<open>auto simp: caller_step_def start_inv_def Let_def split: if_splits elim: started.elims\<close>)

lemma together_child:
  "together sp ok k T_Pin \<Longrightarrow> k = K_LoadRunning \<and> sp \<or> k = K_LoadFailed \<and> sp"
  "together sp ok k T_StoreFailed \<Longrightarrow> (k = K_LoadRunning \<or> k = K_LoadFailed) \<and> sp \<and> \<not> ok"
  "together sp ok k T_StoreRunning \<Longrightarrow> (k = K_LoadRunning \<or> k = K_LoadFailed) \<and> sp \<and> ok"
  "together sp ok k T_Invoke \<Longrightarrow> together sp ok k T_Done \<and> ok"
  by (cases "(sp, ok, k, T_Pin)" rule: together.cases; simp)
    (cases "(sp, ok, k, T_Pin)" rule: together.cases; simp)+

lemma start_inv_child:
  assumes "start_inv setaffinity spawn_ok core_id s" "child_step setaffinity core_id s = Some t"
  shows "start_inv setaffinity spawn_ok core_id t"
  using assms
  by (cases "tpc s")
    (auto simp: child_step_def start_inv_def Let_def setup_ok_def split: if_splits dest: together_child)

text \<open>A measure for progress: how far each thread still has to go.\<close>

fun kdist :: "caller_pc \<Rightarrow> nat" where
  "kdist K_Spawn = 7"
| "kdist K_LoadFailed = 4"
| "kdist K_LoadRunning = 5"
| "kdist K_Decide = 3"
| "kdist K_Join = 2"
| "kdist (K_Threw e) = 0"
| "kdist K_Returned = 0"

fun tdist :: "child_pc \<Rightarrow> nat" where
  "tdist T_None = 4"
| "tdist T_Pin = 3"
| "tdist T_StoreFailed = 2"
| "tdist T_StoreRunning = 2"
| "tdist T_Invoke = 1"
| "tdist T_Done = 0"

definition start_final :: "start_state \<Rightarrow> bool" where
  "start_final s \<longleftrightarrow> frame_gone s \<and> (tpc s = T_Done \<or> tpc s = T_None)"

text \<open>While the new thread is not done it can move; once it is done, the caller can, and its
  loop takes at most two more loads.\<close>

definition start_rank :: "start_state \<Rightarrow> nat" where
  "start_rank s = 10 * tdist (tpc s) +
     (if failed s \<and> kpc s = K_LoadRunning then 6 else if running s \<and> kpc s = K_LoadFailed then 6
      else kdist (kpc s))"

lemma kdist_le: "kdist k \<le> 7"
  by (cases k) simp_all

lemma child_step_dist:
  assumes "child_step setaffinity core_id s = Some t"
  shows "tdist (tpc t) < tdist (tpc s)" "kpc t = kpc s"
  using assms by (auto simp: child_step_def split: child_pc.splits if_splits)

lemma start_child_progress:
  assumes "tpc s \<noteq> T_None" "tpc s \<noteq> T_Done" "kpc s \<noteq> K_Spawn"
  shows "\<exists>t. child_step setaffinity core_id s = Some t \<and> start_rank t < start_rank s"
proof -
  have "child_step setaffinity core_id s \<noteq> None"
    using assms by (cases "tpc s") (auto simp: child_step_def)
  then obtain t where t: "child_step setaffinity core_id s = Some t" by blast
  note child_step_dist [OF t]
  moreover have "kdist (kpc s) \<le> 5" using assms(3) by (cases "kpc s") auto
  ultimately have "start_rank t < start_rank s" by (auto simp: start_rank_def)
  with t show ?thesis by blast
qed

lemma start_caller_progress:
  assumes inv: "start_inv setaffinity spawn_ok core_id s" and "\<not> frame_gone s"
    and "tpc s = T_Done \<or> tpc s = T_None"
  shows "\<exists>t. caller_step spawn_ok s = Some t \<and> start_rank t < start_rank s"
  using assms
  by (cases "kpc s")
    (auto simp: caller_step_def start_inv_def Let_def start_rank_def frame_gone_def split: caller_pc.splits if_splits)

lemma start_progress:
  assumes inv: "start_inv setaffinity spawn_ok core_id s" and nf: "\<not> start_final s"
  shows "\<exists>t. start_step setaffinity spawn_ok core_id s t \<and> start_rank t < start_rank s"
proof (cases "tpc s = T_Done \<or> tpc s = T_None")
  case True
  with nf have "\<not> frame_gone s" by (simp add: start_final_def)
  with start_caller_progress [OF inv] True show ?thesis by (blast intro: start_step.caller)
next
  case False
  moreover from False inv have "kpc s \<noteq> K_Spawn" by (auto simp: start_inv_def Let_def)
  ultimately show ?thesis
    using start_child_progress [of s setaffinity core_id] by (blast intro: start_step.child)
qed

interpretation start: progress_system start_init "start_step setaffinity spawn_ok core_id"
  "start_inv setaffinity spawn_ok core_id" start_final start_rank
proof (unfold_locales, goal_cases)
  case (1 s)
  then show ?case by (rule start_inv_init)
next
  case (2 s t)
  from 2(2) show ?case
    by (rule start_stepE) (rule start_inv_caller [OF 2(1)] start_inv_child [OF 2(1)], assumption)+
next
  case (3 s)
  then show ?case by (rule start_progress)
qed

text \<open>The message on \<open>std::cerr\<close>.\<close>

definition pin_message :: "int \<Rightarrow> string" where
  "pin_message core_id = ''Failed to set thread affinity to CPU '' @ show_int core_id @ [CHR 0x0A]"

definition cerr_inv :: "affinity \<Rightarrow> bool \<Rightarrow> int \<Rightarrow> start_state \<Rightarrow> bool" where
  "cerr_inv setaffinity spawn_ok core_id s \<longleftrightarrow> start_inv setaffinity spawn_ok core_id s \<and>
     cerr s = (if \<not> setup_ok setaffinity core_id \<and> (tpc s = T_StoreFailed \<or> tpc s = T_Done)
               then pin_message core_id else [])"

lemma caller_step_cerr:
  "caller_step spawn_ok s = Some t \<Longrightarrow> cerr t = cerr s \<and> (tpc t = tpc s \<or> kpc s = K_Spawn \<and> tpc t = T_Pin)"
  by (auto simp: caller_step_def split: caller_pc.splits if_splits)

lemma child_step_cerr:
  assumes "cerr_inv setaffinity spawn_ok core_id s" "child_step setaffinity core_id s = Some t"
  shows "cerr t = (if \<not> setup_ok setaffinity core_id \<and> (tpc t = T_StoreFailed \<or> tpc t = T_Done)
                   then pin_message core_id else [])"
proof -
  have "together spawn_ok (setup_ok setaffinity core_id) (kpc s) (tpc s)"
    using assms(1) by (simp add: cerr_inv_def start_inv_def Let_def)
  then have "tpc s \<in> {T_StoreRunning, T_Invoke} \<Longrightarrow> setup_ok setaffinity core_id"
    using together_child(3,4) [of spawn_ok "setup_ok setaffinity core_id" "kpc s"] by auto
  with assms show ?thesis
    by (cases "tpc s") (auto simp: child_step_def cerr_inv_def setup_ok_def pin_message_def split: if_splits)
qed

interpretation start_cerr: invariant_system start_init "start_step setaffinity spawn_ok core_id"
  "cerr_inv setaffinity spawn_ok core_id"
proof (unfold_locales, goal_cases)
  case (1 s)
  then show ?case using start_inv_init [OF 1] by (simp add: cerr_inv_def start_init_def)
next
  case (2 s t)
  then have inv: "start_inv setaffinity spawn_ok core_id s" by (simp add: cerr_inv_def)
  then have spawn: "kpc s = K_Spawn \<Longrightarrow> tpc s = T_None" by (simp add: start_inv_def Let_def)
  from 2(2) show ?case
  proof (rule start_stepE)
    assume c: "caller_step spawn_ok s = Some t"
    then show ?thesis
      using start_inv_caller [OF inv c] caller_step_cerr [OF c] 2(1) spawn by (auto simp: cerr_inv_def)
  next
    assume c: "child_step setaffinity core_id s = Some t"
    then show ?thesis using start_inv_child [OF inv c] child_step_cerr [OF 2(1) c] by (simp add: cerr_inv_def)
  qed
qed

section \<open>Properties\<close>

lemma start_sample_run:
  "\<exists>s. reachable start_init (start_step (\<lambda>cpus. 0) True 3) s \<and> start_final s \<and> kpc s = K_Returned"
proof -
  obtain s0 where "start_init s0" by (auto simp: start_init_def)
  then have r0: "reachable start_init (start_step (\<lambda>cpus. 0) True 3) s0" by blast
  then obtain s where s: "(start_step (\<lambda>cpus. 0) True 3)\<^sup>*\<^sup>* s0 s" "start_final s"
    using start.reachable_can_finish by blast
  have r: "reachable start_init (start_step (\<lambda>cpus. 0) True 3) s"
    using r0 s(1) by (rule reachable_steps)
  then have "start_inv (\<lambda>cpus. 0) True 3 s" by (rule start.reachable_inv)
  moreover have "setup_ok (\<lambda>cpus. 0) 3" by (simp add: setup_ok_def setThreadCore_def CPU_SETSIZE_def)
  ultimately have "together True True (kpc s) (tpc s)" by (simp add: start_inv_def Let_def)
  with s(2) have "kpc s = K_Returned"
    by (auto simp: start_final_def frame_gone_def split: caller_pc.splits) (metis start_error.exhaust together.simps(2,7))+
  with r s(2) show ?thesis by blast
qed

text \<open>Where the caller is once it has returned or thrown.\<close>

fun ended :: "start_error + unit \<Rightarrow> caller_pc" where
  "ended (Inl e) = K_Threw e"
| "ended (Inr u) = K_Returned"

lemma start_outcome:
  assumes "start_inv setaffinity spawn_ok core_id s" "frame_gone s"
  shows "kpc s = ended (createAndStartThread setaffinity spawn_ok core_id)"
proof -
  have t: "together spawn_ok (setup_ok setaffinity core_id) (kpc s) (tpc s)"
    using assms(1) by (simp add: start_inv_def Let_def)
  show ?thesis
  proof (cases "kpc s")
    case (K_Threw e)
    with t show ?thesis by (cases e) (simp_all add: createAndStartThread_def setup_ok_def)
  next
    case K_Returned
    with t have "setup_ok setaffinity core_id" "spawn_ok" by (auto elim: started.elims)
    with K_Returned show ?thesis by (auto simp: createAndStartThread_def setup_ok_def)
  qed (use assms(2) in \<open>simp_all add: frame_gone_def\<close>)
qed

text \<open>
  Property C28. The two threads of \<open>createAndStartThread\<close> agree with its description as one call,
  under every interleaving: whenever the caller's frame is left, it is left the way the
  description says; when it returns, the task has been or is about to be run; and when the new
  thread has ended as well, the task has run exactly once if the call returned and never if it
  threw, and the message on \<open>std::cerr\<close> is there exactly if pinning failed. Both threads can
  always get that far.
\<close>

theorem createAndStartThread_functional:
  assumes "reachable start_init (start_step setaffinity spawn_ok core_id) s"
    and "r = createAndStartThread setaffinity spawn_ok core_id"
  shows "(frame_gone s \<longrightarrow> kpc s = ended r) \<and>
         (kpc s = K_Returned \<longrightarrow> tpc s = T_Invoke \<or> tpc s = T_Done) \<and>
         (start_final s \<longrightarrow> invoked s = (if r = Inr () then 1 else 0) \<and>
            cerr s = (if r = Inl FailedToStartThread then pin_message core_id else [])) \<and>
         (\<exists>t. (start_step setaffinity spawn_ok core_id)\<^sup>*\<^sup>* s t \<and> start_final t)"
proof -
  from assms(1) have c: "cerr_inv setaffinity spawn_ok core_id s" by (rule start_cerr.reachable_inv)
  then have inv: "start_inv setaffinity spawn_ok core_id s" by (simp add: cerr_inv_def)
  have out: "frame_gone s \<Longrightarrow> kpc s = ended r" using start_outcome [OF inv] assms(2) by simp
  have "kpc s = K_Returned \<Longrightarrow> tpc s = T_Invoke \<or> tpc s = T_Done"
    using inv by (cases "tpc s") (simp_all add: start_inv_def Let_def)
  moreover have "invoked s = (if r = Inr () then 1 else 0) \<and>
      cerr s = (if r = Inl FailedToStartThread then pin_message core_id else [])" if "start_final s"
  proof -
    from that have "frame_gone s" by (simp add: start_final_def)
    note k = out [OF this]
    show ?thesis
    proof (cases r)
      case (Inl e)
      with k c show ?thesis
        by (cases e) (auto simp: cerr_inv_def start_inv_def Let_def)
    next
      case (Inr u)
      with k c that have "tpc s = T_Done" "setup_ok setaffinity core_id"
        by (auto simp: cerr_inv_def start_inv_def Let_def start_final_def)
      with Inr c show ?thesis by (simp add: cerr_inv_def start_inv_def Let_def)
    qed
  qed
  moreover have "\<exists>t. (start_step setaffinity spawn_ok core_id)\<^sup>*\<^sup>* s t \<and> start_final t"
    using assms(1) by (rule start.reachable_can_finish)
  ultimately show ?thesis using out by blast
qed

theorem createAndStartThread_functional_witness:
  "\<exists>s. reachable start_init (start_step (\<lambda>cpus. 0) True 3) s \<and> kpc s = K_Returned \<and> invoked s = 1 \<and> cerr s = []"
proof -
  obtain s where s: "reachable start_init (start_step (\<lambda>cpus. 0) True 3) s" "start_final s" "kpc s = K_Returned"
    using start_sample_run by blast
  moreover have "createAndStartThread (\<lambda>cpus. 0) True 3 = Inr ()"
    by (simp add: createAndStartThread_def setThreadCore_def CPU_SETSIZE_def)
  ultimately show ?thesis using createAndStartThread_functional [OF s(1) refl] by auto
qed

text \<open>
  Property C29. The flags outlive their users: in no reachable state has the caller's frame gone
  while the new thread still has a store to \<open>running\<close> or \<open>failed\<close> ahead of it.
\<close>

theorem createAndStartThread_no_dangling_flags:
  assumes "reachable start_init (start_step setaffinity spawn_ok core_id) s"
  shows "\<not> dangling s"
proof -
  from assms have "start_inv setaffinity spawn_ok core_id s" by (rule start.reachable_inv)
  then have t: "together spawn_ok (setup_ok setaffinity core_id) (kpc s) (tpc s)"
    by (simp add: start_inv_def Let_def)
  show ?thesis
  proof
    assume "dangling s"
    then have "frame_gone s" "tpc s = T_StoreFailed \<or> tpc s = T_StoreRunning \<or> tpc s = T_Pin"
      by (simp_all add: dangling_def)
    with t show False by (auto simp: frame_gone_def split: caller_pc.splits dest: together_child)
  qed
qed

theorem createAndStartThread_no_dangling_flags_witness:
  "\<exists>s. reachable start_init (start_step (\<lambda>cpus. 0) True 3) s \<and> kpc s = K_Returned \<and> \<not> dangling s"
proof -
  obtain s where "reachable start_init (start_step (\<lambda>cpus. 0) True 3) s" "kpc s = K_Returned"
    using start_sample_run by blast
  with createAndStartThread_no_dangling_flags [of "\<lambda>cpus. 0" True 3 s] show ?thesis by blast
qed

end
