(* ===== verification/Logger.thy ===== *)
theory Logger
  imports LF_Queue Thread_Utils "HOL-Library.Sublist"
begin

text \<open>
  The asynchronous logger of \<open>include/logger.hpp\<close> and \<open>src/logger.cpp\<close>.

  \<^item> \<open>LogElement\<close> is the tagged union; reading a member that is not the one stored is
    undefined behaviour. The values of \<open>float\<close> and \<open>double\<close> are bit patterns, and how a
    stream prints them is a parameter (\<open>stream_fmt\<close>); integers print in decimal.
  \<^item> \<open>log_fmt\<close> is the variadic \<open>log\<close>: the elements it pushes, and the assertion it ends in.
  \<^item> \<open>app_step\<close> and \<open>flush_step\<close> are the application thread (\<open>pushValue\<close>, then \<open>~Logger\<close>) and
    the background thread (\<open>flushQueue\<close>), one atomic access at a time on the queue of
    \<open>LF_Queue\<close> and with the bookkeeping of its producer-consumer system; \<open>logger_step\<close>
    interleaves them. An assertion that a call of \<open>log\<close> fails is a fault of the application
    thread once it has pushed what that call pushes before it: the program aborts there and
    does not reach \<open>~Logger\<close>.

  Streams do not fail in the model: once the file is open, what is written to it is in it.
  A format is the characters before its terminating null.
\<close>

section \<open>Elements\<close>

definition LOG_QUEUE_SIZE :: size_t where "LOG_QUEUE_SIZE = 64 * 1024"

datatype LogType = LT_CHAR | LT_INTEGER | LT_LONG_INTEGER | LT_LONG_LONG_INTEGER
  | LT_UNSIGNED_INTEGER | LT_UNSIGNED_LONG_INTEGER | LT_UNSIGNED_LONG_LONG_INTEGER | LT_FLOAT | LT_DOUBLE

datatype LogValue = V_c char | V_i "32 word" | V_l "64 word" | V_ll "64 word"
  | V_u "32 word" | V_ul "64 word" | V_ull "64 word" | V_f "32 word" | V_d "64 word"

record LogElement =
  log_type :: LogType
  log_value :: LogValue

definition default_element :: LogElement where
  "default_element = \<lparr>log_type = LT_CHAR, log_value = V_c (CHR 0x00)\<rparr>"

text \<open>How a stream prints floating-point values.\<close>

record stream_fmt =
  show_float :: "32 word \<Rightarrow> string"
  show_double :: "64 word \<Rightarrow> string"

text \<open>The \<open>switch\<close> of \<open>flushQueue\<close>: what \<open>file_ << next->value_.m\<close> writes for the member
  \<open>m\<close> that the tag selects.\<close>

definition inactive_member :: "string outcome" where
  "inactive_member = Inl (UndefinedBehaviour ''inactive union member'')"

definition write_element :: "stream_fmt \<Rightarrow> LogElement \<Rightarrow> string outcome" where
  "write_element fs e =
     (case log_type e of
        LT_CHAR \<Rightarrow> (case log_value e of V_c c \<Rightarrow> Inr [c] | _ \<Rightarrow> inactive_member)
      | LT_INTEGER \<Rightarrow> (case log_value e of V_i i \<Rightarrow> Inr (show_int (sint i)) | _ \<Rightarrow> inactive_member)
      | LT_LONG_INTEGER \<Rightarrow> (case log_value e of V_l i \<Rightarrow> Inr (show_int (sint i)) | _ \<Rightarrow> inactive_member)
      | LT_LONG_LONG_INTEGER \<Rightarrow> (case log_value e of V_ll i \<Rightarrow> Inr (show_int (sint i)) | _ \<Rightarrow> inactive_member)
      | LT_UNSIGNED_INTEGER \<Rightarrow> (case log_value e of V_u u \<Rightarrow> Inr (show_nat (unat u)) | _ \<Rightarrow> inactive_member)
      | LT_UNSIGNED_LONG_INTEGER \<Rightarrow> (case log_value e of V_ul u \<Rightarrow> Inr (show_nat (unat u)) | _ \<Rightarrow> inactive_member)
      | LT_UNSIGNED_LONG_LONG_INTEGER \<Rightarrow> (case log_value e of V_ull u \<Rightarrow> Inr (show_nat (unat u)) | _ \<Rightarrow> inactive_member)
      | LT_FLOAT \<Rightarrow> (case log_value e of V_f f \<Rightarrow> Inr (show_float fs f) | _ \<Rightarrow> inactive_member)
      | LT_DOUBLE \<Rightarrow> (case log_value e of V_d d \<Rightarrow> Inr (show_double fs d) | _ \<Rightarrow> inactive_member))"

text \<open>The overloads of \<open>pushValue\<close>: the element each one builds.\<close>

definition pushValue_char :: "char \<Rightarrow> LogElement" where
  "pushValue_char v = default_element\<lparr>log_type := LT_CHAR, log_value := V_c v\<rparr>"
definition pushValue_int :: "32 word \<Rightarrow> LogElement" where
  "pushValue_int v = default_element\<lparr>log_type := LT_INTEGER, log_value := V_i v\<rparr>"
definition pushValue_long :: "64 word \<Rightarrow> LogElement" where
  "pushValue_long v = default_element\<lparr>log_type := LT_LONG_INTEGER, log_value := V_l v\<rparr>"
definition pushValue_long_long :: "64 word \<Rightarrow> LogElement" where
  "pushValue_long_long v = default_element\<lparr>log_type := LT_LONG_LONG_INTEGER, log_value := V_ll v\<rparr>"
definition pushValue_unsigned :: "32 word \<Rightarrow> LogElement" where
  "pushValue_unsigned v = default_element\<lparr>log_type := LT_UNSIGNED_INTEGER, log_value := V_u v\<rparr>"
definition pushValue_unsigned_long :: "64 word \<Rightarrow> LogElement" where
  "pushValue_unsigned_long v = default_element\<lparr>log_type := LT_UNSIGNED_LONG_INTEGER, log_value := V_ul v\<rparr>"
definition pushValue_unsigned_long_long :: "64 word \<Rightarrow> LogElement" where
  "pushValue_unsigned_long_long v =
     default_element\<lparr>log_type := LT_UNSIGNED_LONG_LONG_INTEGER, log_value := V_ull v\<rparr>"
definition pushValue_float :: "32 word \<Rightarrow> LogElement" where
  "pushValue_float v = default_element\<lparr>log_type := LT_FLOAT, log_value := V_f v\<rparr>"
definition pushValue_double :: "64 word \<Rightarrow> LogElement" where
  "pushValue_double v = default_element\<lparr>log_type := LT_DOUBLE, log_value := V_d v\<rparr>"

lemmas pushValue_defs = pushValue_char_def pushValue_int_def pushValue_long_def
  pushValue_long_long_def pushValue_unsigned_def pushValue_unsigned_long_def
  pushValue_unsigned_long_long_def pushValue_float_def pushValue_double_def

text \<open>
  A C string is the characters in memory from the pointer on, with a terminating null after
  the list; the loop stops at the first null. A \<open>std::string\<close> may hold nulls of its own.
\<close>

fun pushValue_cstr :: "string \<Rightarrow> LogElement list" where
  "pushValue_cstr [] = []"
| "pushValue_cstr (c # cs) = (if c \<noteq> CHR 0x00 then pushValue_char c # pushValue_cstr cs else [])"

definition pushValue_string :: "string \<Rightarrow> LogElement list" where
  "pushValue_string s = pushValue_cstr s"

section \<open>Formatting\<close>

text \<open>The argument types \<open>log\<close> accepts.\<close>

datatype log_arg = A_char char | A_int "32 word" | A_long "64 word" | A_long_long "64 word"
  | A_unsigned "32 word" | A_unsigned_long "64 word" | A_unsigned_long_long "64 word"
  | A_float "32 word" | A_double "64 word" | A_cstr string | A_string string

fun pushValue_arg :: "log_arg \<Rightarrow> LogElement list" where
  "pushValue_arg (A_char v) = [pushValue_char v]"
| "pushValue_arg (A_int v) = [pushValue_int v]"
| "pushValue_arg (A_long v) = [pushValue_long v]"
| "pushValue_arg (A_long_long v) = [pushValue_long_long v]"
| "pushValue_arg (A_unsigned v) = [pushValue_unsigned v]"
| "pushValue_arg (A_unsigned_long v) = [pushValue_unsigned_long v]"
| "pushValue_arg (A_unsigned_long_long v) = [pushValue_unsigned_long_long v]"
| "pushValue_arg (A_float v) = [pushValue_float v]"
| "pushValue_arg (A_double v) = [pushValue_double v]"
| "pushValue_arg (A_cstr s) = pushValue_cstr s"
| "pushValue_arg (A_string s) = pushValue_string s"

text \<open>
  \<open>log_fmt dbg s args\<close>: the elements pushed by \<open>log(s, args...)\<close> before it returns or
  fails an assertion. The two overloads share the recursion: with an argument left a single
  percent sign takes it and the rest of the format continues with the remaining arguments;
  with none left it is an error in a Debug build and an ordinary character in a Release
  build. The end of the format with arguments left is an error in a Debug build.
\<close>

definition pushed :: "LogElement list \<Rightarrow> LogElement list \<times> fault option \<Rightarrow> LogElement list \<times> fault option" where
  "pushed es r = (es @ fst r, snd r)"

fun log_fmt :: "bool \<Rightarrow> string \<Rightarrow> log_arg list \<Rightarrow> LogElement list \<times> fault option" where
  "log_fmt dbg [] [] = ([], None)"
| "log_fmt dbg [] (v # vs) = ([], cassert dbg False ''Extra arguments provided to Logger::log()'')"
| "log_fmt dbg (c # s) args =
     (if c = CHR ''%''
      then (if s \<noteq> [] \<and> hd s = CHR ''%''
            then pushed [pushValue_char (hd s)] (log_fmt dbg (tl s) args)
            else (case args of
                    v # vs \<Rightarrow> pushed (pushValue_arg v) (log_fmt dbg s vs)
                  | [] \<Rightarrow> (case cassert dbg False ''Missing argument for Logger::log()'' of
                             Some f \<Rightarrow> ([], Some f)
                           | None \<Rightarrow> pushed [pushValue_char c] (log_fmt dbg s []))))
      else pushed [pushValue_char c] (log_fmt dbg s args))"

section \<open>The two threads\<close>

text \<open>The application thread: it pushes its elements (each \<open>pushValue\<close> asks for a slot until
  it gets one); then, unless its last call of \<open>log\<close> fails an assertion (\<open>app_fault\<close>), it
  destroys the logger: wait for an empty queue, clear \<open>running_\<close>, join, close the file.\<close>

datatype app_pc = A_Push | A_WaitEmpty | A_Stop | A_Join | A_Close | A_Done

text \<open>The background thread: the test of \<open>running_\<close>, the inner loop over the queue (at a
  position of the consumer), the sleep, the end.\<close>

datatype flush_pc = L_While | L_Drain | L_Sleep | L_Exited

record logger =
  lsp :: "LogElement spsc"
  app_fault :: "fault option"
  apc :: app_pc
  lpc :: flush_pc
  log_running :: bool
  file_text :: string
  file_open :: bool

definition push_step :: "logger \<Rightarrow> logger outcome option" where
  "push_step s =
     (case todo (lsp s) of
        [] \<Rightarrow> Some (guard_fault (app_fault s) (Inr (s\<lparr>apc := A_WaitEmpty\<rparr>)))
      | x # xs \<Rightarrow> Some (obind (prod_step x (ppc (lsp s), sq (lsp s))) (\<lambda>(pp, q).
          Inr (s\<lparr>lsp := (lsp s)\<lparr>sq := q, ppc := pp,
                 todo := (if ppc (lsp s) = P_Inc then xs else todo (lsp s)),
                 sent := (if ppc (lsp s) = P_Inc then sent (lsp s) @ [x] else sent (lsp s))\<rparr>\<rparr>))))"

definition dtor_step :: "logger \<Rightarrow> logger outcome option" where
  "dtor_step s =
     (case apc s of
        A_WaitEmpty \<Rightarrow>
          Some (Inr (s\<lparr>apc := (if queue_size (sq (lsp s)) \<noteq> 0 then A_WaitEmpty else A_Stop)\<rparr>))
      | A_Stop \<Rightarrow> Some (Inr (s\<lparr>log_running := False, apc := A_Join\<rparr>))
      | A_Join \<Rightarrow> if lpc s = L_Exited then Some (Inr (s\<lparr>apc := A_Close\<rparr>)) else None
      | A_Close \<Rightarrow> Some (Inr (s\<lparr>file_open := False, apc := A_Done\<rparr>))
      | _ \<Rightarrow> None)"

definition app_step :: "logger \<Rightarrow> logger outcome option" where
  "app_step s = (if apc s = A_Push then push_step s else dtor_step s)"

lemmas app_step_defs = app_step_def push_step_def dtor_step_def

definition flush_step :: "bool \<Rightarrow> stream_fmt \<Rightarrow> logger \<Rightarrow> logger outcome option" where
  "flush_step dbg fs s =
     (case lpc s of
        L_While \<Rightarrow> Some (Inr (s\<lparr>lpc := (if log_running s then L_Drain else L_Exited)\<rparr>))
      | L_Drain \<Rightarrow> Some (obind (cons_step dbg (cpc (lsp s), sq (lsp s))) (\<lambda>(cp, q, r).
          obind (case r of None \<Rightarrow> Inr '''' | Some e \<Rightarrow> write_element fs e) (\<lambda>out.
            Inr (s\<lparr>lsp := (lsp s)\<lparr>sq := q, cpc := cp,
                     got := got (lsp s) @ (case r of None \<Rightarrow> [] | Some v \<Rightarrow> [v]),
                     released := (if cpc (lsp s) = C_Dec then Suc (released (lsp s)) else released (lsp s))\<rparr>,
                   file_text := file_text s @ out,
                   lpc := (if cpc (lsp s) = C_Idle \<and> cp = C_Idle then L_Sleep else L_Drain)\<rparr>))))
      | L_Sleep \<Rightarrow> Some (Inr (s\<lparr>lpc := L_While\<rparr>))
      | L_Exited \<Rightarrow> None)"

inductive logger_step :: "bool \<Rightarrow> stream_fmt \<Rightarrow> logger \<Rightarrow> logger \<Rightarrow> bool" for dbg fs where
  app: "app_step s = Some (Inr t) \<Longrightarrow> logger_step dbg fs s t"
| background: "flush_step dbg fs s = Some (Inr t) \<Longrightarrow> logger_step dbg fs s t"

inductive_cases logger_stepE: "logger_step dbg fs s t"

text \<open>The constructor: make the queue, open the file or throw, start the background thread
  without pinning (\<open>Thread_Utils\<close>) or let its exception pass; the state it leaves, with what
  the application will push and the assertion it will fail after that, if any.\<close>

datatype logger_error = CouldNotOpen string | StartFailed start_error

definition Logger :: "bool \<Rightarrow> string \<Rightarrow> bool \<Rightarrow> affinity \<Rightarrow> bool \<Rightarrow>
    LogElement list \<times> fault option \<Rightarrow> (logger_error + logger) outcome" where
  "Logger dbg file_name can_open setaffinity spawn_ok program =
     obind (LFQueue dbg default_element LOG_QUEUE_SIZE) (\<lambda>q.
       if \<not> can_open then Inr (Inl (CouldNotOpen (''Could not open log file: '' @ file_name)))
       else case createAndStartThread setaffinity spawn_ok (- 1) of
         Inl e \<Rightarrow> Inr (Inl (StartFailed e))
       | Inr u \<Rightarrow>
           Inr (Inr \<lparr>lsp = \<lparr>sq = q, ppc = P_Idle, cpc = C_Idle, todo = fst program, sent = [],
                            released = 0, got = []\<rparr>,
                     app_fault = snd program, apc = A_Push, lpc = L_While, log_running = True, file_text = [], file_open = True\<rparr>))"

text \<open>A program that makes the given calls of \<open>log\<close>, in order, and then destroys the logger.
  A failed assertion aborts it.\<close>

fun session :: "bool \<Rightarrow> (string \<times> log_arg list) list \<Rightarrow> LogElement list \<times> fault option" where
  "session dbg [] = ([], None)"
| "session dbg ((s, args) # calls) =
     (case log_fmt dbg s args of
        (es, Some f) \<Rightarrow> (es, Some f)
      | (es, None) \<Rightarrow> pushed es (session dbg calls))"

definition logger_init :: "bool \<Rightarrow> (string \<times> log_arg list) list \<Rightarrow> logger \<Rightarrow> bool" where
  "logger_init dbg calls s \<longleftrightarrow>
     (\<exists>file_name can_open setaffinity spawn_ok.
        Logger dbg file_name can_open setaffinity spawn_ok (session dbg calls) = Inr (Inr s))"

section \<open>What a call of log writes\<close>

text \<open>The tag the \<open>pushValue\<close> overloads give each member, and the text of a member.\<close>

fun tag_of :: "LogValue \<Rightarrow> LogType" where
  "tag_of (V_c c) = LT_CHAR"
| "tag_of (V_i i) = LT_INTEGER"
| "tag_of (V_l i) = LT_LONG_INTEGER"
| "tag_of (V_ll i) = LT_LONG_LONG_INTEGER"
| "tag_of (V_u u) = LT_UNSIGNED_INTEGER"
| "tag_of (V_ul u) = LT_UNSIGNED_LONG_INTEGER"
| "tag_of (V_ull u) = LT_UNSIGNED_LONG_LONG_INTEGER"
| "tag_of (V_f f) = LT_FLOAT"
| "tag_of (V_d d) = LT_DOUBLE"

definition wf_element :: "LogElement \<Rightarrow> bool" where
  "wf_element e \<longleftrightarrow> log_type e = tag_of (log_value e)"

definition element_text :: "stream_fmt \<Rightarrow> LogElement \<Rightarrow> string" where
  "element_text fs e = (case write_element fs e of Inr t \<Rightarrow> t | Inl f \<Rightarrow> [])"

definition elements_text :: "stream_fmt \<Rightarrow> LogElement list \<Rightarrow> string" where
  "elements_text fs es = concat (map (element_text fs) es)"

text \<open>Reading the member the tag selects is defined exactly for elements with a matching tag.\<close>

lemma write_element_iff:
  "wf_element e \<longleftrightarrow> write_element fs e = Inr (element_text fs e)"
  by (cases "log_value e"; cases "log_type e")
    (auto simp: wf_element_def write_element_def element_text_def inactive_member_def)

lemma elements_text_simps [simp]:
  "elements_text fs [] = []"
  "elements_text fs (e # es) = element_text fs e @ elements_text fs es"
  "elements_text fs (es @ es') = elements_text fs es @ elements_text fs es'"
  by (simp_all add: elements_text_def)

lemma pushValue_wf:
  "wf_element (pushValue_char c)" "wf_element (pushValue_int i)" "wf_element (pushValue_long l)"
  "wf_element (pushValue_long_long l)" "wf_element (pushValue_unsigned u)"
  "wf_element (pushValue_unsigned_long l)" "wf_element (pushValue_unsigned_long_long l)"
  "wf_element (pushValue_float f)" "wf_element (pushValue_double d)"
  by (simp_all add: wf_element_def pushValue_defs)

lemma element_text_char [simp]: "element_text fs (pushValue_char c) = [c]"
  by (simp add: element_text_def write_element_def pushValue_defs)

lemma cstr_wf: "list_all wf_element (pushValue_cstr s)"
  by (induction s) (simp_all add: pushValue_wf)

lemma cstr_text: "elements_text fs (pushValue_cstr s) = takeWhile (\<lambda>c. c \<noteq> CHR 0x00) s"
  by (induction s) simp_all

text \<open>The text each argument stands for: decimal numbers, and strings up to their first null.\<close>

fun arg_text :: "stream_fmt \<Rightarrow> log_arg \<Rightarrow> string" where
  "arg_text fs (A_char c) = [c]"
| "arg_text fs (A_int i) = show_int (sint i)"
| "arg_text fs (A_long i) = show_int (sint i)"
| "arg_text fs (A_long_long i) = show_int (sint i)"
| "arg_text fs (A_unsigned u) = show_nat (unat u)"
| "arg_text fs (A_unsigned_long u) = show_nat (unat u)"
| "arg_text fs (A_unsigned_long_long u) = show_nat (unat u)"
| "arg_text fs (A_float f) = show_float fs f"
| "arg_text fs (A_double d) = show_double fs d"
| "arg_text fs (A_cstr s) = takeWhile (\<lambda>c. c \<noteq> CHR 0x00) s"
| "arg_text fs (A_string s) = takeWhile (\<lambda>c. c \<noteq> CHR 0x00) s"

lemma pushValue_arg_wf: "list_all wf_element (pushValue_arg a)"
  by (cases a) (simp_all add: pushValue_wf cstr_wf pushValue_string_def)

lemma pushValue_arg_text: "elements_text fs (pushValue_arg a) = arg_text fs a"
  by (cases a) (simp_all add: cstr_text pushValue_string_def element_text_def write_element_def
      pushValue_defs)

text \<open>
  A format read as literal characters and holes, and its rendering with arguments: each hole
  takes the next argument; holes without an argument show as percent signs.
\<close>

datatype piece = Lit char | Hole

fun pieces :: "string \<Rightarrow> piece list" where
  "pieces [] = []"
| "pieces [c] = [if c = CHR ''%'' then Hole else Lit c]"
| "pieces (c # d # s) =
     (if c = CHR ''%'' then (if d = CHR ''%'' then Lit (CHR ''%'') # pieces s else Hole # pieces (d # s))
      else Lit c # pieces (d # s))"

definition holes :: "string \<Rightarrow> nat" where
  "holes s = length (filter (\<lambda>p. p = Hole) (pieces s))"

fun render :: "stream_fmt \<Rightarrow> piece list \<Rightarrow> log_arg list \<Rightarrow> string" where
  "render fs [] args = []"
| "render fs (Lit c # ps) args = c # render fs ps args"
| "render fs (Hole # ps) (a # args) = arg_text fs a @ render fs ps args"
| "render fs (Hole # ps) [] = CHR ''%'' # render fs ps []"

lemma pushed_simps [simp]: "fst (pushed es r) = es @ fst r" "snd (pushed es r) = snd r"
  by (simp_all add: pushed_def)

lemma log_fmt_wf: "list_all wf_element (fst (log_fmt dbg s args))"
  by (induction dbg s args rule: log_fmt.induct)
    (auto simp: pushValue_wf pushValue_arg_wf split: list.splits option.splits)

lemma log_fmt_Release_Nil [simp]: "log_fmt False [] args = ([], None)"
  by (cases args) simp_all

text \<open>A Release build always renders the whole format.\<close>

lemma log_fmt_Release:
  "snd (log_fmt False s args) = None \<and> elements_text fs (fst (log_fmt False s args)) = render fs (pieces s) args"
proof (induction s arbitrary: args rule: pieces.induct)
  case 1
  then show ?case by (cases args) simp_all
next
  case (2 c)
  then show ?case
    by (cases args) (auto simp: pushValue_arg_text)
next
  case (3 c d s)
  then show ?case by (cases args) (simp_all add: pushValue_arg_text)
qed

lemma holes_Nil [simp]: "holes [] = 0"
  by (simp add: holes_def)

lemma holes_Cons: "holes (c # s) =
    (if c = CHR ''%'' then (if s \<noteq> [] \<and> hd s = CHR ''%'' then holes (tl s) else Suc (holes s)) else holes s)"
  by (cases s) (simp_all add: holes_def)

text \<open>A Debug build does the same when the counts agree, and stops at an assertion otherwise.\<close>

lemma log_fmt_Debug_match: "length args = holes s \<Longrightarrow> log_fmt True s args = log_fmt False s args"
  by (induction "True" s args rule: log_fmt.induct)
    (auto simp: holes_Cons split: if_splits list.splits)

lemma log_fmt_Debug_extra:
  "holes s < length args \<Longrightarrow> log_fmt True s args =
     (fst (log_fmt False s args), Some (AssertFailed ''Extra arguments provided to Logger::log()''))"
  by (induction "True" s args rule: log_fmt.induct)
    (auto simp: holes_Cons pushed_def split: if_splits list.splits)

lemma log_fmt_Debug_missing:
  "length args < holes s \<Longrightarrow>
     snd (log_fmt True s args) = Some (AssertFailed ''Missing argument for Logger::log()'')"
  by (induction "True" s args rule: log_fmt.induct)
    (auto simp: holes_Cons split: if_splits list.splits)

lemma session_wf: "list_all wf_element (fst (session dbg calls))"
proof (induction dbg calls rule: session.induct)
  case (2 dbg s args calls)
  have "list_all wf_element (fst (log_fmt dbg s args))" by (rule log_fmt_wf)
  with 2 show ?case by (cases "log_fmt dbg s args") (auto split: option.splits)
qed simp

lemma session_text:
  assumes "\<And>s args. (s, args) \<in> set calls \<Longrightarrow> length args = holes s"
  shows "snd (session dbg calls) = None \<and>
    elements_text fs (fst (session dbg calls)) = concat (map (\<lambda>(s, args). render fs (pieces s) args) calls)"
  using assms
proof (induction dbg calls rule: session.induct)
  case (2 dbg s args calls)
  have "log_fmt dbg s args = log_fmt False s args"
    using 2(2) by (cases dbg) (auto intro: log_fmt_Debug_match)
  then obtain es where "log_fmt dbg s args = (es, None)" "elements_text fs es = render fs (pieces s) args"
    using log_fmt_Release [of s args fs] by (cases "log_fmt False s args") auto
  with 2 show ?case by simp
qed simp

section \<open>The logger as a system of two threads\<close>

text \<open>
  On top of the queue's invariant: the file holds the text of what was read; once the
  application has seen an empty queue nothing is left to write; \<open>running_\<close> is set until the
  destructor clears it, and only then can the background thread leave its loop.
\<close>

definition logger_inv :: "stream_fmt \<Rightarrow> LogElement list \<times> fault option \<Rightarrow> logger \<Rightarrow> bool" where
  "logger_inv fs prog s \<longleftrightarrow>
     spsc_inv (fst prog) (lsp s) \<and> app_fault s = snd prog \<and> (apc s \<noteq> A_Push \<longrightarrow> snd prog = None) \<and> list_all wf_element (fst prog) \<and>
     file_text s = elements_text fs (got (lsp s)) \<and>
     (apc s \<noteq> A_Push \<longrightarrow> todo (lsp s) = []) \<and>
     (apc s \<notin> {A_Push, A_WaitEmpty} \<longrightarrow> released (lsp s) = length (sent (lsp s))) \<and>
     (log_running s \<longleftrightarrow> apc s \<in> {A_Push, A_WaitEmpty, A_Stop}) \<and>
     (lpc s \<noteq> L_Drain \<longrightarrow> cpc (lsp s) = C_Idle) \<and>
     (lpc s = L_Exited \<longrightarrow> \<not> log_running s) \<and>
     (apc s \<in> {A_Close, A_Done} \<longrightarrow> lpc s = L_Exited) \<and>
     (file_open s \<longleftrightarrow> apc s \<noteq> A_Done)"

lemma spsc_ring:
  "spsc_inv items s \<Longrightarrow> ring_inv (sq s) (ppc s = P_Inc) (cpc s = C_Dec) (sent s) (released s)"
  by (simp add: spsc_inv_def)

lemma spsc_empty:
  assumes "spsc_inv items s"
  shows "queue_size (sq s) = 0 \<longleftrightarrow> length (sent s) = released s"
  using empty_iff [OF spsc_ring [OF assms]] by (simp add: queue_size_def)

lemma spsc_drained_idle:
  "spsc_inv items s \<Longrightarrow> released s = length (sent s) \<Longrightarrow> cpc s = C_Idle"
  by (cases "cpc s") (auto simp: spsc_inv_def)

text \<open>What one step of each thread does, from a state that satisfies the invariant.\<close>

lemma app_push_step:
  assumes inv: "logger_inv fs prog s" and pc: "apc s = A_Push" "todo (lsp s) = x # xs"
  obtains u where "app_step s = Some (Inr (s\<lparr>lsp := u\<rparr>))" "spsc_inv (fst prog) u"
    "got u = got (lsp s)" "cpc u = cpc (lsp s)" "released u = released (lsp s)"
    "ppc (lsp s) \<noteq> P_Idle \<or> length (sent (lsp s)) \<noteq> released (lsp s) + length (queue_store (sq (lsp s)))
       \<Longrightarrow> spsc_rank u < spsc_rank (lsp s)"
proof -
  have sinv: "spsc_inv (fst prog) (lsp s)" using inv by (simp add: logger_inv_def)
  have ok: "prod_ok x (ppc (lsp s)) (sq (lsp s)) (sent (lsp s)) (released (lsp s))"
    using sinv pc(2) by (simp add: spsc_inv_def)
  obtain pp q where st: "prod_step x (ppc (lsp s), sq (lsp s)) = Inr (pp, q)"
    and idle: "ppc (lsp s) = P_Idle \<Longrightarrow> pp = (if length (sent (lsp s)) =
        released (lsp s) + length (queue_store (sq (lsp s))) then P_Idle else P_Slot)"
    by (rule prod_step_inv [OF spsc_ring [OF sinv] ok]) blast
  let ?u = "(lsp s)\<lparr>sq := q, ppc := pp,
      todo := (if ppc (lsp s) = P_Inc then xs else todo (lsp s)),
      sent := (if ppc (lsp s) = P_Inc then sent (lsp s) @ [x] else sent (lsp s))\<rparr>"
  have "app_step s = Some (Inr (s\<lparr>lsp := ?u\<rparr>))" using pc st by (simp add: app_step_defs)
  moreover have "spsc_inv (fst prog) ?u" by (rule spsc_inv_produce [OF sinv pc(2) st])
  moreover have "spsc_rank ?u < spsc_rank (lsp s)"
    if "ppc (lsp s) \<noteq> P_Idle \<or> length (sent (lsp s)) \<noteq> released (lsp s) + length (queue_store (sq (lsp s)))"
  proof -
    have "pstage pp = (if ppc (lsp s) = P_Inc then 0 else Suc (pstage (ppc (lsp s))))"
      using pstage_step [OF st] idle that by (cases "ppc (lsp s) = P_Idle") auto
    then show ?thesis
      using pc(2) pstage_le [of "ppc (lsp s)"] by (cases "ppc (lsp s)") (auto simp: spsc_rank_def)
  qed
  ultimately show ?thesis using that [of ?u] by simp
qed

lemma flush_drain_step:
  assumes inv: "logger_inv fs prog s" and pc: "lpc s = L_Drain"
  obtains u out where
    "flush_step dbg fs s = Some (Inr (s\<lparr>lsp := u, file_text := file_text s @ out,
       lpc := (if cpc (lsp s) = C_Idle \<and> cpc u = C_Idle then L_Sleep else L_Drain)\<rparr>))"
    "spsc_inv (fst prog) u" "file_text s @ out = elements_text fs (got u)"
    "todo u = todo (lsp s)" "sent u = sent (lsp s)"
    "released (lsp s) = length (sent (lsp s)) \<Longrightarrow> u = lsp s \<and> cpc (lsp s) = C_Idle"
    "cpc (lsp s) \<noteq> C_Idle \<or> length (sent (lsp s)) \<noteq> released (lsp s) \<Longrightarrow> spsc_rank u < spsc_rank (lsp s)"
    "cpc (lsp s) = C_Idle \<Longrightarrow> cpc u = C_Idle \<longleftrightarrow> length (sent (lsp s)) = released (lsp s)"
proof -
  have sinv: "spsc_inv (fst prog) (lsp s)" using inv by (simp add: logger_inv_def)
  have ok: "cons_ok (cpc (lsp s)) (sq (lsp s)) (sent (lsp s)) (released (lsp s))"
    using sinv by (simp add: spsc_inv_def)
  obtain cp q r where st: "cons_step dbg (cpc (lsp s), sq (lsp s)) = Inr (cp, q, r)"
    and r: "r = (case cpc (lsp s) of C_Read _ \<Rightarrow> Some (sent (lsp s) ! released (lsp s)) | _ \<Rightarrow> None)"
    and idle: "cpc (lsp s) = C_Idle \<Longrightarrow>
        cp = (if length (sent (lsp s)) = released (lsp s) then C_Idle else C_Slot)"
    by (rule cons_step_inv [OF spsc_ring [OF sinv] ok, of dbg]) blast
  let ?u = "(lsp s)\<lparr>sq := q, cpc := cp,
      got := got (lsp s) @ (case r of None \<Rightarrow> [] | Some v \<Rightarrow> [v]),
      released := (if cpc (lsp s) = C_Dec then Suc (released (lsp s)) else released (lsp s))\<rparr>"
  let ?out = "elements_text fs (case r of None \<Rightarrow> [] | Some v \<Rightarrow> [v])"
  have u: "spsc_inv (fst prog) ?u" by (rule spsc_inv_consume [OF sinv st])
  have "wf_element v" if "r = Some v" for v
  proof -
    have "v = sent (lsp s) ! released (lsp s)" "released (lsp s) < length (sent (lsp s))"
      using that r ok by (auto split: cons_pc.splits)
    moreover have "fst prog = sent (lsp s) @ todo (lsp s)" using sinv by (simp add: spsc_inv_def)
    ultimately have "v \<in> set (fst prog)" by simp
    then show ?thesis using inv by (simp add: logger_inv_def list_all_iff)
  qed
  then have "(case r of None \<Rightarrow> Inr '''' | Some e \<Rightarrow> write_element fs e) = Inr ?out"
    by (auto simp: write_element_iff [of _ fs] split: option.splits)
  then have step: "flush_step dbg fs s = Some (Inr (s\<lparr>lsp := ?u, file_text := file_text s @ ?out,
       lpc := (if cpc (lsp s) = C_Idle \<and> cpc ?u = C_Idle then L_Sleep else L_Drain)\<rparr>))"
    using pc st by (simp add: flush_step_def)
  have rank: "spsc_rank ?u < spsc_rank (lsp s)"
    if go: "cpc (lsp s) \<noteq> C_Idle \<or> length (sent (lsp s)) \<noteq> released (lsp s)"
  proof -
    have "cstage cp = (if cpc (lsp s) = C_Dec then 0 else Suc (cstage (cpc (lsp s))))"
      using cstage_step [OF st] idle go by (cases "cpc (lsp s) = C_Idle") auto
    moreover have "released (lsp s) < length (sent (lsp s))"
      using go ok ring_invD(3) [OF spsc_ring [OF sinv]] by (cases "cpc (lsp s)") auto
    ultimately show ?thesis
      using cstage_le [of "cpc (lsp s)"] by (cases "cpc (lsp s)") (auto simp: spsc_rank_def)
  qed
  have drained: "?u = lsp s \<and> cpc (lsp s) = C_Idle" if "released (lsp s) = length (sent (lsp s))"
    using spsc_drained_idle [OF sinv that] st that idle by (auto split: if_splits)
  have idle': "cpc (lsp s) = C_Idle \<Longrightarrow> cpc ?u = C_Idle \<longleftrightarrow> length (sent (lsp s)) = released (lsp s)"
    using idle by auto
  have "file_text s @ ?out = elements_text fs (got ?u)"
    using inv by (simp add: logger_inv_def)
  then show ?thesis by (rule that [OF step u _ _ _ drained rank idle']) simp_all
qed

lemma app_step_inv:
  assumes inv: "logger_inv fs prog s" and st: "app_step s = Some (Inr t)"
  shows "logger_inv fs prog t"
proof (cases "apc s")
  case A_Push
  show ?thesis
  proof (cases "todo (lsp s)")
    case Nil
    with A_Push inv st show ?thesis by (auto simp: app_step_defs logger_inv_def guard_fault_Inr_iff)
  next
    case (Cons x xs)
    obtain u where u: "app_step s = Some (Inr (s\<lparr>lsp := u\<rparr>))" "spsc_inv (fst prog) u"
        "got u = got (lsp s)" "cpc u = cpc (lsp s)"
      by (rule app_push_step [OF inv A_Push Cons]) blast
    with st inv A_Push show ?thesis by (auto simp: logger_inv_def)
  qed
next
  case A_WaitEmpty
  have "spsc_inv (fst prog) (lsp s)" using inv by (simp add: logger_inv_def)
  from spsc_empty [OF this] A_WaitEmpty inv st show ?thesis
    by (auto simp: app_step_defs logger_inv_def)
qed (use inv st in \<open>auto simp: app_step_defs logger_inv_def split: if_splits\<close>)

lemma flush_step_inv:
  assumes inv: "logger_inv fs prog s" and st: "flush_step dbg fs s = Some (Inr t)"
  shows "logger_inv fs prog t"
proof (cases "lpc s")
  case L_Drain
  obtain u out where u: "flush_step dbg fs s = Some (Inr (s\<lparr>lsp := u, file_text := file_text s @ out,
       lpc := (if cpc (lsp s) = C_Idle \<and> cpc u = C_Idle then L_Sleep else L_Drain)\<rparr>))"
    "spsc_inv (fst prog) u" "file_text s @ out = elements_text fs (got u)"
    "todo u = todo (lsp s)" "sent u = sent (lsp s)"
    "released (lsp s) = length (sent (lsp s)) \<Longrightarrow> u = lsp s \<and> cpc (lsp s) = C_Idle"
    by (rule flush_drain_step [OF inv L_Drain, of dbg]) blast
  have t: "t = s\<lparr>lsp := u, file_text := elements_text fs (got u),
       lpc := (if cpc (lsp s) = C_Idle \<and> cpc u = C_Idle then L_Sleep else L_Drain)\<rparr>"
    using st u(1) unfolding u(3) by simp
  have "apc s \<notin> {A_Push, A_WaitEmpty} \<longrightarrow> released (lsp s) = length (sent (lsp s))"
    using inv unfolding logger_inv_def by blast
  with u(6) have "apc s \<notin> {A_Push, A_WaitEmpty} \<longrightarrow> released u = length (sent u)" by metis
  then show ?thesis using inv u(2,4) unfolding logger_inv_def by (simp add: t L_Drain)
next
  case L_While
  then have "t = s\<lparr>lpc := (if log_running s then L_Drain else L_Exited)\<rparr>"
    using st by (simp add: flush_step_def)
  with inv L_While show ?thesis by (simp add: logger_inv_def)
next
  case L_Sleep
  then have "t = s\<lparr>lpc := L_While\<rparr>" using st by (simp add: flush_step_def)
  with inv L_Sleep show ?thesis by (simp add: logger_inv_def)
next
  case L_Exited
  with st show ?thesis by (simp add: flush_step_def)
qed

lemma logger_no_fault:
  assumes inv: "logger_inv fs prog s"
  shows "app_step s = Some (Inl f) \<longleftrightarrow> apc s = A_Push \<and> todo (lsp s) = [] \<and> snd prog = Some f"
    "flush_step dbg fs s \<noteq> Some (Inl f)"
proof -
  have flt: "app_fault s = snd prog" using inv by (simp add: logger_inv_def)
  show "app_step s = Some (Inl f) \<longleftrightarrow> apc s = A_Push \<and> todo (lsp s) = [] \<and> snd prog = Some f"
  proof (cases "apc s = A_Push \<and> todo (lsp s) \<noteq> []")
    case True
    then obtain x xs where "apc s = A_Push" "todo (lsp s) = x # xs" by (auto simp: neq_Nil_conv)
    then obtain u where "app_step s = Some (Inr (s\<lparr>lsp := u\<rparr>))"
      by (rule app_push_step [OF inv]) blast
    with True show ?thesis by simp
  qed (auto simp: app_step_defs flt guard_fault_Inl_iff split: app_pc.splits list.splits)
  show "flush_step dbg fs s \<noteq> Some (Inl f)"
  proof (cases "lpc s = L_Drain")
    case True
    obtain t where "flush_step dbg fs s = Some (Inr t)"
      by (rule flush_drain_step [OF inv True, of dbg]) blast
    then show ?thesis by simp
  qed (auto simp: flush_step_def split: flush_pc.splits)
qed

lemma logger_inv_init:
  assumes "logger_init dbg calls s"
  shows "logger_inv fs (session dbg calls) s"
proof -
  let ?items = "fst (session dbg calls)"
  from assms obtain q where q: "LFQueue dbg default_element LOG_QUEUE_SIZE = Inr q"
    and s: "s = \<lparr>lsp = \<lparr>sq = q, ppc = P_Idle, cpc = C_Idle, todo = ?items, sent = [], released = 0, got = []\<rparr>,
             app_fault = snd (session dbg calls), apc = A_Push, lpc = L_While, log_running = True, file_text = [], file_open = True\<rparr>"
    by (auto simp: logger_init_def Logger_def obind_Inr_iff split: if_splits sum.splits)
  have "spsc_init dbg default_element LOG_QUEUE_SIZE ?items (lsp s)"
    using q by (simp add: spsc_init_def s)
  then have "spsc_inv ?items (lsp s)" by (rule spsc_inv_init [rotated]) (simp add: LOG_QUEUE_SIZE_def)
  then show ?thesis using session_wf [of dbg calls] by (simp add: logger_inv_def s)
qed

text \<open>A measure for running to the end: items left to push and drain, then the stages of the
  destructor, then the background thread's way to where it is needed next.\<close>

fun app_stage :: "app_pc \<Rightarrow> nat" where
  "app_stage A_Push = 5"
| "app_stage A_WaitEmpty = 4"
| "app_stage A_Stop = 3"
| "app_stage A_Join = 2"
| "app_stage A_Close = 1"
| "app_stage A_Done = 0"

fun flush_distance :: "bool \<Rightarrow> flush_pc \<Rightarrow> nat" where
  "flush_distance r L_Sleep = 2"
| "flush_distance r L_While = 1"
| "flush_distance r L_Drain = (if r then 0 else 3)"
| "flush_distance r L_Exited = 0"

definition logger_rank :: "logger \<Rightarrow> nat" where
  "logger_rank s = 4 * spsc_rank (lsp s) + 4 * app_stage (apc s) + flush_distance (log_running s) (lpc s)"

text \<open>The program is over: both threads have ended, or the application thread is about to fail
  an assertion of \<open>log\<close>.\<close>

definition logger_final :: "logger \<Rightarrow> bool" where
  "logger_final s \<longleftrightarrow> apc s = A_Done \<and> lpc s = L_Exited \<or>
     apc s = A_Push \<and> todo (lsp s) = [] \<and> app_fault s \<noteq> None"

lemma flush_distance_le: "flush_distance r p \<le> 3" "r \<Longrightarrow> flush_distance r p \<le> 2"
  by (cases p; simp)+

text \<open>While \<open>running_\<close> is set and items wait, the background thread gets on with them.\<close>

lemma logger_drain_progress:
  assumes inv: "logger_inv fs prog s" and run: "log_running s"
    and wait: "length (sent (lsp s)) \<noteq> released (lsp s)"
  shows "\<exists>t. logger_step dbg fs s t \<and> logger_rank t < logger_rank s"
proof (cases "lpc s = L_Drain")
  case True
  obtain u out where u: "flush_step dbg fs s = Some (Inr (s\<lparr>lsp := u, file_text := file_text s @ out,
       lpc := (if cpc (lsp s) = C_Idle \<and> cpc u = C_Idle then L_Sleep else L_Drain)\<rparr>))"
    "cpc (lsp s) \<noteq> C_Idle \<or> length (sent (lsp s)) \<noteq> released (lsp s) \<Longrightarrow> spsc_rank u < spsc_rank (lsp s)"
    "cpc (lsp s) = C_Idle \<Longrightarrow> cpc u = C_Idle \<longleftrightarrow> length (sent (lsp s)) = released (lsp s)"
    by (rule flush_drain_step [OF inv True, of dbg]) blast
  show ?thesis
    by (rule exI, rule conjI, rule logger_step.background, rule u(1))
      (use u(2,3) wait run True in \<open>auto simp: logger_rank_def\<close>)
next
  case False
  with inv run obtain t where "flush_step dbg fs s = Some (Inr t)" "logger_rank t < logger_rank s"
    by (cases "lpc s") (auto simp: flush_step_def logger_inv_def logger_rank_def)
  then show ?thesis by (blast intro: logger_step.background)
qed

lemma logger_push_progress:
  assumes inv: "logger_inv fs prog s" and pc: "apc s = A_Push" "todo (lsp s) = x # xs"
  shows "\<exists>t. logger_step dbg fs s t \<and> logger_rank t < logger_rank s"
proof (cases "ppc (lsp s) \<noteq> P_Idle \<or>
    length (sent (lsp s)) \<noteq> released (lsp s) + length (queue_store (sq (lsp s)))")
  case True
  obtain u where "app_step s = Some (Inr (s\<lparr>lsp := u\<rparr>))" "spsc_rank u < spsc_rank (lsp s)"
    by (rule app_push_step [OF inv pc]) (use True in blast)
  then show ?thesis
    by (intro exI [of _ "s\<lparr>lsp := u\<rparr>"]) (simp add: logger_step.app logger_rank_def)
next
  case False
  have "spsc_inv (fst prog) (lsp s)" "log_running s" using inv pc by (simp_all add: logger_inv_def)
  with False ring_invD(1) [OF spsc_ring] show ?thesis
    by (intro logger_drain_progress [OF inv]) auto
qed

lemma logger_join_progress:
  assumes inv: "logger_inv fs prog s" and pc: "apc s = A_Join" "lpc s \<noteq> L_Exited"
  shows "\<exists>t. logger_step dbg fs s t \<and> logger_rank t < logger_rank s"
proof (cases "lpc s = L_Drain")
  case True
  obtain u out where u: "flush_step dbg fs s = Some (Inr (s\<lparr>lsp := u, file_text := file_text s @ out,
       lpc := (if cpc (lsp s) = C_Idle \<and> cpc u = C_Idle then L_Sleep else L_Drain)\<rparr>))"
    "released (lsp s) = length (sent (lsp s)) \<Longrightarrow> u = lsp s \<and> cpc (lsp s) = C_Idle"
    by (rule flush_drain_step [OF inv True, of dbg]) blast
  show ?thesis
    by (rule exI, rule conjI, rule logger_step.background, rule u(1))
      (use u(2) inv pc True in \<open>auto simp: logger_rank_def logger_inv_def\<close>)
next
  case False
  with inv pc obtain t where "flush_step dbg fs s = Some (Inr t)" "logger_rank t < logger_rank s"
    by (cases "lpc s") (auto simp: flush_step_def logger_inv_def logger_rank_def)
  then show ?thesis by (blast intro: logger_step.background)
qed

lemma logger_progress:
  assumes inv: "logger_inv fs prog s" and nf: "\<not> logger_final s"
  shows "\<exists>t. logger_step dbg fs s t \<and> logger_rank t < logger_rank s"
proof -
  have app: ?thesis if "app_step s = Some (Inr t)" "logger_rank t < logger_rank s" for t
    using that by (blast intro: logger_step.app)
  show ?thesis
  proof (cases "apc s")
    case A_Push
    show ?thesis
    proof (cases "todo (lsp s)")
      case Nil
      with A_Push nf show ?thesis by (intro app) (auto simp: app_step_defs logger_rank_def logger_final_def)
    next
      case (Cons x xs)
      with A_Push show ?thesis by (rule logger_push_progress [OF inv])
    qed
  next
    case A_WaitEmpty
    have "spsc_inv (fst prog) (lsp s)" "log_running s"
      using inv A_WaitEmpty by (simp_all add: logger_inv_def)
    show ?thesis
    proof (cases "length (sent (lsp s)) = released (lsp s)")
      case True
      with A_WaitEmpty spsc_empty [OF \<open>spsc_inv (fst prog) (lsp s)\<close>] show ?thesis
        by (intro app) (auto simp: app_step_defs logger_rank_def)
    qed (rule logger_drain_progress [OF inv \<open>log_running s\<close>])
  next
    case A_Stop
    then show ?thesis
      using flush_distance_le [of False "lpc s"]
      by (intro app) (auto simp: app_step_defs logger_rank_def)
  next
    case A_Join
    then show ?thesis
    proof (cases "lpc s = L_Exited")
      case True
      with A_Join show ?thesis by (intro app) (auto simp: app_step_defs logger_rank_def)
    qed (rule logger_join_progress [OF inv])
  next
    case A_Close
    then show ?thesis by (intro app) (auto simp: app_step_defs logger_rank_def)
  next
    case A_Done
    with inv nf show ?thesis by (simp add: logger_final_def logger_inv_def)
  qed
qed

interpretation logger: progress_system "logger_init dbg calls" "logger_step dbg fs"
  "logger_inv fs (session dbg calls)" logger_final logger_rank
proof (unfold_locales, goal_cases)
  case (1 s)
  then show ?case by (rule logger_inv_init)
next
  case (2 s t)
  from 2(2) show ?case
    by (cases rule: logger_stepE) (use 2(1) in \<open>blast intro: app_step_inv flush_step_inv\<close>)+
next
  case (3 s)
  then show ?case by (rule logger_progress)
qed

section \<open>Properties\<close>

lemma logger_init_exists: "\<exists>s. logger_init dbg calls s"
proof -
  have "\<exists>s. Logger dbg [] True (\<lambda>cpus. 0) True (session dbg calls) = Inr (Inr s)"
    by (simp add: Logger_def LFQueue_def LOG_QUEUE_SIZE_def createAndStartThread_def)
  then show ?thesis unfolding logger_init_def by blast
qed

text \<open>The constructor never faults; it throws exactly if the file cannot be opened or the thread
  cannot be created.\<close>

lemma Logger_result:
  "(\<exists>s. Logger dbg file_name can_open setaffinity spawn_ok program = Inr (Inr s)) \<longleftrightarrow> can_open \<and> spawn_ok"
  "\<not> can_open \<Longrightarrow> Logger dbg file_name can_open setaffinity spawn_ok program =
     Inr (Inl (CouldNotOpen (''Could not open log file: '' @ file_name)))"
  "can_open \<Longrightarrow> \<not> spawn_ok \<Longrightarrow> Logger dbg file_name can_open setaffinity spawn_ok program =
     Inr (Inl (StartFailed SystemError))"
  by (simp_all add: Logger_def LFQueue_def LOG_QUEUE_SIZE_def createAndStartThread_def)

lemma logger_finished_file:
  assumes "logger_inv fs prog s" "apc s = A_Done"
  shows "file_text s = elements_text fs (fst prog) \<and> \<not> file_open s \<and> lpc s = L_Exited"
proof -
  have "got (lsp s) = fst prog" "lpc s = L_Exited" "file_text s = elements_text fs (got (lsp s))"
    using assms by (auto simp: logger_inv_def spsc_inv_def)
  then show ?thesis using assms by (simp add: logger_inv_def)
qed

lemma logger_file:
  assumes "\<And>s args. (s, args) \<in> set calls \<Longrightarrow> length args = holes s"
    and "reachable (logger_init dbg calls) (logger_step dbg fs) st" "apc st = A_Done"
  shows "snd (session dbg calls) = None \<and>
    file_text st = concat (map (\<lambda>(s, args). render fs (pieces s) args) calls) \<and> \<not> file_open st \<and> lpc st = L_Exited"
proof -
  have "logger_inv fs (session dbg calls) st" using assms(2) by (rule logger.reachable_inv)
  from logger_finished_file [OF this assms(3)] session_text [of calls dbg fs, OF assms(1)] show ?thesis by simp
qed

text \<open>Where a run ends: behind \<open>~Logger\<close>, or, if a call of \<open>log\<close> fails its assertion, there.\<close>

lemma logger_reaches_end:
  assumes "reachable (logger_init dbg calls) (logger_step dbg fs) st"
  shows "\<exists>st'. (logger_step dbg fs)\<^sup>*\<^sup>* st st' \<and>
    (case snd (session dbg calls) of
       None \<Rightarrow> apc st' = A_Done \<and> lpc st' = L_Exited
     | Some f \<Rightarrow> app_step st' = Some (Inl f))"
proof -
  obtain t where t: "(logger_step dbg fs)\<^sup>*\<^sup>* st t" "logger_final t"
    using logger.reachable_can_finish [OF assms] by blast
  have inv: "logger_inv fs (session dbg calls) t"
    using logger.reachable_inv [OF reachable_steps [OF assms t(1)]] .
  have flt: "app_fault t = snd (session dbg calls)" "apc t \<noteq> A_Push \<longrightarrow> snd (session dbg calls) = None"
    using inv unfolding logger_inv_def by blast+
  show ?thesis
  proof (rule exI, rule conjI, rule t(1), cases "snd (session dbg calls)")
    case None
    with t(2) flt show "case snd (session dbg calls) of None \<Rightarrow> apc t = A_Done \<and> lpc t = L_Exited
        | Some f \<Rightarrow> app_step t = Some (Inl f)" by (simp add: logger_final_def)
  next
    case (Some f)
    with t(2) flt have "apc t = A_Push" "todo (lsp t) = []" by (auto simp: logger_final_def)
    with Some show "case snd (session dbg calls) of None \<Rightarrow> apc t = A_Done \<and> lpc t = L_Exited
        | Some f \<Rightarrow> app_step t = Some (Inl f)" using logger_no_fault(1) [OF inv, of f] by simp
  qed
qed

lemma logger_ends:
  assumes "\<And>s args. (s, args) \<in> set calls \<Longrightarrow> length args = holes s"
  shows "\<exists>st :: logger. reachable (logger_init dbg calls) (logger_step dbg fs) st \<and> apc st = A_Done"
proof -
  obtain s where "logger_init dbg calls s" using logger_init_exists by blast
  then have r: "reachable (logger_init dbg calls) (logger_step dbg fs) s" by (rule reachable_init)
  have "snd (session dbg calls) = None" using session_text [of calls dbg fs, OF assms] by simp
  with logger_reaches_end [OF r] r show ?thesis by (auto intro: reachable_steps)
qed

text \<open>The assertions a Debug build can fail, and when.\<close>

lemma log_fmt_fault:
  "snd (log_fmt dbg s args) = None \<longleftrightarrow> \<not> dbg \<or> length args = holes s"
  "snd (log_fmt dbg s args) = Some f \<Longrightarrow>
     f \<in> {AssertFailed ''Extra arguments provided to Logger::log()'',
          AssertFailed ''Missing argument for Logger::log()''}"
  using log_fmt_Release [of s args] log_fmt_Debug_match [of args s] log_fmt_Debug_extra [of s args]
    log_fmt_Debug_missing [of args s]
  by (cases dbg; cases "length args" "holes s" rule: linorder_cases; simp)+

lemma session_fault:
  "snd (session dbg calls) = None \<longleftrightarrow> \<not> dbg \<or> (\<forall>(s, args) \<in> set calls. length args = holes s)"
  "snd (session dbg calls) = Some f \<Longrightarrow>
     f \<in> {AssertFailed ''Extra arguments provided to Logger::log()'',
          AssertFailed ''Missing argument for Logger::log()''}"
proof (induction dbg calls rule: session.induct)
  case (2 dbg s args calls)
  {
    case 1
    then show ?case using 2 log_fmt_fault(1) [of dbg s args]
      by (cases "log_fmt dbg s args") (auto split: option.splits)
  next
    case 2
    then show ?case using "2.IH" log_fmt_fault(2) [of dbg s args]
      by (cases "log_fmt dbg s args") (auto split: option.splits)
  }
qed simp_all

abbreviation no_floats :: stream_fmt where
  "no_floats \<equiv> \<lparr>show_float = (\<lambda>_. []), show_double = (\<lambda>_. [])\<rparr>"

text \<open>
  Property C5. No message is lost. For any calls of \<open>log\<close> whose argument counts match their
  formats, however many elements they push, and under every interleaving of the application
  with the background thread: when \<open>~Logger\<close> is through, the file holds the rendered messages,
  complete and in order, the background thread has ended and the file is closed.
\<close>

theorem logger_writes_every_message:
  assumes "\<forall>(s, args) \<in> set calls. length args = holes s"
    and "reachable (logger_init dbg calls) (logger_step dbg fs) st" "apc st = A_Done"
  shows "file_text st = concat (map (\<lambda>(s, args). render fs (pieces s) args) calls) \<and>
         \<not> file_open st \<and> lpc st = L_Exited"
  using logger_file [of calls, OF _ assms(2,3)] assms(1) by blast

theorem logger_writes_every_message_witness:
  "\<exists>st :: logger. reachable (logger_init True [(''x=%, 100%%.'', [A_int (- 5)])])
       (logger_step True no_floats) st \<and>
     apc st = A_Done \<and> file_text st = ''x=-5, 100%.''"
proof -
  let ?calls = "[(''x=%, 100%%.'', [A_int (- 5)])]"
  obtain t :: logger where t: "reachable (logger_init True ?calls) (logger_step True no_floats) t" "apc t = A_Done"
    using logger_ends [of ?calls True no_floats] by (auto simp: holes_def)
  then have "file_text t = ''x=-5, 100%.''"
    using logger_writes_every_message [of ?calls True no_floats t]
    by (simp add: holes_def show_int_def show_nat.simps digit_def char_of_def bit_0)
  with t show ?thesis by blast
qed

text \<open>
  Property C19. Safety at every moment. The background thread never faults (no access outside
  the queue, no failed assertion of the queue, no union member read under the wrong tag). The
  application thread faults only in a Debug build, in a call of \<open>log\<close> whose argument count
  does not match its format, with that call's assertion, and not before everything logged up
  to there has been pushed; it never gets into \<open>~Logger\<close> then. The file is a prefix of the
  messages pushed so far, and it stays open as long as the background thread runs.
\<close>

theorem logger_safe:
  assumes "reachable (logger_init dbg calls) (logger_step dbg fs) st"
  shows "flush_step dbg fs st \<noteq> Some (Inl f) \<and>
         (app_step st = Some (Inl f) \<longrightarrow>
            dbg \<and> (\<exists>(s, args) \<in> set calls. length args \<noteq> holes s) \<and>
            f \<in> {AssertFailed ''Extra arguments provided to Logger::log()'',
                 AssertFailed ''Missing argument for Logger::log()''} \<and>
            sent (lsp st) = fst (session dbg calls)) \<and>
         (apc st \<noteq> A_Push \<longrightarrow> \<not> dbg \<or> (\<forall>(s, args) \<in> set calls. length args = holes s)) \<and>
         prefix (file_text st) (elements_text fs (sent (lsp st))) \<and>
         prefix (sent (lsp st)) (fst (session dbg calls)) \<and>
         (file_open st \<or> lpc st = L_Exited)"
proof -
  have inv: "logger_inv fs (session dbg calls) st"
    using assms by (rule logger.reachable_inv)
  then have split: "fst (session dbg calls) = sent (lsp st) @ todo (lsp st)"
    by (simp add: logger_inv_def spsc_inv_def)
  then have "prefix (sent (lsp st)) (fst (session dbg calls))" by (rule prefixI)
  moreover have "file_text st = elements_text fs (got (lsp st))" "prefix (got (lsp st)) (sent (lsp st))"
    using inv by (simp_all add: logger_inv_def spsc_inv_def take_is_prefix)
  then have "prefix (file_text st) (elements_text fs (sent (lsp st)))"
    by (auto simp: prefix_def)
  moreover have "file_open st \<or> lpc st = L_Exited"
    using inv by (cases "apc st") (simp_all add: logger_inv_def)
  moreover have "apc st \<noteq> A_Push \<longrightarrow> snd (session dbg calls) = None"
    using inv unfolding logger_inv_def by blast
  ultimately show ?thesis
    using logger_no_fault [OF inv] session_fault [of dbg calls] split by fastforce
qed

theorem logger_safe_witness:
  "\<exists>st :: logger. reachable (logger_init True [(''a'', []), (''%'', [])]) (logger_step True no_floats) st \<and>
     app_step st = Some (Inl (AssertFailed ''Missing argument for Logger::log()'')) \<and>
     sent (lsp st) = [pushValue_char (CHR ''a'')] \<and> (file_open st \<or> lpc st = L_Exited)"
proof -
  let ?calls = "[(''a'', []), (''%'', [])]"
  let ?f = "AssertFailed ''Missing argument for Logger::log()''"
  obtain s where "logger_init True ?calls s" using logger_init_exists by blast
  then have s: "reachable (logger_init True ?calls) (logger_step True no_floats) s" by (rule reachable_init)
  have ses: "session True ?calls = ([pushValue_char (CHR ''a'')], Some ?f)" by (simp add: pushed_def)
  then obtain t where t: "(logger_step True no_floats)\<^sup>*\<^sup>* s t" "app_step t = Some (Inl ?f)"
    using logger_reaches_end [OF s] by auto
  have r: "reachable (logger_init True ?calls) (logger_step True no_floats) t"
    using reachable_steps [OF s t(1)] .
  from logger_safe [OF r, of ?f] r t(2) ses show ?thesis by auto
qed

text \<open>
  Property C20. There is no deadlock: from every reachable state, also with the queue full and
  the producer spinning, both threads can run to the end. If every call of \<open>log\<close> matches its
  arguments, or the build is a Release build, that end is the end of \<open>~Logger\<close>: no deadlock
  between the wait for an empty queue, the flag and the join. Otherwise it is the failed
  assertion of \<open>log\<close>, which the application thread reaches with every element before it pushed.
\<close>

theorem logger_can_finish:
  assumes "reachable (logger_init dbg calls) (logger_step dbg fs) st"
  shows "\<exists>st'. (logger_step dbg fs)\<^sup>*\<^sup>* st st' \<and>
           (if \<not> dbg \<or> (\<forall>(s, args) \<in> set calls. length args = holes s)
            then apc st' = A_Done \<and> lpc st' = L_Exited
            else \<exists>f. app_step st' = Some (Inl f) \<and> sent (lsp st') = fst (session dbg calls))"
proof -
  obtain t where t: "(logger_step dbg fs)\<^sup>*\<^sup>* st t" "case snd (session dbg calls) of
      None \<Rightarrow> apc t = A_Done \<and> lpc t = L_Exited | Some f \<Rightarrow> app_step t = Some (Inl f)"
    using logger_reaches_end [OF assms] by blast
  have inv: "logger_inv fs (session dbg calls) t"
    using logger.reachable_inv [OF reachable_steps [OF assms t(1)]] .
  then have "fst (session dbg calls) = sent (lsp t) @ todo (lsp t)"
    by (simp add: logger_inv_def spsc_inv_def)
  with t session_fault(1) [of dbg calls] logger_no_fault(1) [OF inv] show ?thesis
    by (intro exI [of _ t]) (auto split: option.splits)
qed

theorem logger_can_finish_witness:
  "\<exists>st st' :: logger. logger_init True [(''hello %'', [A_int 5])] st \<and>
     (logger_step True no_floats)\<^sup>*\<^sup>* st st' \<and> apc st' = A_Done"
proof -
  let ?calls = "[(''hello %'', [A_int 5])]"
  obtain s where s: "logger_init True ?calls s" using logger_init_exists by blast
  then have "reachable (logger_init True ?calls) (logger_step True no_floats) s"
    by (rule reachable_init)
  from logger_can_finish [OF this] s show ?thesis by (auto simp: holes_def)
qed

text \<open>Doubling the percent signs of a text.\<close>

definition escape_percent :: "string \<Rightarrow> string" where
  "escape_percent t = concat (map (\<lambda>c. if c = CHR ''%'' then ''%%'' else [c]) t)"

lemma escape_percent_simps [simp]:
  "escape_percent [] = []"
  "escape_percent (c # t) = (if c = CHR ''%'' then [c, c] else [c]) @ escape_percent t"
  by (simp_all add: escape_percent_def)

lemma pieces_literal: "c \<noteq> CHR ''%'' \<Longrightarrow> pieces (c # s) = Lit c # pieces s"
  by (cases s) simp_all

lemma pieces_escape: "pieces (escape_percent t) = map Lit t"
  by (induction t) (simp_all add: pieces_literal)

lemma render_lits: "render fs (map Lit t) [] = t"
  by (induction t) simp_all

lemma holes_escape: "holes (escape_percent t) = 0"
  by (simp add: holes_def pieces_escape)

text \<open>
  Property C21. The formatting of \<open>log\<close>: with as many arguments as holes it returns in both
  builds, and what it pushes is written as the format with each single percent sign replaced
  by the next argument and each double one by a percent character.
\<close>

theorem log_renders_format:
  assumes "length args = holes s"
  shows "snd (log_fmt dbg s args) = None \<and> list_all wf_element (fst (log_fmt dbg s args)) \<and>
         elements_text fs (fst (log_fmt dbg s args)) = render fs (pieces s) args"
proof -
  have "log_fmt dbg s args = log_fmt False s args"
    using assms by (cases dbg) (simp_all add: log_fmt_Debug_match)
  then show ?thesis using log_fmt_Release [of s args fs] log_fmt_wf [of dbg s args] by simp
qed

theorem log_renders_format_witness:
  "elements_text no_floats (fst (log_fmt True ''a=% b=% %%'' [A_int 7, A_cstr ''xy''])) = ''a=7 b=xy %''"
  using log_renders_format [of "[A_int 7, A_cstr ''xy'']" "''a=% b=% %%''" True no_floats]
  by (simp add: holes_def show_int_def show_nat.simps digit_def char_of_def bit_0)

text \<open>
  Any text can be logged: with its percent signs doubled and no arguments, \<open>log\<close>
  writes exactly that text and fails no assertion.
\<close>

lemma log_escaped_text:
  "snd (log_fmt dbg (escape_percent t) []) = None \<and>
   elements_text fs (fst (log_fmt dbg (escape_percent t) [])) = t"
proof -
  have "log_fmt dbg (escape_percent t) [] = log_fmt False (escape_percent t) []"
    by (cases dbg) (simp_all add: log_fmt_Debug_match holes_escape)
  then show ?thesis
    using log_fmt_Release [of "escape_percent t" "[]" fs] by (simp add: pieces_escape render_lits)
qed

text \<open>
  Property C31. The errors of \<open>log\<close>. Too many arguments: a Debug build pushes the whole message
  and then fails the assertion; too few: it fails at the first hole without one. A Release
  build ignores extra arguments, writes a hole without an argument as a percent sign, and
  always returns.
\<close>

theorem log_argument_mismatch:
  "(holes s < length args \<longrightarrow> log_fmt True s args =
      (fst (log_fmt False s args), Some (AssertFailed ''Extra arguments provided to Logger::log()''))) \<and>
   (length args < holes s \<longrightarrow>
      snd (log_fmt True s args) = Some (AssertFailed ''Missing argument for Logger::log()'')) \<and>
   snd (log_fmt False s args) = None \<and>
   elements_text fs (fst (log_fmt False s args)) = render fs (pieces s) args"
  using log_fmt_Release [of s args fs] by (simp add: log_fmt_Debug_extra log_fmt_Debug_missing)

theorem log_argument_mismatch_witness:
  "snd (log_fmt True ''%'' []) = Some (AssertFailed ''Missing argument for Logger::log()'') \<and>
   elements_text no_floats (fst (log_fmt False ''%'' [])) = ''%'' \<and>
   snd (log_fmt True ''a'' [A_char (CHR ''b'')]) =
     Some (AssertFailed ''Extra arguments provided to Logger::log()'')"
  using log_argument_mismatch [of "''%''" "[]" no_floats]
    log_argument_mismatch [of "''a''" "[A_char (CHR ''b'')]" no_floats]
  by (simp add: holes_def)

text \<open>
  A \<open>std::string\<close> argument is passed on through \<open>c_str()\<close>: it is written up to
  its first null character, so in full exactly when it contains none.
\<close>

lemma pushValue_string_truncates:
  "elements_text fs (pushValue_string s) = takeWhile (\<lambda>c. c \<noteq> CHR 0x00) s \<and>
   (elements_text fs (pushValue_string s) = s \<longleftrightarrow> CHR 0x00 \<notin> set s)"
proof -
  have "takeWhile (\<lambda>c. c \<noteq> CHR 0x00) s = s \<longleftrightarrow> CHR 0x00 \<notin> set s"
    by (auto simp: takeWhile_eq_all_conv)
  then show ?thesis by (simp add: pushValue_string_def cstr_text)
qed

end
