(* ===== verification/Socket_Utils.thy ===== *)
theory Socket_Utils
  imports Logger Time_Utils "HOL-Library.Sublist"
begin

text \<open>
  The socket utilities of \<open>include/socket_utils.hpp\<close> and \<open>src/socket_utils.cpp\<close>, and the
  interface to the operating system that they share with \<open>TCP_Socket\<close> and \<open>TCP_Server\<close>.

  The system is a parameter: a function from the calls made so far (with their answers) and
  the next call to its answer. Peers, signals and the scheduler are behind it, so a theorem
  for every such function covers everything they can do. \<open>valid_answer\<close> states the documented
  behaviour the components rely on.

  \<^item> \<open>ext_call\<close> has one constructor per function of the C library the code calls, with the
    arguments that matter; \<open>answer\<close> collects what can come back.
  \<^item> \<open>sys\<close> is the state outside the objects: the history of calls, \<open>errno\<close>, and the calls of
    \<open>Logger::log\<close> made so far.
  \<^item> \<open>open_fds\<close> and \<open>epoll_set\<close> read the descriptors that are open and the epoll registrations
    off the history.
\<close>

section \<open>The system interface\<close>

unbundle bit_operations_syntax

definition AF_INET :: int where "AF_INET = 2"
definition SOCK_STREAM :: int where "SOCK_STREAM = 1"
definition SOCK_DGRAM :: int where "SOCK_DGRAM = 2"
definition IPPROTO_TCP :: int where "IPPROTO_TCP = 6"
definition IPPROTO_UDP :: int where "IPPROTO_UDP = 17"
definition AI_PASSIVE :: int where "AI_PASSIVE = 1"
definition AI_NUMERICSERV :: int where "AI_NUMERICSERV = 1024"
definition NI_NUMERICHOST :: int where "NI_NUMERICHOST = 1"
definition O_NONBLOCK :: int where "O_NONBLOCK = 2048"
definition SOL_SOCKET :: int where "SOL_SOCKET = 1"
definition TCP_NODELAY :: int where "TCP_NODELAY = 1"
definition SO_REUSEADDR :: int where "SO_REUSEADDR = 2"
definition SO_TIMESTAMP :: int where "SO_TIMESTAMP = 29"
definition EINTR :: int where "EINTR = 4"
definition EAGAIN :: int where "EAGAIN = 11"
definition EWOULDBLOCK :: int where "EWOULDBLOCK = 11"
definition EINPROGRESS :: int where "EINPROGRESS = 115"

definition MAX_TCP_SERVER_BACKLOG :: int where "MAX_TCP_SERVER_BACKLOG = 1024"

record sockaddr_in =
  sin_family :: int
  sin_port :: "16 word"
  s_addr :: "32 word"

record ifaddr =
  ifa_name :: string
  ifa_addr :: "sockaddr_in option"

record addrinfo =
  ai_family :: int
  ai_socktype :: int
  ai_protocol :: int
  ai_flags :: int
  ai_addr :: sockaddr_in

text \<open>A control message of \<open>recvmsg\<close>; its payload is given as the \<open>timeval\<close> that a copy of
  \<open>sizeof(timeval)\<close> bytes from \<open>CMSG_DATA\<close> yields.\<close>

record cmsghdr =
  cmsg_level :: int
  cmsg_type :: int
  tv_sec :: int
  tv_usec :: int

record epoll_event =
  ev_events :: "32 word"
  ev_ptr :: address

datatype ext_call =
    Getifaddrs | Freeifaddrs | Getnameinfo sockaddr_in int
  | Getaddrinfo string string addrinfo | Freeaddrinfo | Gai_strerror int
  | Socket int int int | Fcntl_getfl int | Fcntl_setfl int int
  | Setsockopt int int int int | Connect int sockaddr_in | Bind int sockaddr_in
  | Listen int int | Close int
  | Recvmsg int nat | Send int "byte list"
  | Epoll_create1 int | Epoll_ctl_add int int "32 word" address | Epoll_ctl_del int int
  | Epoll_wait int int int | Accept int

record answer =
  ret :: int
  err :: int
  ans_text :: string
  ans_ifaddrs :: "ifaddr list"
  ans_addrs :: "addrinfo list"
  ans_bytes :: "byte list"
  ans_cmsgs :: "cmsghdr list"
  ans_name :: "sockaddr_in option"
  ans_events :: "epoll_event list"

type_synonym history = "(ext_call \<times> answer) list"
type_synonym os = "history \<Rightarrow> ext_call \<Rightarrow> answer"

record sys =
  hist :: history
  errno :: int
  logs :: "(string \<times> log_arg list) list"
  out_text :: string
  err_text :: string

definition after :: "os \<Rightarrow> ext_call \<Rightarrow> sys \<Rightarrow> sys" where
  "after os c s =
     (let a = os (hist s) c
      in s\<lparr>hist := hist s @ [(c, a)], errno := (if ret a = - 1 then err a else errno s)\<rparr>)"

definition ext :: "os \<Rightarrow> ext_call \<Rightarrow> sys \<Rightarrow> answer \<times> sys" where
  "ext os c s = (os (hist s) c, after os c s)"

definition log_call :: "string \<Rightarrow> log_arg list \<Rightarrow> sys \<Rightarrow> sys" where
  "log_call fmt args s = s\<lparr>logs := logs s @ [(fmt, args)]\<rparr>"

text \<open>What a program writes to \<open>std::cout\<close> and \<open>std::cerr\<close>.\<close>

definition print :: "string \<Rightarrow> sys \<Rightarrow> sys" where
  "print t s = s\<lparr>out_text := out_text s @ t\<rparr>"

definition print_error :: "string \<Rightarrow> sys \<Rightarrow> sys" where
  "print_error t s = s\<lparr>err_text := err_text s @ t\<rparr>"

section \<open>Interfaces and options\<close>

fun find_iface :: "os \<Rightarrow> string \<Rightarrow> ifaddr list \<Rightarrow> sys \<Rightarrow> string \<times> sys" where
  "find_iface os iface [] s = ('''', s)"
| "find_iface os iface (current # rest) s =
     (case ifa_addr current of
        None \<Rightarrow> find_iface os iface rest s
      | Some addr \<Rightarrow>
          if sin_family addr \<noteq> AF_INET then find_iface os iface rest s
          else if iface \<noteq> ifa_name current then find_iface os iface rest s
          else let (a, s1) = ext os (Getnameinfo addr NI_NUMERICHOST) s
               in (if ret a \<noteq> 0 then '''' else ans_text a, s1))"

definition getIfaceIP :: "os \<Rightarrow> string \<Rightarrow> sys \<Rightarrow> string \<times> sys" where
  "getIfaceIP os iface s =
     (if iface = [] then ('''', s)
      else let (a, s1) = ext os Getifaddrs s
           in if ret a = - 1 then ('''', s1)
              else let (buffer, s2) = find_iface os iface (ans_ifaddrs a) s1
                   in (buffer, snd (ext os Freeifaddrs s2)))"

definition setNonBlocking :: "os \<Rightarrow> int \<Rightarrow> sys \<Rightarrow> bool \<times> sys" where
  "setNonBlocking os fd s =
     (let (a, s1) = ext os (Fcntl_getfl fd) s; flags = ret a
      in if flags = - 1 then (False, s1)
         else if flags AND O_NONBLOCK \<noteq> 0 then (True, s1)
         else let (b, s2) = ext os (Fcntl_setfl fd (flags OR O_NONBLOCK)) s1
              in (ret b \<noteq> - 1, s2))"

definition setNoDelay :: "os \<Rightarrow> int \<Rightarrow> sys \<Rightarrow> bool \<times> sys" where
  "setNoDelay os fd s =
     (let (a, s1) = ext os (Setsockopt fd IPPROTO_TCP TCP_NODELAY 1) s in (ret a \<noteq> - 1, s1))"

definition setSOTimestamp :: "os \<Rightarrow> int \<Rightarrow> sys \<Rightarrow> bool \<times> sys" where
  "setSOTimestamp os fd s =
     (let (a, s1) = ext os (Setsockopt fd SOL_SOCKET SO_TIMESTAMP 1) s in (ret a \<noteq> - 1, s1))"

definition wouldBlock :: "sys \<Rightarrow> bool" where
  "wouldBlock s \<longleftrightarrow> errno s = EAGAIN \<or> errno s = EWOULDBLOCK \<or> errno s = EINPROGRESS"

section \<open>createSocket\<close>

text \<open>\<open>::close(fd); fd = -1; continue;\<close>\<close>

definition give_up :: "os \<Rightarrow> int \<Rightarrow> sys \<Rightarrow> int \<times> sys" where
  "give_up os fd s = (- 1, snd (ext os (Close fd) s))"

text \<open>The body of the candidate loop, in the order of the code, one definition per step.\<close>

definition step_timestamp :: "os \<Rightarrow> bool \<Rightarrow> int \<Rightarrow> sys \<Rightarrow> int \<times> sys" where
  "step_timestamp os needs_so_timestamp fd s =
     (if needs_so_timestamp
      then let (ok, s1) = setSOTimestamp os fd s in if \<not> ok then give_up os fd s1 else (fd, s1)
      else (fd, s))"

definition step_listen :: "os \<Rightarrow> bool \<Rightarrow> bool \<Rightarrow> addrinfo \<Rightarrow> int \<Rightarrow> sys \<Rightarrow> int \<times> sys" where
  "step_listen os is_udp ts candidate fd s =
     (let (a, s1) = ext os (Setsockopt fd SOL_SOCKET SO_REUSEADDR 1) s
      in if ret a = - 1 then give_up os fd s1
         else let (b, s2) = ext os (Bind fd (ai_addr candidate)) s1
              in if ret b = - 1 then give_up os fd s2
                 else if is_udp then step_timestamp os ts fd s2
                 else let (c, s3) = ext os (Listen fd MAX_TCP_SERVER_BACKLOG) s2
                      in if ret c = - 1 then give_up os fd s3 else step_timestamp os ts fd s3)"

definition step_connect :: "os \<Rightarrow> bool \<Rightarrow> addrinfo \<Rightarrow> int \<Rightarrow> sys \<Rightarrow> int \<times> sys" where
  "step_connect os ts candidate fd s =
     (let (a, s1) = ext os (Connect fd (ai_addr candidate)) s
      in if ret a < 0 \<and> \<not> wouldBlock s1 then give_up os fd s1 else step_timestamp os ts fd s1)"

definition step_role :: "os \<Rightarrow> bool \<Rightarrow> bool \<Rightarrow> bool \<Rightarrow> addrinfo \<Rightarrow> int \<Rightarrow> sys \<Rightarrow> int \<times> sys" where
  "step_role os is_udp is_listening ts candidate fd s =
     (if is_listening then step_listen os is_udp ts candidate fd s
      else step_connect os ts candidate fd s)"

definition step_nodelay :: "os \<Rightarrow> bool \<Rightarrow> bool \<Rightarrow> bool \<Rightarrow> addrinfo \<Rightarrow> int \<Rightarrow> sys \<Rightarrow> int \<times> sys" where
  "step_nodelay os is_udp is_listening ts candidate fd s =
     (if \<not> is_udp
      then let (ok, s1) = setNoDelay os fd s
           in if \<not> ok then give_up os fd s1 else step_role os is_udp is_listening ts candidate fd s1
      else step_role os is_udp is_listening ts candidate fd s)"

definition try_candidate ::
    "os \<Rightarrow> bool \<Rightarrow> bool \<Rightarrow> bool \<Rightarrow> bool \<Rightarrow> addrinfo \<Rightarrow> sys \<Rightarrow> int \<times> sys" where
  "try_candidate os is_udp is_blocking is_listening ts candidate s =
     (let (a, s1) = ext os (Socket (ai_family candidate) (ai_socktype candidate) (ai_protocol candidate)) s;
          fd = ret a
      in if fd = - 1 then (- 1, s1)
         else if \<not> is_blocking
         then let (ok, s2) = setNonBlocking os fd s1
              in if \<not> ok then give_up os fd s2
                 else step_nodelay os is_udp is_listening ts candidate fd s2
         else step_nodelay os is_udp is_listening ts candidate fd s1)"

fun try_candidates ::
    "os \<Rightarrow> bool \<Rightarrow> bool \<Rightarrow> bool \<Rightarrow> bool \<Rightarrow> addrinfo list \<Rightarrow> sys \<Rightarrow> int \<times> sys" where
  "try_candidates os is_udp is_blocking is_listening ts [] s = (- 1, s)"
| "try_candidates os is_udp is_blocking is_listening ts (candidate # rest) s =
     (let (fd, s1) = try_candidate os is_udp is_blocking is_listening ts candidate s
      in if fd = - 1 then try_candidates os is_udp is_blocking is_listening ts rest s1 else (fd, s1))"

definition socket_hints :: "bool \<Rightarrow> bool \<Rightarrow> addrinfo" where
  "socket_hints is_udp is_listening =
     \<lparr>ai_family = AF_INET,
      ai_socktype = (if is_udp then SOCK_DGRAM else SOCK_STREAM),
      ai_protocol = (if is_udp then IPPROTO_UDP else IPPROTO_TCP),
      ai_flags = (if is_listening then AI_PASSIVE else 0) OR AI_NUMERICSERV,
      ai_addr = \<lparr>sin_family = 0, sin_port = 0, s_addr = 0\<rparr>\<rparr>"

definition createSocket ::
    "os \<Rightarrow> string \<Rightarrow> string \<Rightarrow> int \<Rightarrow> bool \<Rightarrow> bool \<Rightarrow> bool \<Rightarrow> bool \<Rightarrow> sys \<Rightarrow> int \<times> sys" where
  "createSocket os target_ip iface port is_udp is_blocking is_listening needs_so_timestamp s =
     (let (ip, s1) = (if target_ip = [] then getIfaceIP os iface s else (target_ip, s))
      in if ip = []
         then (- 1, log_call (''Could not find IPv4 address for interface:%'' @ [CHR 0x0A]) [A_string iface] s1)
         else let (a, s2) = ext os (Getaddrinfo ip (show_int port) (socket_hints is_udp is_listening)) s1
              in if ret a \<noteq> 0
                 then let (m, s3) = ext os (Gai_strerror (ret a)) s2
                      in (- 1, log_call (''getaddrinfo failed:%'' @ [CHR 0x0A]) [A_cstr (ans_text m)] s3)
                 else let (fd, s3) = try_candidates os is_udp is_blocking is_listening
                                       needs_so_timestamp (ans_addrs a) s2
                      in (fd, snd (ext os Freeaddrinfo s3)))"

section \<open>Reading the history\<close>

text \<open>The descriptors a history leaves open, and whether every \<open>close\<close> in it was of an open one.\<close>

fun fd_effect :: "ext_call \<times> answer \<Rightarrow> int list \<Rightarrow> int list" where
  "fd_effect (Socket f t p, a) fds = (if ret a = - 1 then fds else ret a # fds)"
| "fd_effect (Accept l, a) fds = (if ret a < 0 then fds else ret a # fds)"
| "fd_effect (Epoll_create1 f, a) fds = (if ret a < 0 then fds else ret a # fds)"
| "fd_effect (Close fd, a) fds = remove1 fd fds"
| "fd_effect e fds = fds"

definition open_fds :: "history \<Rightarrow> int list" where
  "open_fds h = fold fd_effect h []"

fun closes_ok_from :: "int list \<Rightarrow> history \<Rightarrow> bool" where
  "closes_ok_from fds [] = True"
| "closes_ok_from fds ((c, a) # h) =
     ((case c of Close fd \<Rightarrow> fd \<in> set fds | _ \<Rightarrow> True) \<and> closes_ok_from (fd_effect (c, a) fds) h)"

definition closes_ok :: "history \<Rightarrow> bool" where
  "closes_ok h = closes_ok_from [] h"

text \<open>The registrations of the epoll instances: instance, descriptor, pointer. Closing a
  descriptor removes its registrations and closing an instance removes its set.\<close>

fun epoll_effect :: "ext_call \<times> answer \<Rightarrow> (int \<times> int \<times> address) list \<Rightarrow> (int \<times> int \<times> address) list" where
  "epoll_effect (Epoll_ctl_add e fd m p, a) rs = (if ret a = - 1 then rs else (e, fd, p) # rs)"
| "epoll_effect (Epoll_ctl_del e fd, a) rs =
     (if ret a = - 1 then rs else filter (\<lambda>(e', fd', p). \<not> (e' = e \<and> fd' = fd)) rs)"
| "epoll_effect (Close fd, a) rs = filter (\<lambda>(e, fd', p). e \<noteq> fd \<and> fd' \<noteq> fd) rs"
| "epoll_effect e rs = rs"

definition epoll_set :: "history \<Rightarrow> (int \<times> int \<times> address) list" where
  "epoll_set h = fold epoll_effect h []"

text \<open>
  The documented behaviour of the calls: a new descriptor is one that is not open; \<open>recvmsg\<close>
  and \<open>send\<close> report a count that fits the buffer and \<open>recvmsg\<close> delivers that many bytes, with
  time stamps that fit a signed 64-bit count of nanoseconds (until the year 2262);
  \<open>epoll_ctl\<close> registers only open descriptors, each once per instance, and \<open>epoll_wait\<close> reports
  at most as many events as asked for, each for a registration.
\<close>

definition valid_timeval :: "cmsghdr \<Rightarrow> bool" where
  "valid_timeval m \<longleftrightarrow> 0 \<le> tv_sec m \<and> tv_sec m < 9223372036 \<and> 0 \<le> tv_usec m \<and> tv_usec m < 1000000"

fun valid_answer :: "history \<Rightarrow> ext_call \<Rightarrow> answer \<Rightarrow> bool" where
  "valid_answer h (Socket f t p) a = (ret a = - 1 \<or> (0 \<le> ret a \<and> ret a \<notin> set (open_fds h)))"
| "valid_answer h (Accept l) a = (ret a = - 1 \<or> (0 \<le> ret a \<and> ret a \<notin> set (open_fds h)))"
| "valid_answer h (Epoll_create1 f) a = (ret a = - 1 \<or> (0 \<le> ret a \<and> ret a \<notin> set (open_fds h)))"
| "valid_answer h (Recvmsg fd n) a =
     (- 1 \<le> ret a \<and> ret a \<le> int n \<and> length (ans_bytes a) = nat (ret a) \<and>
      list_all valid_timeval (ans_cmsgs a))"
| "valid_answer h (Send fd bs) a = (- 1 \<le> ret a \<and> ret a \<le> int (length bs))"
| "valid_answer h (Epoll_wait e n t) a =
     (ret a = - 1 \<or> (0 \<le> ret a \<and> ret a \<le> n \<and> length (ans_events a) = nat (ret a) \<and>
      list_all (\<lambda>ev. \<exists>(e', fd, p) \<in> set (epoll_set h). e' = e \<and> p = ev_ptr ev) (ans_events a)))"
| "valid_answer h (Epoll_ctl_add e fd m p) a =
     (ret a = - 1 \<or> (e \<in> set (open_fds h) \<and> fd \<in> set (open_fds h) \<and>
        (\<forall>(e', fd', p') \<in> set (epoll_set h). \<not> (e' = e \<and> fd' = fd))))"
| "valid_answer h (Connect fd addr) a = (ret a = 0 \<or> ret a = - 1)"
| "valid_answer h c a = True"

definition os_ok :: "os \<Rightarrow> bool" where
  "os_ok os \<longleftrightarrow> (\<forall>h c. valid_answer h c (os h c))"

section \<open>What the calls do to the descriptors\<close>

text \<open>
  \<open>sys_inv F s\<close>: the open descriptors are exactly \<open>F\<close>, no descriptor was ever closed that was
  not open, epoll registrations are of open descriptors, and every call of \<open>log\<close> had as many
  arguments as its format has holes.
\<close>

definition sys_inv :: "int set \<Rightarrow> sys \<Rightarrow> bool" where
  "sys_inv F s \<longleftrightarrow>
     set (open_fds (hist s)) = F \<and> (\<forall>f \<in> F. 0 \<le> f) \<and>
     distinct (open_fds (hist s)) \<and> closes_ok (hist s) \<and>
     (\<forall>(e, fd, p) \<in> set (epoll_set (hist s)). e \<in> F \<and> fd \<in> F) \<and>
     (\<forall>(fmt, args) \<in> set (logs s). length args = holes fmt)"

text \<open>A step that keeps all of this for the same descriptors, and the registrations.\<close>

definition quiet :: "int set \<Rightarrow> sys \<Rightarrow> sys \<Rightarrow> bool" where
  "quiet F s t \<longleftrightarrow> (sys_inv F s \<longrightarrow> sys_inv F t \<and> epoll_set (hist t) = epoll_set (hist s))"

fun neutral :: "ext_call \<Rightarrow> bool" where
  "neutral (Socket f t p) = False"
| "neutral (Accept l) = False"
| "neutral (Epoll_create1 f) = False"
| "neutral (Close fd) = False"
| "neutral (Epoll_ctl_add e fd m p) = False"
| "neutral (Epoll_ctl_del e fd) = False"
| "neutral c = True"

lemma quiet_refl [simp, intro]: "quiet F s s"
  by (simp add: quiet_def)

lemma quiet_trans: "quiet F s t \<Longrightarrow> quiet F t u \<Longrightarrow> quiet F s u"
  by (simp add: quiet_def)

lemma open_fds_snoc [simp]: "open_fds (h @ [e]) = fd_effect e (open_fds h)"
  by (simp add: open_fds_def)

lemma epoll_set_snoc [simp]: "epoll_set (h @ [e]) = epoll_effect e (epoll_set h)"
  by (simp add: epoll_set_def)

lemma closes_ok_from_append:
  "closes_ok_from fds (h @ h') \<longleftrightarrow> closes_ok_from fds h \<and> closes_ok_from (fold fd_effect h fds) h'"
  by (induction fds h rule: closes_ok_from.induct) simp_all

lemma closes_ok_snoc [simp]:
  "closes_ok (h @ [(c, a)]) \<longleftrightarrow>
     closes_ok h \<and> (case c of Close fd \<Rightarrow> fd \<in> set (open_fds h) | _ \<Rightarrow> True)"
  by (cases c) (simp_all add: closes_ok_def closes_ok_from_append open_fds_def)

lemma after_simps [simp]:
  "hist (after os c s) = hist s @ [(c, os (hist s) c)]"
  "logs (after os c s) = logs s"
  "errno (after os c s) = (if ret (os (hist s) c) = - 1 then err (os (hist s) c) else errno s)"
  by (simp_all add: after_def Let_def)

lemma neutral_effects:
  "neutral c \<Longrightarrow> fd_effect (c, a) fds = fds"
  "neutral c \<Longrightarrow> epoll_effect (c, a) rs = rs"
  by (cases c; simp)+

lemma ext_quiet: "neutral c \<Longrightarrow> quiet F s (after os c s)"
  by (cases c) (simp_all add: quiet_def sys_inv_def)

lemma ext_ext_quiet: "neutral c \<Longrightarrow> neutral d \<Longrightarrow> quiet F s (after os d (after os c s))"
  by (blast intro: quiet_trans ext_quiet)

lemma log_call_quiet: "length args = holes fmt \<Longrightarrow> quiet F s (log_call fmt args s)"
  by (simp add: quiet_def sys_inv_def log_call_def)

lemma print_quiet: "quiet F s (print t s)" "quiet F s (print_error t s)"
  by (simp_all add: quiet_def sys_inv_def print_def print_error_def)

lemma hist_print [simp]: "hist (print t s) = hist s" "hist (print_error t s) = hist s"
  by (simp_all add: print_def print_error_def)

lemma hist_log_call [simp]: "hist (log_call fmt args s) = hist s"
  by (simp add: log_call_def)

lemma os_okD: "os_ok os \<Longrightarrow> valid_answer h c (os h c)"
  by (simp add: os_ok_def)

lemma ext_new_fd:
  assumes "os_ok os" "sys_inv F s" "c = Socket f t p \<or> c = Accept l \<or> c = Epoll_create1 g"
  shows "ret (os (hist s) c) = - 1 \<and> sys_inv F (after os c s) \<or>
         0 \<le> ret (os (hist s) c) \<and> ret (os (hist s) c) \<notin> F \<and>
         sys_inv (insert (ret (os (hist s) c)) F) (after os c s)"
    and "epoll_set (hist (after os c s)) = epoll_set (hist s)"
  using os_okD [OF assms(1), of "hist s" c] assms(2,3) by (auto simp: sys_inv_def)

lemma sys_inv_close:
  assumes "sys_inv F s" "fd \<in> F"
  shows "sys_inv (F - {fd}) (after os (Close fd) s)"
  using assms by (auto simp: sys_inv_def)

text \<open>Closing a descriptor just created leaves the registrations as they were.\<close>

lemma epoll_set_close_fresh:
  assumes "\<forall>(e, fd', p) \<in> set rs. e \<in> F \<and> fd' \<in> F" "fd \<notin> F"
  shows "epoll_effect (Close fd, a) rs = rs"
  using assms by (auto simp: filter_id_conv)

section \<open>The utilities\<close>

lemma find_iface_quiet: "find_iface os iface l s = (ip, t) \<Longrightarrow> quiet F s t"
proof (induction l)
  case (Cons c l)
  then show ?case
    by (cases "ifa_addr c") (auto simp: ext_def intro: ext_quiet split: if_splits)
qed simp

lemma getIfaceIP_quiet:
  assumes "getIfaceIP os iface s = (ip, t)"
  shows "quiet F s t"
proof (cases "iface = [] \<or> ret (os (hist s) Getifaddrs) = - 1")
  case True
  with assms show ?thesis
    by (auto simp: getIfaceIP_def ext_def ext_quiet split: if_splits)
next
  case False
  let ?s = "after os Getifaddrs s"
  obtain b u where f: "find_iface os iface (ans_ifaddrs (os (hist s) Getifaddrs)) ?s = (b, u)"
    by (meson surj_pair)
  then have "t = after os Freeifaddrs u"
    using False assms by (simp add: getIfaceIP_def ext_def)
  then have "quiet F u t" by (simp add: ext_quiet)
  moreover have "quiet F s ?s" by (rule ext_quiet) simp
  moreover have "quiet F ?s u" using f by (rule find_iface_quiet)
  ultimately show ?thesis by (blast intro: quiet_trans)
qed

text \<open>The calls a successful \<open>setNonBlocking\<close> makes.\<close>

definition nonblocking_set :: "int \<Rightarrow> history \<Rightarrow> bool" where
  "nonblocking_set fd h \<longleftrightarrow>
     (\<exists>a. ret a \<noteq> - 1 \<and>
        (h = [(Fcntl_getfl fd, a)] \<and> ret a AND O_NONBLOCK \<noteq> 0 \<or>
         (\<exists>b. h = [(Fcntl_getfl fd, a), (Fcntl_setfl fd (ret a OR O_NONBLOCK), b)] \<and> ret b \<noteq> - 1)))"

lemma setNonBlocking_spec:
  assumes "setNonBlocking os fd s = (ok, t)"
  shows "quiet F s t" "ok \<Longrightarrow> \<exists>h. hist t = hist s @ h \<and> nonblocking_set fd h" "logs t = logs s"
proof -
  let ?s = "after os (Fcntl_getfl fd) s"
  show "quiet F s t"
    using assms by (auto simp: setNonBlocking_def ext_def Let_def split: if_splits
        intro: ext_quiet ext_ext_quiet)
  show "ok \<Longrightarrow> \<exists>h. hist t = hist s @ h \<and> nonblocking_set fd h" "logs t = logs s"
    using assms by (auto simp: setNonBlocking_def ext_def Let_def nonblocking_set_def split: if_splits)
qed

lemma setsockopt_spec:
  assumes "setNoDelay os fd s = (ok, t) \<and> c = Setsockopt fd IPPROTO_TCP TCP_NODELAY 1 \<or>
           setSOTimestamp os fd s = (ok, t) \<and> c = Setsockopt fd SOL_SOCKET SO_TIMESTAMP 1"
  shows "t = after os c s" "ok \<longleftrightarrow> ret (os (hist s) c) \<noteq> - 1"
  using assms by (auto simp: setNoDelay_def setSOTimestamp_def ext_def)

section \<open>Creating a socket\<close>

text \<open>While a candidate is being set up, its descriptor is open on top of those in \<open>F\<close> and has
  no registrations; at the end it is either returned or closed.\<close>

definition held :: "int set \<Rightarrow> int \<Rightarrow> sys \<Rightarrow> bool" where
  "held F fd s \<longleftrightarrow> 0 \<le> fd \<and> fd \<notin> F \<and> sys_inv (insert fd F) s \<and>
     (\<forall>(e, fd', p) \<in> set (epoll_set (hist s)). e \<in> F \<and> fd' \<in> F)"

definition settled :: "int set \<Rightarrow> int \<Rightarrow> sys \<Rightarrow> int \<times> sys \<Rightarrow> bool" where
  "settled F fd s r \<longleftrightarrow>
     (fst r = fd \<and> held F fd (snd r) \<or> fst r = - 1 \<and> sys_inv F (snd r)) \<and>
     epoll_set (hist (snd r)) = epoll_set (hist s)"

lemma held_quiet: "held F fd s \<Longrightarrow> quiet (insert fd F) s t \<Longrightarrow> held F fd t"
  by (simp add: held_def quiet_def)

lemma settled_quiet:
  "held F fd s \<Longrightarrow> quiet (insert fd F) s t \<Longrightarrow> settled F fd t r \<Longrightarrow> settled F fd s r"
  by (auto simp: held_def quiet_def settled_def)

lemma settled_return: "held F fd s \<Longrightarrow> settled F fd s (fd, s)"
  by (simp add: settled_def)

lemma settled_give_up:
  assumes "held F fd s"
  shows "settled F fd s (give_up os fd s)"
proof -
  have "insert fd F - {fd} = F" using assms by (auto simp: held_def)
  then have "sys_inv F (after os (Close fd) s)"
    using sys_inv_close [of "insert fd F" s fd os] assms by (simp add: held_def)
  moreover have "epoll_set (hist (after os (Close fd) s)) = epoll_set (hist s)"
    using epoll_set_close_fresh [of "epoll_set (hist s)" F fd] assms by (simp add: held_def)
  ultimately show ?thesis by (simp add: settled_def give_up_def ext_def)
qed

text \<open>One neutral call, then the rest.\<close>

lemma settled_ext:
  assumes "held F fd s" "neutral c" "held F fd (after os c s) \<Longrightarrow> settled F fd (after os c s) r"
  shows "settled F fd s r"
  using assms by (blast intro: settled_quiet held_quiet ext_quiet)

lemma settled_timestamp:
  assumes "held F fd s"
  shows "settled F fd s (step_timestamp os ts fd s)"
proof (cases ts)
  case True
  then show ?thesis
    by (auto simp: step_timestamp_def setSOTimestamp_def ext_def
        intro!: settled_ext [OF assms, of "Setsockopt fd SOL_SOCKET SO_TIMESTAMP 1" os]
          settled_give_up settled_return)
qed (simp add: step_timestamp_def settled_return assms)

lemma settled_connect:
  assumes "held F fd s"
  shows "settled F fd s (step_connect os ts candidate fd s)"
  by (auto simp: step_connect_def ext_def
      intro!: settled_ext [OF assms, of "Connect fd (ai_addr candidate)" os]
        settled_give_up settled_timestamp)

lemma settled_listen:
  assumes "held F fd s"
  shows "settled F fd s (step_listen os is_udp ts candidate fd s)"
proof -
  let ?s1 = "after os (Setsockopt fd SOL_SOCKET SO_REUSEADDR 1) s"
  let ?s2 = "after os (Bind fd (ai_addr candidate)) ?s1"
  have listen: "settled F fd ?s2 (let (c, s3) = ext os (Listen fd MAX_TCP_SERVER_BACKLOG) ?s2
      in if ret c = - 1 then give_up os fd s3 else step_timestamp os ts fd s3)" if "held F fd ?s2"
    by (auto simp: ext_def
        intro!: settled_ext [OF that, of "Listen fd MAX_TCP_SERVER_BACKLOG" os]
          settled_give_up settled_timestamp)
  have bind: "settled F fd ?s1 (let (b, s2) = ext os (Bind fd (ai_addr candidate)) ?s1
              in if ret b = - 1 then give_up os fd s2
                 else if is_udp then step_timestamp os ts fd s2
                 else let (c, s3) = ext os (Listen fd MAX_TCP_SERVER_BACKLOG) s2
                      in if ret c = - 1 then give_up os fd s3 else step_timestamp os ts fd s3)"
    if "held F fd ?s1"
    by (rule settled_ext [OF that, of "Bind fd (ai_addr candidate)" os], simp)
      (use listen in \<open>simp add: ext_def settled_give_up settled_timestamp\<close>)
  show ?thesis
    by (rule settled_ext [OF assms, of "Setsockopt fd SOL_SOCKET SO_REUSEADDR 1" os], simp)
      (use bind in \<open>simp add: step_listen_def ext_def settled_give_up\<close>)
qed

lemma settled_nodelay:
  assumes "held F fd s"
  shows "settled F fd s (step_nodelay os is_udp is_listening ts candidate fd s)"
proof -
  have role: "settled F fd u (step_role os is_udp is_listening ts candidate fd u)" if "held F fd u" for u
    using that by (simp add: step_role_def settled_listen settled_connect)
  show ?thesis
  proof (cases is_udp)
    case False
    then show ?thesis
      using role by (auto simp: step_nodelay_def setNoDelay_def ext_def
          intro!: settled_ext [OF assms, of "Setsockopt fd IPPROTO_TCP TCP_NODELAY 1" os] settled_give_up)
  qed (use role assms in \<open>simp add: step_nodelay_def\<close>)
qed

text \<open>A descriptor that is returned is new; otherwise nothing is left behind.\<close>

definition new_or_none :: "int set \<Rightarrow> sys \<Rightarrow> int \<times> sys \<Rightarrow> bool" where
  "new_or_none F s r \<longleftrightarrow>
     (fst r = - 1 \<and> sys_inv F (snd r) \<or>
      0 \<le> fst r \<and> fst r \<notin> F \<and> sys_inv (insert (fst r) F) (snd r)) \<and>
     epoll_set (hist (snd r)) = epoll_set (hist s)"

lemma try_candidate_fds:
  assumes os: "os_ok os" and inv: "sys_inv F s"
  shows "new_or_none F s (try_candidate os is_udp is_blocking is_listening ts candidate s)"
proof -
  let ?c = "Socket (ai_family candidate) (ai_socktype candidate) (ai_protocol candidate)"
  let ?fd = "ret (os (hist s) ?c)" and ?s1 = "after os ?c s"
  note new = ext_new_fd [OF os inv, of ?c, simplified]
  show ?thesis
  proof (cases "?fd = - 1")
    case True
    with new show ?thesis by (simp add: try_candidate_def ext_def new_or_none_def)
  next
    case False
    with new inv have h: "held F ?fd ?s1" by (auto simp: held_def sys_inv_def)
    obtain ok t where nb: "setNonBlocking os ?fd ?s1 = (ok, t)" by (meson surj_pair)
    have q: "quiet (insert ?fd F) ?s1 t" by (rule setNonBlocking_spec(1) [OF nb])
    have "settled F ?fd ?s1 (try_candidate os is_udp is_blocking is_listening ts candidate s)"
      using False h settled_nodelay [OF h] settled_quiet [OF h q] settled_nodelay [OF held_quiet [OF h q]]
        settled_give_up [OF held_quiet [OF h q]]
      by (simp add: try_candidate_def ext_def Let_def nb)
    then show ?thesis using new by (auto simp: settled_def held_def new_or_none_def)
  qed
qed

lemma try_candidates_fds:
  assumes os: "os_ok os" and inv: "sys_inv F s"
  shows "new_or_none F s (try_candidates os is_udp is_blocking is_listening ts cands s)"
  using inv
proof (induction cands arbitrary: s)
  case Nil
  then show ?case by (simp add: new_or_none_def)
next
  case (Cons c cands)
  obtain fd t where t: "try_candidate os is_udp is_blocking is_listening ts c s = (fd, t)"
    by (meson surj_pair)
  with try_candidate_fds [OF os Cons.prems, of is_udp is_blocking is_listening ts c]
  have n: "new_or_none F s (fd, t)" by simp
  show ?case
  proof (cases "fd = - 1")
    case True
    with n have "sys_inv F t" "epoll_set (hist t) = epoll_set (hist s)" by (auto simp: new_or_none_def)
    with Cons.IH True t show ?thesis by (simp add: new_or_none_def)
  qed (use n t in simp)
qed

lemma new_or_none_quiet:
  assumes "quiet F s t" "sys_inv F s" "new_or_none F t r"
  shows "new_or_none F s r"
  using assms by (simp add: quiet_def new_or_none_def)

lemma createSocket_fds:
  assumes os: "os_ok os" and inv: "sys_inv F s"
  shows "new_or_none F s (createSocket os ip iface port is_udp is_blocking is_listening ts s)"
proof -
  obtain ip' s1 where ip': "(if ip = [] then getIfaceIP os iface s else (ip, s)) = (ip', s1)"
    by (meson surj_pair)
  then have q1: "quiet F s s1" by (auto simp: getIfaceIP_quiet split: if_splits)
  then have inv1: "sys_inv F s1" using inv by (simp add: quiet_def)
  let ?g = "Getaddrinfo ip' (show_int port) (socket_hints is_udp is_listening)"
  let ?s2 = "after os ?g s1" and ?a = "os (hist s1) ?g"
  let ?s3 = "after os (Gai_strerror (ret ?a)) ?s2"
  have q2: "quiet F s1 ?s2" by (simp add: ext_quiet)
  then have inv2: "sys_inv F ?s2" using inv1 by (simp add: quiet_def)
  have "new_or_none F s1 (createSocket os ip iface port is_udp is_blocking is_listening ts s)"
  proof -
    consider (no_ip) "ip' = []" | (no_addr) "ip' \<noteq> []" "ret ?a \<noteq> 0" | (addr) "ip' \<noteq> []" "ret ?a = 0"
      by blast
    then show ?thesis
    proof cases
      case no_ip
      let ?t = "log_call (''Could not find IPv4 address for interface:%'' @ [CHR 0x0A]) [A_string iface] s1"
      have "quiet F s1 ?t" by (rule log_call_quiet) (simp add: holes_def)
      with inv1 no_ip ip' show ?thesis by (simp add: createSocket_def new_or_none_def quiet_def)
    next
      case no_addr
      let ?t = "log_call (''getaddrinfo failed:%'' @ [CHR 0x0A])
        [A_cstr (ans_text (os (hist ?s2) (Gai_strerror (ret ?a))))] ?s3"
      have "quiet F ?s3 ?t" by (rule log_call_quiet) (simp add: holes_def)
      moreover have "quiet F ?s2 ?s3" by (rule ext_quiet) simp
      ultimately have "quiet F s1 ?t" using q2 by (blast intro: quiet_trans)
      with inv1 no_addr ip' show ?thesis
        by (simp add: createSocket_def ext_def new_or_none_def
quiet_def)
    next
      case addr
      obtain fd s3 where c: "try_candidates os is_udp is_blocking is_listening ts (ans_addrs ?a) ?s2 = (fd, s3)"
        by (meson surj_pair)
      have n: "new_or_none F s1 (fd, s3)"
        using try_candidates_fds [OF os inv2, of is_udp is_blocking is_listening ts "ans_addrs ?a"]
          new_or_none_quiet [OF q2 inv1] c by simp
      have "quiet G s3 (after os Freeaddrinfo s3)" for G by (rule ext_quiet) simp
      with n addr ip' c show ?thesis
        by (auto simp: createSocket_def ext_def new_or_none_def quiet_def)
    qed
  qed
  then show ?thesis by (rule new_or_none_quiet [OF q1 inv])
qed

text \<open>
  The specification of a usable socket: the calls made on its descriptor after \<open>socket()\<close> and
  \<open>setNonBlocking\<close>, in order, each of them successful (a connection may be in progress).
\<close>

definition setup_calls :: "bool \<Rightarrow> bool \<Rightarrow> bool \<Rightarrow> addrinfo \<Rightarrow> int \<Rightarrow> ext_call list" where
  "setup_calls is_udp is_listening ts candidate fd =
     (if is_udp then [] else [Setsockopt fd IPPROTO_TCP TCP_NODELAY 1]) @
     (if is_listening
      then [Setsockopt fd SOL_SOCKET SO_REUSEADDR 1, Bind fd (ai_addr candidate)] @
           (if is_udp then [] else [Listen fd MAX_TCP_SERVER_BACKLOG])
      else [Connect fd (ai_addr candidate)]) @
     (if ts then [Setsockopt fd SOL_SOCKET SO_TIMESTAMP 1] else [])"

definition succeeded :: "ext_call \<times> answer \<Rightarrow> bool" where
  "succeeded e \<longleftrightarrow>
     (case fst e of
        Connect fd addr \<Rightarrow> ret (snd e) = 0 \<or> err (snd e) \<in> {EAGAIN, EWOULDBLOCK, EINPROGRESS}
      | _ \<Rightarrow> ret (snd e) \<noteq> - 1)"

definition grew :: "sys \<Rightarrow> sys \<Rightarrow> ext_call list \<Rightarrow> bool" where
  "grew s t cs \<longleftrightarrow> (\<exists>h. hist t = hist s @ h \<and> map fst h = cs \<and> list_all succeeded h)"

lemma grew_refl: "grew s s []"
  by (simp add: grew_def)

lemma grew_step:
  assumes "succeeded (c, os (hist s) c)" "grew (after os c s) t cs"
  shows "grew s t (c # cs)"
proof -
  obtain h where "hist t = hist (after os c s) @ h" "map fst h = cs" "list_all succeeded h"
    using assms(2) by (auto simp: grew_def)
  with assms(1) show ?thesis
    by (auto simp: grew_def intro!: exI [of _ "(c, os (hist s) c) # h"])
qed

lemma grew_timestamp:
  "step_timestamp os ts fd s = (r, t) \<Longrightarrow> r \<noteq> - 1 \<Longrightarrow>
     r = fd \<and> grew s t (if ts then [Setsockopt fd SOL_SOCKET SO_TIMESTAMP 1] else [])"
  by (auto simp: step_timestamp_def setSOTimestamp_def ext_def give_up_def succeeded_def grew_refl
      intro!: grew_step split: if_splits)

lemma grew_connect:
  assumes "os_ok os" "step_connect os ts candidate fd s = (r, t)" "r \<noteq> - 1"
  shows "r = fd \<and> grew s t (Connect fd (ai_addr candidate) #
    (if ts then [Setsockopt fd SOL_SOCKET SO_TIMESTAMP 1] else []))"
proof -
  let ?c = "Connect fd (ai_addr candidate)"
  have "ret (os (hist s) ?c) = 0 \<or> ret (os (hist s) ?c) = - 1" using os_okD [OF assms(1), of "hist s" ?c] by simp
  moreover have "\<not> (ret (os (hist s) ?c) < 0 \<and> \<not> wouldBlock (after os ?c s))"
      and rest: "step_timestamp os ts fd (after os ?c s) = (r, t)"
    using assms(2,3) by (auto simp: step_connect_def ext_def give_up_def split: if_splits)
  ultimately have "succeeded (?c, os (hist s) ?c)"
    by (auto simp: succeeded_def wouldBlock_def)
  then show ?thesis using grew_timestamp [OF rest assms(3)] grew_step by blast
qed

lemma grew_listen:
  assumes "step_listen os is_udp ts candidate fd s = (r, t)" "r \<noteq> - 1"
  shows "r = fd \<and> grew s t ([Setsockopt fd SOL_SOCKET SO_REUSEADDR 1, Bind fd (ai_addr candidate)] @
    (if is_udp then [] else [Listen fd MAX_TCP_SERVER_BACKLOG]) @
    (if ts then [Setsockopt fd SOL_SOCKET SO_TIMESTAMP 1] else []))"
proof -
  let ?s1 = "after os (Setsockopt fd SOL_SOCKET SO_REUSEADDR 1) s"
  let ?s2 = "after os (Bind fd (ai_addr candidate)) ?s1"
  let ?s3 = "if is_udp then ?s2 else after os (Listen fd MAX_TCP_SERVER_BACKLOG) ?s2"
  have ok: "ret (os (hist s) (Setsockopt fd SOL_SOCKET SO_REUSEADDR 1)) \<noteq> - 1"
      "ret (os (hist ?s1) (Bind fd (ai_addr candidate))) \<noteq> - 1"
      "\<not> is_udp \<Longrightarrow> ret (os (hist ?s2) (Listen fd MAX_TCP_SERVER_BACKLOG)) \<noteq> - 1"
      and rest: "step_timestamp os ts fd ?s3 = (r, t)"
    using assms by (auto simp: step_listen_def ext_def give_up_def split: if_splits)
  have "grew ?s2 t ((if is_udp then [] else [Listen fd MAX_TCP_SERVER_BACKLOG]) @
    (if ts then [Setsockopt fd SOL_SOCKET SO_TIMESTAMP 1] else []))"
    using grew_timestamp [OF rest assms(2)] ok(3) by (auto simp: succeeded_def intro: grew_step)
  then show ?thesis
    using grew_timestamp [OF rest assms(2)] ok(1,2) by (simp add: succeeded_def grew_step)
qed

lemma grew_nodelay:
  assumes "os_ok os" "step_nodelay os is_udp is_listening ts candidate fd s = (r, t)" "r \<noteq> - 1"
  shows "r = fd \<and> grew s t (setup_calls is_udp is_listening ts candidate fd)"
proof -
  let ?c = "Setsockopt fd IPPROTO_TCP TCP_NODELAY 1"
  let ?s1 = "if is_udp then s else after os ?c s"
  have ok: "\<not> is_udp \<Longrightarrow> ret (os (hist s) ?c) \<noteq> - 1"
    and rest: "step_role os is_udp is_listening ts candidate fd ?s1 = (r, t)"
    using assms(2,3) by (auto simp: step_nodelay_def setNoDelay_def ext_def give_up_def split: if_splits)
  have "r = fd \<and> grew ?s1 t (if is_listening
      then [Setsockopt fd SOL_SOCKET SO_REUSEADDR 1, Bind fd (ai_addr candidate)] @
           (if is_udp then [] else [Listen fd MAX_TCP_SERVER_BACKLOG]) @
           (if ts then [Setsockopt fd SOL_SOCKET SO_TIMESTAMP 1] else [])
      else Connect fd (ai_addr candidate) #
           (if ts then [Setsockopt fd SOL_SOCKET SO_TIMESTAMP 1] else []))"
    using rest grew_listen [OF _ assms(3)] grew_connect [OF assms(1) _ assms(3)]
    by (cases is_listening) (simp_all add: step_role_def)
  with ok show ?thesis by (cases is_udp) (auto simp: setup_calls_def succeeded_def intro: grew_step)
qed

text \<open>A usable descriptor, read off the history from its \<open>socket()\<close> call on.\<close>

definition usable :: "bool \<Rightarrow> bool \<Rightarrow> bool \<Rightarrow> bool \<Rightarrow> addrinfo \<Rightarrow> int \<Rightarrow> history \<Rightarrow> bool" where
  "usable is_udp is_blocking is_listening ts candidate fd h \<longleftrightarrow>
     (\<exists>a nb cfg.
        h = (Socket (ai_family candidate) (ai_socktype candidate) (ai_protocol candidate), a) # nb @ cfg \<and>
        ret a = fd \<and> (if is_blocking then nb = [] else nonblocking_set fd nb) \<and>
        map fst cfg = setup_calls is_udp is_listening ts candidate fd \<and> list_all succeeded cfg)"

lemma try_candidate_usable:
  assumes os: "os_ok os" and "try_candidate os is_udp is_blocking is_listening ts candidate s = (fd, t)" "fd \<noteq> - 1"
  shows "\<exists>h. hist t = hist s @ h \<and> usable is_udp is_blocking is_listening ts candidate fd h"
proof -
  let ?c = "Socket (ai_family candidate) (ai_socktype candidate) (ai_protocol candidate)"
  let ?a = "os (hist s) ?c" and ?s1 = "after os ?c s"
  obtain ok u where nb: "setNonBlocking os (ret ?a) ?s1 = (ok, u)" by (meson surj_pair)
  define v where "v = (if is_blocking then ?s1 else u)"
  have v: "step_nodelay os is_udp is_listening ts candidate (ret ?a) v = (fd, t)" "is_blocking \<or> ok"
    using assms(2,3) nb by (auto simp: try_candidate_def ext_def Let_def give_up_def v_def split: if_splits)
  then have fd: "fd = ret ?a" and cfg: "grew v t (setup_calls is_udp is_listening ts candidate fd)"
    using grew_nodelay [OF os v(1) assms(3)] by simp_all
  have "\<exists>n. hist v = hist ?s1 @ n \<and> (if is_blocking then n = [] else nonblocking_set fd n)"
    using setNonBlocking_spec(2) [OF nb] v(2) fd by (cases is_blocking) (auto simp: v_def)
  then obtain n h where nh: "hist t = hist s @ (?c, ?a) # n @ h" "if is_blocking then n = [] else nonblocking_set fd n"
      "map fst h = setup_calls is_udp is_listening ts candidate fd" "list_all succeeded h"
    using cfg by (auto simp: grew_def)
  then have "usable is_udp is_blocking is_listening ts candidate fd ((?c, ?a) # n @ h)"
    unfolding usable_def using fd by blast
  with nh(1) show ?thesis by blast
qed

lemma try_candidates_usable:
  assumes os: "os_ok os" and "try_candidates os is_udp is_blocking is_listening ts cands s = (fd, t)" "fd \<noteq> - 1"
  shows "\<exists>candidate \<in> set cands. \<exists>pre h. hist t = hist s @ pre @ h \<and>
    usable is_udp is_blocking is_listening ts candidate fd h"
proof -
  have ext: "\<exists>pre. hist u = hist s @ pre"
    if "try_candidate os is_udp is_blocking is_listening ts c s = (r, u)" for c s r u
    using that
    by (auto simp: try_candidate_def ext_def Let_def give_up_def setNonBlocking_def step_nodelay_def
        setNoDelay_def step_role_def step_listen_def step_connect_def step_timestamp_def
        setSOTimestamp_def split: if_splits)
  show ?thesis
    using assms(2)
  proof (induction cands arbitrary: s)
    case Nil
    with assms(3) show ?case by simp
  next
    case (Cons c cands)
    obtain r u where c: "try_candidate os is_udp is_blocking is_listening ts c s = (r, u)"
      by (meson surj_pair)
    show ?case
    proof (cases "r = - 1")
      case True
      obtain pre where pre: "hist u = hist s @ pre" using ext [OF c] by blast
      have "try_candidates os is_udp is_blocking is_listening ts cands u = (fd, t)"
        using True Cons.prems c by simp
      from Cons.IH [OF this] obtain cand pre' h where "cand \<in> set cands" "hist t = hist u @ pre' @ h"
          "usable is_udp is_blocking is_listening ts cand fd h" by blast
      with pre have "hist t = hist s @ (pre @ pre') @ h" "cand \<in> set (c # cands)" by simp_all
      with \<open>usable is_udp is_blocking is_listening ts cand fd h\<close> show ?thesis by blast
    next
      case False
      with Cons.prems c have "r = fd" "u = t" by simp_all
      with try_candidate_usable [OF os c False] show ?thesis by (force intro: exI [of _ "[]"])
    qed
  qed
qed

text \<open>A candidate that was given up: the calls made for it, from its \<open>socket()\<close> call on, with one
  that failed.\<close>

definition failing :: "history \<Rightarrow> bool" where
  "failing h \<longleftrightarrow> (\<exists>e \<in> set h. \<not> succeeded e \<and> (\<forall>fd. fst e \<noteq> Close fd))"

definition failed_attempt :: "addrinfo \<Rightarrow> history \<Rightarrow> bool" where
  "failed_attempt candidate h \<longleftrightarrow> failing h \<and>
     (\<exists>a h'. h = (Socket (ai_family candidate) (ai_socktype candidate) (ai_protocol candidate), a) # h')"

lemma failing_simps [simp]:
  "failing [] = False"
  "failing (e # h) = ((\<not> succeeded e \<and> (\<forall>fd. fst e \<noteq> Close fd)) \<or> failing h)"
  "failing (h @ h') = (failing h \<or> failing h')"
  by (auto simp: failing_def)

lemma succeeded_simps [simp]:
  "succeeded (Socket f t p, a) = (ret a \<noteq> - 1)" "succeeded (Fcntl_getfl fd, a) = (ret a \<noteq> - 1)"
  "succeeded (Fcntl_setfl fd n, a) = (ret a \<noteq> - 1)" "succeeded (Setsockopt fd l n v, a) = (ret a \<noteq> - 1)"
  "succeeded (Bind fd ad, a) = (ret a \<noteq> - 1)" "succeeded (Listen fd n, a) = (ret a \<noteq> - 1)"
  by (simp_all add: succeeded_def)

lemma failing_timestamp:
  "step_timestamp os ts fd s = (- 1, t) \<Longrightarrow> fd \<noteq> - 1 \<Longrightarrow> \<exists>h. hist t = hist s @ h \<and> failing h"
  by (auto simp: step_timestamp_def setSOTimestamp_def ext_def give_up_def split: if_splits)

lemma failing_connect:
  assumes "os_ok os" "step_connect os ts candidate fd s = (- 1, t)" "fd \<noteq> - 1"
  shows "\<exists>h. hist t = hist s @ h \<and> failing h"
proof -
  let ?c = "Connect fd (ai_addr candidate)"
  have ret: "ret (os (hist s) ?c) = 0 \<or> ret (os (hist s) ?c) = - 1"
    using os_okD [OF assms(1), of "hist s" ?c] by simp
  show ?thesis
  proof (cases "ret (os (hist s) ?c) < 0 \<and> \<not> wouldBlock (after os ?c s)")
    case True
    with ret assms(2) show ?thesis
      by (auto simp: step_connect_def ext_def give_up_def succeeded_def wouldBlock_def)
  next
    case False
    then have "step_timestamp os ts fd (after os ?c s) = (- 1, t)"
      using assms(2) by (auto simp: step_connect_def ext_def split: if_splits)
    from failing_timestamp [OF this assms(3)] show ?thesis by auto
  qed
qed

lemma failing_listen:
  "step_listen os is_udp ts candidate fd s = (- 1, t) \<Longrightarrow> fd \<noteq> - 1 \<Longrightarrow> \<exists>h. hist t = hist s @ h \<and> failing h"
  by (auto simp: step_listen_def ext_def give_up_def split: if_splits dest!: failing_timestamp)

lemma failing_nodelay:
  assumes "os_ok os" "step_nodelay os is_udp is_listening ts candidate fd s = (- 1, t)" "fd \<noteq> - 1"
  shows "\<exists>h. hist t = hist s @ h \<and> failing h"
  using assms
  by (auto simp: step_nodelay_def step_role_def setNoDelay_def ext_def give_up_def split: if_splits
      dest!: failing_listen failing_connect [OF assms(1)])

lemma failing_candidate:
  assumes "os_ok os" "try_candidate os is_udp is_blocking is_listening ts candidate s = (- 1, t)"
  shows "\<exists>h. hist t = hist s @ h \<and> failed_attempt candidate h"
proof -
  let ?c = "Socket (ai_family candidate) (ai_socktype candidate) (ai_protocol candidate)"
  let ?a = "os (hist s) ?c" and ?s1 = "after os ?c s"
  have "\<exists>h. hist t = hist ?s1 @ h \<and> (ret ?a = - 1 \<or> failing h)"
  proof (cases "ret ?a = - 1")
    case True
    then show ?thesis using assms(2) by (simp add: try_candidate_def ext_def)
  next
    case False
    obtain ok u where nb: "setNonBlocking os (ret ?a) ?s1 = (ok, u)" by (meson surj_pair)
    obtain n where n: "hist u = hist ?s1 @ n" "\<not> ok \<longrightarrow> failing n"
      using nb by (auto simp: setNonBlocking_def ext_def Let_def split: if_splits)
    define v where "v = (if is_blocking then ?s1 else u)"
    have "step_nodelay os is_udp is_listening ts candidate (ret ?a) v = (- 1, t) \<or>
        \<not> is_blocking \<and> \<not> ok \<and> t = after os (Close (ret ?a)) u"
      using assms(2) False nb by (auto simp: v_def try_candidate_def ext_def give_up_def Let_def split: if_splits)
    then show ?thesis
    proof
      assume "step_nodelay os is_udp is_listening ts candidate (ret ?a) v = (- 1, t)"
      from failing_nodelay [OF assms(1) this False] n(1) show ?thesis by (auto simp: v_def split: if_splits)
    qed (use n in auto)
  qed
  then show ?thesis by (auto simp: failed_attempt_def)
qed

lemma failing_candidates:
  assumes "os_ok os" "try_candidates os is_udp is_blocking is_listening ts cands s = (- 1, t)"
  shows "\<exists>hs. hist t = hist s @ concat hs \<and> list_all2 failed_attempt cands hs"
  using assms(2)
proof (induction cands arbitrary: s)
  case (Cons c cands)
  then obtain u where c: "try_candidate os is_udp is_blocking is_listening ts c s = (- 1, u)"
      "try_candidates os is_udp is_blocking is_listening ts cands u = (- 1, t)"
    by (auto simp: Let_def split: prod.splits if_splits)
  from failing_candidate [OF assms(1) c(1)] Cons.IH [OF c(2)] obtain h hs where
    "hist u = hist s @ h" "failed_attempt c h" "hist t = hist u @ concat hs" "list_all2 failed_attempt cands hs"
    by blast
  then show ?case by (intro exI [of _ "h # hs"]) simp
qed simp

section \<open>A concrete system\<close>

text \<open>
  A small system to run the components on: new descriptors count up, one client connects, every
  receive delivers two bytes with a time stamp, \<open>send\<close> takes at most three bytes at a time, and
  \<open>epoll_wait\<close> reports the newest registration as readable.
\<close>

definition result :: "int \<Rightarrow> int \<Rightarrow> answer" where
  "result r e = \<lparr>ret = r, err = e, ans_text = [], ans_ifaddrs = [], ans_addrs = [], ans_bytes = [],
     ans_cmsgs = [], ans_name = None, ans_events = []\<rparr>"

definition fresh_fd :: "history \<Rightarrow> int" where
  "fresh_fd h = fold max (open_fds h) 2 + 1"

definition loopback :: sockaddr_in where
  "loopback = \<lparr>sin_family = AF_INET, sin_port = 8080, s_addr = 16777343\<rparr>"

fun test_os :: os where
  "test_os h Getifaddrs = (result 0 0)\<lparr>ans_ifaddrs := [\<lparr>ifa_name = ''lo'', ifa_addr = Some loopback\<rparr>]\<rparr>"
| "test_os h (Getnameinfo a f) = (result 0 0)\<lparr>ans_text := ''127.0.0.1''\<rparr>"
| "test_os h (Getaddrinfo ip p hints) = (result 0 0)\<lparr>ans_addrs := [hints\<lparr>ai_addr := loopback\<rparr>]\<rparr>"
| "test_os h (Socket f t p) = result (fresh_fd h) 0"
| "test_os h (Epoll_create1 f) = result (fresh_fd h) 0"
| "test_os h (Accept l) =
     (if \<exists>(c, a) \<in> set h. c = Accept l \<and> ret a \<ge> 0 then result (- 1) EAGAIN else result (fresh_fd h) 0)"
| "test_os h (Recvmsg fd n) =
     (if n < 2 then result (- 1) EAGAIN
      else (result 2 0)\<lparr>ans_bytes := [104, 105],
             ans_cmsgs := [\<lparr>cmsg_level = SOL_SOCKET, cmsg_type = SO_TIMESTAMP, tv_sec = 5, tv_usec = 7\<rparr>]\<rparr>)"
| "test_os h (Send fd bs) = result (int (min 3 (length bs))) 0"
| "test_os h (Epoll_ctl_add e fd m p) =
     (if e \<in> set (open_fds h) \<and> fd \<in> set (open_fds h) \<and>
         \<not> (\<exists>(e', fd', p') \<in> set (epoll_set h). e' = e \<and> fd' = fd)
      then result 0 0 else result (- 1) 17)"
| "test_os h (Epoll_wait e n t) =
     (case filter (\<lambda>(e', fd, p). e' = e) (epoll_set h) of
        (e', fd, p) # rs \<Rightarrow>
          if 1 \<le> n then (result 1 0)\<lparr>ans_events := [\<lparr>ev_events = 1, ev_ptr = p\<rparr>]\<rparr>
          else result (- 1) EINTR
      | [] \<Rightarrow> result (- 1) EINTR)"
| "test_os h c = result 0 0"

lemma result_simps [simp]:
  "ret (result r e) = r" "err (result r e) = e" "ans_bytes (result r e) = []"
  "ans_cmsgs (result r e) = []" "ans_events (result r e) = []" "ans_addrs (result r e) = []"
  "ans_text (result r e) = []" "ans_ifaddrs (result r e) = []" "ans_name (result r e) = None"
  by (simp_all add: result_def)

lemma fold_max_ge: "x \<in> set xs \<or> x \<le> b \<Longrightarrow> x \<le> fold max xs b" for b :: int
  by (induction xs arbitrary: b) (auto simp: le_max_iff_disj)

lemma fresh_fd_new: "0 \<le> fresh_fd h" "fresh_fd h \<notin> set (open_fds h)"
  using fold_max_ge [of "fresh_fd h" "open_fds h" 2] fold_max_ge [of 0 "open_fds h" 2]
  by (auto simp: fresh_fd_def)

lemma test_os_ok: "os_ok test_os"
  unfolding os_ok_def
proof (intro allI)
  fix h c
  show "valid_answer h c (test_os h c)"
  proof (cases c)
    case (Epoll_wait e n t)
    show ?thesis
    proof (cases "filter (\<lambda>(e', fd, p). e' = e) (epoll_set h)")
      case Nil
      then show ?thesis
        using Epoll_wait by (simp add: EINTR_def)
    next
      case (Cons r rs)
      obtain e' fd p where r: "r = (e', fd, p)" by (cases r)
      have "r \<in> set (filter (\<lambda>(e', fd, p). e' = e) (epoll_set h))" by (simp add: Cons)
      then have "r \<in> set (epoll_set h)" "e' = e" by (auto simp: r)
      then show ?thesis using Epoll_wait Cons r by force
    qed
  qed (use fresh_fd_new [of h] in \<open>auto simp: valid_timeval_def\<close>)
qed

definition sys_start :: sys where
  "sys_start = \<lparr>hist = [], errno = 0, logs = [], out_text = [], err_text = []\<rparr>"

lemma sys_start_inv: "sys_inv {} sys_start"
  by (simp add: sys_inv_def sys_start_def open_fds_def epoll_set_def closes_ok_def)

section \<open>Properties\<close>

text \<open>
  Property C22. \<open>createSocket\<close> leaks no descriptor and closes none that is not its own, on every
  path through the candidate loop: it returns -1 and leaves the open descriptors as they were,
  or returns one new descriptor, the only one that is open in addition. Its log calls match
  their formats.
\<close>

theorem createSocket_no_leak:
  assumes "os_ok os" "sys_inv F s"
    and "createSocket os ip iface port is_udp is_blocking is_listening ts s = (fd, t)"
  shows "fd = - 1 \<and> sys_inv F t \<or> 0 \<le> fd \<and> fd \<notin> F \<and> sys_inv (insert fd F) t"
  using createSocket_fds [OF assms(1,2), of ip iface port is_udp is_blocking is_listening ts] assms(3)
  by (simp add: new_or_none_def)

theorem createSocket_no_leak_witness:
  "\<exists>fd t. createSocket test_os ''127.0.0.1'' '''' 8080 False False True True sys_start = (fd, t) \<and>
     (fd = - 1 \<and> sys_inv {} t \<or> 0 \<le> fd \<and> fd \<notin> {} \<and> sys_inv (insert fd {}) t)"
  using createSocket_no_leak [OF test_os_ok sys_start_inv] by (meson surj_pair)

lemma createSocket_ready:
  assumes "os_ok os" "fd \<noteq> - 1"
    and "createSocket os ip iface port is_udp is_blocking is_listening ts s = (fd, t)"
  shows "\<exists>candidate pre h a. hist t = pre @ h @ [(Freeaddrinfo, a)] \<and>
           usable is_udp is_blocking is_listening ts candidate fd h"
proof -
  obtain ip' s1 where ip': "(if ip = [] then getIfaceIP os iface s else (ip, s)) = (ip', s1)"
    by (meson surj_pair)
  let ?g = "Getaddrinfo ip' (show_int port) (socket_hints is_udp is_listening)"
  obtain r u where c: "try_candidates os is_udp is_blocking is_listening ts
      (ans_addrs (os (hist s1) ?g)) (after os ?g s1) = (r, u)" by (meson surj_pair)
  have "r = fd" "t = after os Freeaddrinfo u"
    using assms(2,3) ip' c by (auto simp: createSocket_def ext_def split: if_splits)
  with try_candidates_usable [OF assms(1) c] assms(2) obtain candidate pre h where
    "hist u = hist (after os ?g s1) @ pre @ h" "usable is_udp is_blocking is_listening ts candidate fd h"
    by blast
  then have "hist t = (hist (after os ?g s1) @ pre) @ h @ [(Freeaddrinfo, os (hist u) Freeaddrinfo)]"
    using \<open>t = after os Freeaddrinfo u\<close> by simp
  with \<open>usable is_udp is_blocking is_listening ts candidate fd h\<close> show ?thesis by blast
qed

text \<open>
  Property C23. A descriptor that \<open>createSocket\<close> returns is ready for use: it comes from a
  candidate of \<open>getaddrinfo\<close>, it was made non-blocking if asked for, and every set-up call its
  kind needs (no-delay for TCP; address reuse, bind and, for TCP, listen for a listener; a
  connection made or in progress for a client; time stamps if asked for) was made on it, in
  this order and successfully.
\<close>

theorem createSocket_usable:
  assumes "os_ok os" "fd \<noteq> - 1"
    and "createSocket os ip iface port is_udp is_blocking is_listening ts s = (fd, t)"
  shows "\<exists>candidate pre h a. hist t = pre @ h @ [(Freeaddrinfo, a)] \<and>
           usable is_udp is_blocking is_listening ts candidate fd h"
  using assms by (rule createSocket_ready)

lemmas createSocket_unfold = createSocket_def getIfaceIP_def setNonBlocking_def setNoDelay_def
  setSOTimestamp_def step_nodelay_def step_role_def step_listen_def step_connect_def
  step_timestamp_def try_candidate_def give_up_def wouldBlock_def ext_def after_def Let_def

lemma createSocket_test_run:
  "\<exists>t. createSocket test_os ''127.0.0.1'' '''' 8080 False False True True sys_start = (3, t)"
  by (simp add: createSocket_unfold sys_start_def fresh_fd_def open_fds_def O_NONBLOCK_def result_def)

theorem createSocket_usable_witness:
  "\<exists>t candidate pre h a. hist t = pre @ h @ [(Freeaddrinfo, a)] \<and>
     createSocket test_os ''127.0.0.1'' '''' 8080 False False True True sys_start = (3, t) \<and>
     usable False False True True candidate 3 h"
proof -
  obtain t where t: "createSocket test_os ''127.0.0.1'' '''' 8080 False False True True sys_start = (3, t)"
    using createSocket_test_run by blast
  moreover have "(3 :: int) \<noteq> - 1" by simp
  ultimately show ?thesis using createSocket_usable [OF test_os_ok _ t] by blast
qed

text \<open>
  Property C30. \<open>createSocket\<close> returns -1 only for a reason: there is no address for the interface,
  or \<open>getaddrinfo\<close> failed (each after exactly one log message that names the cause), or every
  candidate that \<open>getaddrinfo\<close> gave was tried in turn, and for each of them its \<open>socket()\<close> call or
  one of the set-up calls that followed failed.
\<close>

theorem createSocket_gives_up:
  assumes "os_ok os" "createSocket os ip iface port is_udp is_blocking is_listening ts s = (- 1, t)"
    and "(if ip = [] then getIfaceIP os iface s else (ip, s)) = (ip', s1)"
    and "g = Getaddrinfo ip' (show_int port) (socket_hints is_udp is_listening)" "a = os (hist s1) g"
  shows "if ip' = []
         then t = log_call (''Could not find IPv4 address for interface:%'' @ [CHR 0x0A]) [A_string iface] s1
         else if ret a \<noteq> 0
         then \<exists>m. hist t = hist s1 @ [(g, a), (Gai_strerror (ret a), m)] \<and>
           logs t = logs s1 @ [(''getaddrinfo failed:%'' @ [CHR 0x0A], [A_cstr (ans_text m)])]
         else \<exists>hs b. hist t = hist s1 @ (g, a) # concat hs @ [(Freeaddrinfo, b)] \<and>
           list_all2 failed_attempt (ans_addrs a) hs"
proof (cases "ip' = [] \<or> ret a \<noteq> 0")
  case True
  with assms(2-5) show ?thesis by (auto simp: createSocket_def ext_def log_call_def)
next
  case False
  then obtain u where "try_candidates os is_udp is_blocking is_listening ts (ans_addrs a) (after os g s1) = (- 1, u)"
      "t = after os Freeaddrinfo u"
    using assms(2-5) by (auto simp: createSocket_def ext_def split: prod.splits)
  with failing_candidates [OF assms(1)] assms(5) False show ?thesis by fastforce
qed

text \<open>A system on which every connection is refused.\<close>

definition refusing_os :: os where
  "refusing_os h c = (case c of Connect fd addr \<Rightarrow> result (- 1) 111 | _ \<Rightarrow> test_os h c)"

lemma refusing_os_ok: "os_ok refusing_os"
proof -
  have "valid_answer h c (refusing_os h c)" for h c
    using os_okD [OF test_os_ok, of h c] by (cases c) (auto simp: refusing_os_def)
  then show ?thesis by (simp add: os_ok_def)
qed

lemma createSocket_refused_run:
  "\<exists>t. createSocket refusing_os ''127.0.0.1'' [] 8080 False False False True sys_start = (- 1, t)"
  by (simp add: createSocket_unfold refusing_os_def sys_start_def fresh_fd_def open_fds_def O_NONBLOCK_def
      result_def EAGAIN_def EWOULDBLOCK_def EINPROGRESS_def)

theorem createSocket_gives_up_witness:
  "\<exists>t h b. createSocket refusing_os ''127.0.0.1'' [] 8080 False False False True sys_start = (- 1, t) \<and>
     hist t = (Getaddrinfo ''127.0.0.1'' (show_int 8080) (socket_hints False False),
         refusing_os [] (Getaddrinfo ''127.0.0.1'' (show_int 8080) (socket_hints False False))) #
       h @ [(Freeaddrinfo, b)] \<and>
     failed_attempt ((socket_hints False False)\<lparr>ai_addr := loopback\<rparr>) h"
proof -
  obtain t where t: "createSocket refusing_os ''127.0.0.1'' [] 8080 False False False True sys_start = (- 1, t)"
    using createSocket_refused_run by blast
  then show ?thesis
    using createSocket_gives_up [OF refusing_os_ok t _ refl refl, of "''127.0.0.1''" sys_start]
    by (auto simp: refusing_os_def sys_start_def list_all2_Cons1)
qed

text \<open>
  \<open>setNonBlocking\<close> keeps the other status flags: it fails exactly when one of its
  calls fails, makes no change when the flag is already set, and otherwise sets exactly the
  flags it read plus \<open>O_NONBLOCK\<close>.
\<close>

lemma setNonBlocking_keeps_flags:
  "map fst (hist (snd (setNonBlocking os fd s))) = map fst (hist s) @ Fcntl_getfl fd #
     (let flags = ret (os (hist s) (Fcntl_getfl fd)) in
        if flags = - 1 \<or> flags AND O_NONBLOCK \<noteq> 0 then [] else [Fcntl_setfl fd (flags OR O_NONBLOCK)]) \<and>
   (fst (setNonBlocking os fd s) \<longleftrightarrow>
      (\<exists>h. hist (snd (setNonBlocking os fd s)) = hist s @ h \<and> nonblocking_set fd h))"
proof -
  obtain ok t where r: "setNonBlocking os fd s = (ok, t)" by (meson surj_pair)
  have "map fst (hist t) = map fst (hist s) @ Fcntl_getfl fd #
     (let flags = ret (os (hist s) (Fcntl_getfl fd)) in
        if flags = - 1 \<or> flags AND O_NONBLOCK \<noteq> 0 then [] else [Fcntl_setfl fd (flags OR O_NONBLOCK)])"
    using r by (auto simp: setNonBlocking_def ext_def Let_def split: if_splits)
  moreover have "\<not> ok \<Longrightarrow> \<not> (\<exists>h. hist t = hist s @ h \<and> nonblocking_set fd h)"
    using r by (auto simp: setNonBlocking_def ext_def Let_def nonblocking_set_def split: if_splits)
  ultimately show ?thesis using setNonBlocking_spec(2) [OF r] r by auto
qed

text \<open>
  \<open>getIfaceIP\<close> gives the numeric address of the first entry of the interface list
  that has an IPv4 address and the given name, the empty string when there is none or its
  conversion fails, and it releases the list whenever it got one.
\<close>

lemma getIfaceIP_first_match:
  assumes "iface \<noteq> []" "a = os (hist s) Getifaddrs" "ret a \<noteq> - 1"
  shows "\<exists>s2 h b. getIfaceIP os iface s =
           ((case List.find (\<lambda>i. ifa_name i = iface \<and> (\<exists>addr. ifa_addr i = Some addr \<and> sin_family addr = AF_INET))
                    (ans_ifaddrs a) of
               None \<Rightarrow> ''''
             | Some i \<Rightarrow>
                 let r = os (hist s @ [(Getifaddrs, a)]) (Getnameinfo (the (ifa_addr i)) NI_NUMERICHOST)
                 in if ret r \<noteq> 0 then '''' else ans_text r), s2) \<and>
         hist s2 = hist s @ (Getifaddrs, a) # h @ [(Freeifaddrs, b)] \<and>
         Freeifaddrs \<notin> fst ` set h"
proof -
  let ?P = "\<lambda>i. ifa_name i = iface \<and> (\<exists>addr. ifa_addr i = Some addr \<and> sin_family addr = AF_INET)"
  have loop: "\<exists>u h. find_iface os iface l s1 =
      ((case List.find ?P l of None \<Rightarrow> '''' | Some i \<Rightarrow>
          let r = os (hist s1) (Getnameinfo (the (ifa_addr i)) NI_NUMERICHOST)
          in if ret r \<noteq> 0 then '''' else ans_text r), u) \<and>
      hist u = hist s1 @ h \<and> Freeifaddrs \<notin> fst ` set h" for l s1
  proof (induction l)
    case (Cons i l)
    then show ?case by (cases "ifa_addr i") (auto simp: ext_def Let_def)
  qed simp
  from loop [of "ans_ifaddrs a" "after os Getifaddrs s", unfolded after_simps(1)] assms(1,3) show ?thesis
    unfolding assms(2) by (auto simp: getIfaceIP_def ext_def)
qed

end
