(* ===== verification/TCP_Socket.thy ===== *)
theory TCP_Socket
  imports Socket_Utils
begin

text \<open>
  \<open>TCPSocket\<close> of \<open>include/tcp_socket.hpp\<close> and \<open>src/tcp_socket.cpp\<close>: a descriptor with a send
  and a receive buffer of fixed size.

  \<^item> The buffers are lists of bytes; every copy into or out of them goes through \<open>mem_write\<close>
    and \<open>mem_read\<close>, which fault outside the block. A null pointer is the empty block.
  \<^item> \<open>recv_callback_\<close> is one of the two callbacks the sources install or an application's
    (\<open>callback\<close>); the application's is a parameter, with the contract \<open>receive_callback\<close>.
  \<^item> \<open>sendAndRecv\<close> is the whole method: the receive attempt with its time stamp and callback,
    the send loop, and the move of the unsent bytes to the front. The loop has fuel for one
    byte per round, which is enough because every round that continues sends at least one.
\<close>

section \<open>The socket\<close>

definition TCP_BUFFER_SIZE :: size_t where "TCP_BUFFER_SIZE = 64 * 1024"

datatype callback = Default_callback | Server_callback | App_callback

record tcp_socket =
  fd :: int
  send_buffer :: "byte list"
  next_send_valid_index :: size_t
  rcv_buffer :: "byte list"
  next_rcv_valid_index :: size_t
  send_disconnected :: bool
  recv_disconnected :: bool
  in_addr :: sockaddr_in
  recv_callback :: callback

definition no_addr :: sockaddr_in where
  "no_addr = \<lparr>sin_family = 0, sin_port = 0, s_addr = 0\<rparr>"

text \<open>The contents of the two new blocks are whatever the allocator returns.\<close>

definition TCPSocket :: "byte list \<Rightarrow> byte list \<Rightarrow> tcp_socket" where
  "TCPSocket block1 block2 =
     \<lparr>fd = - 1, send_buffer = block1, next_send_valid_index = 0, rcv_buffer = block2,
      next_rcv_valid_index = 0, send_disconnected = False, recv_disconnected = False,
      in_addr = no_addr, recv_callback = Default_callback\<rparr>"

definition destroy :: "os \<Rightarrow> tcp_socket \<Rightarrow> sys \<Rightarrow> tcp_socket \<times> sys" where
  "destroy os sock s =
     (let (sock1, s1) = (if fd sock \<ge> 0 then (sock\<lparr>fd := - 1\<rparr>, snd (ext os (Close (fd sock)) s))
                         else (sock, s))
      in (sock1\<lparr>next_send_valid_index := 0, next_rcv_valid_index := 0,
               send_disconnected := False, recv_disconnected := False, in_addr := no_addr\<rparr>, s1))"

definition TCPSocket_dtor :: "os \<Rightarrow> tcp_socket \<Rightarrow> sys \<Rightarrow> tcp_socket \<times> sys" where
  "TCPSocket_dtor os sock s =
     (let (sock1, s1) = destroy os sock s in (sock1\<lparr>send_buffer := [], rcv_buffer := []\<rparr>, s1))"

definition htons :: "16 word \<Rightarrow> 16 word" where
  "htons w = push_bit 8 w OR drop_bit 8 w"

definition connect ::
    "os \<Rightarrow> string \<Rightarrow> string \<Rightarrow> int \<Rightarrow> bool \<Rightarrow> tcp_socket \<Rightarrow> sys \<Rightarrow> int \<times> tcp_socket \<times> sys" where
  "connect os ip iface port is_listening sock s =
     (let (sock1, s1) = destroy os sock s;
          (f, s2) = createSocket os ip iface port False False is_listening True s1;
          sock2 = sock1\<lparr>fd := f,
                        in_addr := \<lparr>sin_family = AF_INET, sin_port = htons (word_of_int port), s_addr = 0\<rparr>\<rparr>
      in (fd sock2, sock2, s2))"

section \<open>Buffers\<close>

definition mem_read :: "nat \<Rightarrow> nat \<Rightarrow> byte list \<Rightarrow> byte list outcome" where
  "mem_read off n block =
     (if off + n \<le> length block then Inr (take n (drop off block))
      else Inl (UndefinedBehaviour ''read outside buffer''))"

definition mem_write :: "nat \<Rightarrow> byte list \<Rightarrow> byte list \<Rightarrow> byte list outcome" where
  "mem_write off bs block =
     (if off + length bs \<le> length block then Inr (take off block @ bs @ drop (off + length bs) block)
      else Inl (UndefinedBehaviour ''write outside buffer''))"

text \<open>\<open>send\<close>: \<open>data\<close> is the memory at the pointer, \<open>None\<close> for a null pointer.\<close>

definition send :: "byte list option \<Rightarrow> size_t \<Rightarrow> tcp_socket \<Rightarrow> (bool \<times> tcp_socket) outcome" where
  "send data len sock =
     (if len = 0 then Inr (True, sock)
      else case data of
        None \<Rightarrow> Inr (False, sock)
      | Some p \<Rightarrow>
          if next_send_valid_index sock > TCP_BUFFER_SIZE \<or>
             len > TCP_BUFFER_SIZE - next_send_valid_index sock
          then Inr (False, sock)
          else obind (mem_read 0 (unat len) p) (\<lambda>bs.
               obind (mem_write (unat (next_send_valid_index sock)) bs (send_buffer sock)) (\<lambda>block.
                 Inr (True, sock\<lparr>send_buffer := block,
                                 next_send_valid_index := next_send_valid_index sock + len\<rparr>))))"

section \<open>Callbacks\<close>

type_synonym receiver = "tcp_socket \<Rightarrow> Nanos \<Rightarrow> sys \<Rightarrow> (tcp_socket \<times> sys) outcome"

definition callback_args :: "tcp_socket \<Rightarrow> Nanos \<Rightarrow> log_arg list" where
  "callback_args sock rx_time =
     [A_int (word_of_int (fd sock)), A_unsigned_long (next_rcv_valid_index sock),
      A_long (word_of_int rx_time)]"

definition default_callback :: receiver where
  "default_callback sock rx_time s =
     Inr (sock\<lparr>next_rcv_valid_index := 0\<rparr>,
          log_call (''Default recv callback socket:% len:% rx:%'' @ [CHR 0x0A]) (callback_args sock rx_time) s)"

definition server_callback :: receiver where
  "server_callback sock rx_time s =
     Inr (sock, log_call (''TCPServer recv socket:% len:% rx:%'' @ [CHR 0x0A]) (callback_args sock rx_time) s)"

definition run_callback :: "receiver \<Rightarrow> receiver" where
  "run_callback app sock rx_time s =
     (case recv_callback sock of
        Default_callback \<Rightarrow> default_callback sock rx_time s
      | Server_callback \<Rightarrow> server_callback sock rx_time s
      | App_callback \<Rightarrow> app sock rx_time s)"

section \<open>sendAndRecv\<close>

definition SCM_TIMESTAMP :: int where "SCM_TIMESTAMP = SO_TIMESTAMP"

text \<open>The walk over the control messages.\<close>

fun kernel_time :: "cmsghdr list \<Rightarrow> Nanos outcome" where
  "kernel_time [] = Inr 0"
| "kernel_time (m # ms) =
     (if cmsg_level m = SOL_SOCKET \<and> cmsg_type m = SCM_TIMESTAMP
      then obind (int64 (tv_sec m * NANOS_TO_SECS)) (\<lambda>a.
           obind (int64 (tv_usec m * NANOS_TO_MICROS)) (\<lambda>b. int64 (a + b)))
      else kernel_time ms)"

definition recv_phase :: "os \<Rightarrow> receiver \<Rightarrow> tcp_socket \<Rightarrow> sys \<Rightarrow> (int \<times> tcp_socket \<times> sys) outcome" where
  "recv_phase os app sock s =
     (let (a, s1) = ext os (Recvmsg (fd sock) (unat (TCP_BUFFER_SIZE - next_rcv_valid_index sock))) s;
          received = ret a;
          sock1 = (case ans_name a of None \<Rightarrow> sock | Some addr \<Rightarrow> sock\<lparr>in_addr := addr\<rparr>)
      in if received > 0
         then obind (mem_write (unat (next_rcv_valid_index sock)) (ans_bytes a) (rcv_buffer sock)) (\<lambda>block.
              obind (kernel_time (ans_cmsgs a)) (\<lambda>t.
              obind (run_callback app
                       (sock1\<lparr>rcv_buffer := block,
                              next_rcv_valid_index := next_rcv_valid_index sock + word_of_int received\<rparr>)
                       t s1) (\<lambda>(sock2, s2).
                Inr (received, sock2, s2))))
         else if received = 0 then Inr (received, sock1\<lparr>recv_disconnected := True\<rparr>, s1)
         else if \<not> wouldBlock s1 then Inr (received, sock1\<lparr>recv_disconnected := True\<rparr>, s1)
         else Inr (received, sock1, s1))"

fun send_loop :: "os \<Rightarrow> nat \<Rightarrow> size_t \<Rightarrow> tcp_socket \<Rightarrow> sys \<Rightarrow> (size_t \<times> tcp_socket \<times> sys) outcome" where
  "send_loop os 0 total_sent sock s = Inl OutOfFuel"
| "send_loop os (Suc k) total_sent sock s =
     (if total_sent < next_send_valid_index sock
      then obind (mem_read (unat total_sent) (unat (next_send_valid_index sock - total_sent)) (send_buffer sock)) (\<lambda>bs.
             let (a, s1) = ext os (Send (fd sock) bs) s; sent = ret a
             in if sent < 0
                then Inr (total_sent, if \<not> wouldBlock s1 then sock\<lparr>send_disconnected := True\<rparr> else sock, s1)
                else if sent = 0 then Inr (total_sent, sock, s1)
                else send_loop os k (total_sent + word_of_int sent) sock s1)
      else Inr (total_sent, sock, s))"

definition compact :: "size_t \<Rightarrow> tcp_socket \<Rightarrow> tcp_socket outcome" where
  "compact total_sent sock =
     (if total_sent > 0
      then let unsent = next_send_valid_index sock - total_sent
           in obind (if unsent > 0
                     then obind (mem_read (unat total_sent) (unat unsent) (send_buffer sock)) (\<lambda>bs.
                          mem_write 0 bs (send_buffer sock))
                     else Inr (send_buffer sock)) (\<lambda>block.
              Inr (sock\<lparr>send_buffer := block, next_send_valid_index := unsent\<rparr>))
      else Inr sock)"

definition send_phase :: "os \<Rightarrow> tcp_socket \<Rightarrow> sys \<Rightarrow> (tcp_socket \<times> sys) outcome" where
  "send_phase os sock s =
     obind (send_loop os (Suc (unat TCP_BUFFER_SIZE)) 0 sock s) (\<lambda>(total_sent, sock1, s1).
     obind (compact total_sent sock1) (\<lambda>sock2. Inr (sock2, s1)))"

definition sendAndRecv :: "os \<Rightarrow> receiver \<Rightarrow> tcp_socket \<Rightarrow> sys \<Rightarrow> (bool \<times> tcp_socket \<times> sys) outcome" where
  "sendAndRecv os app sock s =
     (if fd sock < 0 then Inr (False, sock, s)
      else if next_rcv_valid_index sock \<ge> TCP_BUFFER_SIZE
      then Inr (False, sock\<lparr>recv_disconnected := True\<rparr>,
                log_call (''Receive buffer full socket:%'' @ [CHR 0x0A]) [A_int (word_of_int (fd sock))] s)
      else obind (recv_phase os app sock s) (\<lambda>(received, sock1, s1).
           obind (send_phase os sock1 s1) (\<lambda>(sock2, s2). Inr (received > 0, sock2, s2))))"

section \<open>The invariant\<close>

definition sock_wf :: "tcp_socket \<Rightarrow> bool" where
  "sock_wf sock \<longleftrightarrow>
     length (send_buffer sock) = 65536 \<and> length (rcv_buffer sock) = 65536 \<and>
     unat (next_send_valid_index sock) \<le> 65536 \<and> unat (next_rcv_valid_index sock) \<le> 65536"

text \<open>The bytes waiting to be sent, and the bytes received and not yet consumed.\<close>

definition pending :: "tcp_socket \<Rightarrow> byte list" where
  "pending sock = take (unat (next_send_valid_index sock)) (send_buffer sock)"

definition received :: "tcp_socket \<Rightarrow> byte list" where
  "received sock = take (unat (next_rcv_valid_index sock)) (rcv_buffer sock)"

lemma unat_TCP_BUFFER_SIZE [simp]: "unat TCP_BUFFER_SIZE = 65536"
  by (simp add: TCP_BUFFER_SIZE_def)

lemma sock_wfD:
  assumes "sock_wf sock"
  shows "length (send_buffer sock) = 65536" "length (rcv_buffer sock) = 65536"
    "unat (next_send_valid_index sock) \<le> 65536" "unat (next_rcv_valid_index sock) \<le> 65536"
  using assms by (simp_all add: sock_wf_def)

lemma unat_le_sub: "a \<le> b \<Longrightarrow> unat (b - a) = unat b - unat a" for a b :: size_t
  by (simp add: unat_sub)

lemma index_le_size:
  "unat i \<le> 65536 \<Longrightarrow> i \<le> TCP_BUFFER_SIZE" "i \<le> TCP_BUFFER_SIZE \<Longrightarrow> unat i \<le> 65536"
  by (simp_all add: word_le_nat_alt)

lemma unat_room: "unat i \<le> 65536 \<Longrightarrow> unat (TCP_BUFFER_SIZE - i) = 65536 - unat i"
  by (simp add: unat_le_sub index_le_size)

lemma unat_add_small:
  "unat i + n \<le> 65536 \<Longrightarrow> unat (i + of_nat n) = unat i + n" for i :: size_t
  by (simp add: unat_word_ariths unat_of_nat_size)

lemma mem_write_Inr:
  "off + length bs \<le> length block \<Longrightarrow>
     mem_write off bs block = Inr (take off block @ bs @ drop (off + length bs) block)"
  by (simp add: mem_write_def)

lemma mem_read_Inr: "off + n \<le> length block \<Longrightarrow> mem_read off n block = Inr (take n (drop off block))"
  by (simp add: mem_read_def)

text \<open>Creating, resetting and connecting.\<close>

lemma TCPSocket_wf:
  "length b1 = 65536 \<Longrightarrow> length b2 = 65536 \<Longrightarrow> sock_wf (TCPSocket b1 b2)"
  by (simp add: sock_wf_def TCPSocket_def)

lemma destroy_wf: "sock_wf sock \<Longrightarrow> sock_wf (fst (destroy os sock s))"
  by (simp add: sock_wf_def destroy_def Let_def split: prod.splits)

lemma destroy_sys:
  "snd (destroy os sock s) = (if fd sock \<ge> 0 then after os (Close (fd sock)) s else s)"
  by (simp add: destroy_def ext_def)

lemma destroy_fd: "fd (fst (destroy os sock s)) = (if fd sock \<ge> 0 then - 1 else fd sock)"
  by (simp add: destroy_def ext_def)

section \<open>The callback contract\<close>

text \<open>
  What \<open>sendAndRecv\<close> and \<open>TCPServer\<close> rely on in a receive callback: it returns, keeps the
  socket well formed and open, makes no system call of its own (replies are queued with
  \<open>send\<close>), takes back no bytes already queued, and logs with matching formats.
\<close>

locale receive_callback =
  fixes app :: receiver
  assumes app_returns: "sock_wf sock \<Longrightarrow> \<exists>sock' s'. app sock rx s = Inr (sock', s')"
    and app_wf: "sock_wf sock \<Longrightarrow> app sock rx s = Inr (sock', s') \<Longrightarrow> sock_wf sock'"
    and app_fd: "app sock rx s = Inr (sock', s') \<Longrightarrow> fd sock' = fd sock \<and> recv_callback sock' = recv_callback sock"
    and app_quiet: "app sock rx s = Inr (sock', s') \<Longrightarrow> hist s' = hist s \<and> quiet F s s'"
    and app_pending: "sock_wf sock \<Longrightarrow> app sock rx s = Inr (sock', s') \<Longrightarrow> prefix (pending sock) (pending sock')"

interpretation default_cb: receive_callback default_callback
  by unfold_locales (auto simp: default_callback_def sock_wf_def pending_def callback_args_def holes_def
      intro!: log_call_quiet)

interpretation server_cb: receive_callback server_callback
  by unfold_locales (auto simp: server_callback_def sock_wf_def callback_args_def holes_def
      intro!: log_call_quiet)

text \<open>The dispatch on the installed callback meets the contract when the application's does.\<close>

lemma run_callback_contract:
  assumes "receive_callback app"
  shows "receive_callback (run_callback app)"
proof -
  have run: "\<exists>cb \<in> {default_callback, server_callback, app}. run_callback app sock rx s = cb sock rx s"
    for sock rx s
    by (cases "recv_callback sock") (simp_all add: run_callback_def)
  have cb: "receive_callback cb" if "cb \<in> {default_callback, server_callback, app}" for cb
    using that assms default_cb.receive_callback_axioms server_cb.receive_callback_axioms by blast
  show ?thesis
  proof (unfold_locales, goal_cases)
    case (1 sock rx s)
    then show ?case using run [of sock rx s] cb receive_callback.app_returns by metis
  next
    case (2 sock rx s sock' s')
    then show ?case using run [of sock rx s] cb receive_callback.app_wf by metis
  next
    case (3 sock rx s sock' s')
    then show ?case using run [of sock rx s] cb receive_callback.app_fd by metis
  next
    case (4 sock rx s sock' s' F)
    then show ?case using run [of sock rx s] cb receive_callback.app_quiet by metis
  next
    case (5 sock rx s sock' s')
    then show ?case using run [of sock rx s] cb receive_callback.app_pending by metis
  qed
qed

section \<open>The phases of sendAndRecv\<close>

text \<open>The value of the time stamp: the first time stamp message counts.\<close>

definition timestamp_of :: "cmsghdr list \<Rightarrow> Nanos" where
  "timestamp_of ms =
     (case List.find (\<lambda>m. cmsg_level m = SOL_SOCKET \<and> cmsg_type m = SCM_TIMESTAMP) ms of
        None \<Rightarrow> 0 | Some m \<Rightarrow> tv_sec m * 1000000000 + tv_usec m * 1000)"

lemma kernel_time_value:
  assumes "list_all valid_timeval ms"
  shows "kernel_time ms = Inr (timestamp_of ms)"
  using assms
proof (induction ms)
  case (Cons m ms)
  then have "0 \<le> tv_sec m" "tv_sec m < 9223372036" "0 \<le> tv_usec m" "tv_usec m < 1000000"
    by (simp_all add: valid_timeval_def)
  then show ?case
    using Cons by (simp add: int64_def int64_range_def time_constants timestamp_of_def)
qed (simp add: timestamp_of_def)

text \<open>What the kernel has taken from the socket with descriptor \<open>f\<close>.\<close>

fun handed :: "int \<Rightarrow> history \<Rightarrow> byte list" where
  "handed f [] = []"
| "handed f ((Send f' bs, a) # h) =
     (if f' = f \<and> 0 < ret a then take (nat (ret a)) bs else []) @ handed f h"
| "handed f ((c, a) # h) = handed f h"

lemma handed_append [simp]: "handed f (h @ h') = handed f h @ handed f h'"
  by (induction f h rule: handed.induct) simp_all

text \<open>Whether a call of \<open>send\<close> failed with an error that is not temporary.\<close>

fun hard_failure :: "ext_call \<times> answer \<Rightarrow> bool" where
  "hard_failure (Send f bs, a) = (ret a = - 1 \<and> err a \<notin> {EAGAIN, EWOULDBLOCK, EINPROGRESS})"
| "hard_failure (Recvmsg f n, a) = (ret a = - 1 \<and> err a \<notin> {EAGAIN, EWOULDBLOCK, EINPROGRESS})"
| "hard_failure e = False"

lemma send_loop_spec:
  assumes os: "os_ok os" and wf: "sock_wf sock" and le: "tot \<le> next_send_valid_index sock"
    and fuel: "unat (next_send_valid_index sock) - unat tot < k"
  shows "\<exists>tot' s' h. send_loop os k tot sock s =
      Inr (tot', sock\<lparr>send_disconnected := send_disconnected sock \<or> list_ex hard_failure h\<rparr>, s') \<and>
    tot \<le> tot' \<and> tot' \<le> next_send_valid_index sock \<and> (\<forall>F. quiet F s s') \<and> hist s' = hist s @ h \<and>
    take (unat tot') (send_buffer sock) = take (unat tot) (send_buffer sock) @ handed (fd sock) h"
  using le fuel
proof (induction k arbitrary: tot s)
  case (Suc k)
  let ?n = "next_send_valid_index sock" and ?buf = "send_buffer sock"
  show ?case
  proof (cases "tot < ?n")
    case False
    with Suc.prems have "tot = ?n" by simp
    then show ?thesis by (auto intro!: exI [of _ s])
  next
    case True
    let ?bs = "take (unat (?n - tot)) (drop (unat tot) ?buf)"
    let ?c = "Send (fd sock) ?bs"
    let ?a = "os (hist s) ?c" and ?s1 = "after os ?c s"
    have tn: "unat tot < unat ?n" "unat (?n - tot) = unat ?n - unat tot"
      using True Suc.prems(1) by (simp_all add: word_less_nat_alt unat_le_sub)
    have len: "length ?bs = unat ?n - unat tot"
      using tn sock_wfD [OF wf] by simp
    have rd: "mem_read (unat tot) (unat (?n - tot)) ?buf = Inr ?bs"
      using tn sock_wfD [OF wf] by (intro mem_read_Inr) simp
    have va: "- 1 \<le> ret ?a" "ret ?a \<le> int (unat ?n - unat tot)"
      using os_okD [OF os, of "hist s" ?c] len by simp_all
    have q: "quiet F s ?s1" for F by (rule ext_quiet) simp
    consider (error) "ret ?a < 0" | (zero) "ret ?a = 0" | (some) "0 < ret ?a" by linarith
    then show ?thesis
    proof cases
      case error
      then have "wouldBlock ?s1 \<longleftrightarrow> \<not> hard_failure (?c, ?a)" using va(1) by (auto simp: wouldBlock_def)
      with error show ?thesis
        using True rd q Suc.prems(1)
        by (auto simp: ext_def Let_def intro!: exI [of _ tot] exI [of _ ?s1])
    next
      case zero
      then show ?thesis
        using True rd q Suc.prems(1)
        by (auto simp: ext_def Let_def intro!: exI [of _ tot] exI [of _ ?s1])
    next
      case some
      let ?m = "nat (ret ?a)" and ?tot = "tot + word_of_int (ret ?a)"
      have m: "0 < ?m" "unat tot + ?m \<le> unat ?n" using some va tn by linarith+
      have w: "word_of_int (ret ?a) = (of_nat ?m :: size_t)" using some by (simp add: of_nat_nat)
      have ut: "unat ?tot = unat tot + ?m"
        unfolding w using m sock_wfD(3) [OF wf] by (intro unat_add_small) simp
      have "?tot \<le> ?n" using ut m by (simp add: word_le_nat_alt)
      moreover have "unat ?n - unat ?tot < k" using Suc.prems(2) ut m tn by linarith
      ultimately obtain tot' s' h where r:
        "send_loop os k ?tot sock ?s1 =
           Inr (tot', sock\<lparr>send_disconnected := send_disconnected sock \<or> list_ex hard_failure h\<rparr>, s')"
        "?tot \<le> tot'" "tot' \<le> ?n" "\<forall>F. quiet F ?s1 s'" "hist s' = hist ?s1 @ h"
        "take (unat tot') ?buf = take (unat ?tot) ?buf @ handed (fd sock) h"
        using Suc.IH [of ?tot ?s1] by blast
      have le: "?m \<le> unat (?n - tot)" using m tn by linarith
      have "take (unat ?tot) ?buf = take (unat tot) ?buf @ take ?m ?bs"
        by (simp only: ut take_add take_take min_absorb1 [OF le])
      then have "take (unat tot') ?buf = take (unat tot) ?buf @ handed (fd sock) ((?c, ?a) # h)"
        using r(6) some by simp
      moreover have "send_loop os (Suc k) tot sock s = Inr (tot', sock\<lparr>send_disconnected :=
          send_disconnected sock \<or> list_ex hard_failure ((?c, ?a) # h)\<rparr>, s')"
        using True rd some r(1) by (simp add: ext_def Let_def)
      moreover have "tot \<le> tot'" using r(2) ut by (simp add: word_le_nat_alt)
      moreover have "\<forall>F. quiet F s s'" using q r(4) quiet_trans by blast
      moreover have "hist s' = hist s @ (?c, ?a) # h" using r(5) by simp
      ultimately show ?thesis using r(3) by blast
    qed
  qed
qed simp

lemma compact_spec:
  assumes wf: "sock_wf sock" and le: "tot \<le> next_send_valid_index sock"
  shows "\<exists>block n. compact tot sock = Inr (sock\<lparr>send_buffer := block, next_send_valid_index := n\<rparr>) \<and>
    sock_wf (sock\<lparr>send_buffer := block, next_send_valid_index := n\<rparr>) \<and>
    take (unat n) block = drop (unat tot) (pending sock)"
proof -
  let ?n = "next_send_valid_index sock" and ?buf = "send_buffer sock"
  have u: "unat (?n - tot) = unat ?n - unat tot" "unat tot \<le> unat ?n"
    using le by (simp_all add: unat_le_sub word_le_nat_alt)
  note D = sock_wfD [OF wf]
  consider (none) "tot = 0" | (all) "tot \<noteq> 0" "?n = tot" | (some) "tot \<noteq> 0" "?n \<noteq> tot" by blast
  then show ?thesis
  proof cases
    case none
    then show ?thesis
      using wf by (intro exI [of _ ?buf] exI [of _ ?n]) (simp add: compact_def pending_def)
  next
    case all
    then show ?thesis
      using wf by (intro exI [of _ ?buf] exI [of _ 0])
        (auto simp: compact_def pending_def sock_wf_def word_gt_0)
  next
    case some
    let ?bs = "take (unat (?n - tot)) (drop (unat tot) ?buf)"
    let ?block = "?bs @ drop (unat (?n - tot)) ?buf"
    have len: "length ?bs = unat (?n - tot)" using D u by simp
    have rd: "mem_read (unat tot) (unat (?n - tot)) ?buf = Inr ?bs"
      using D u by (intro mem_read_Inr) simp
    have wr: "mem_write 0 ?bs ?buf = Inr ?block"
      using mem_write_Inr [of 0 ?bs ?buf] D u len by simp
    have "?n - tot > 0" using some by (simp add: word_gt_0)
    then have "compact tot sock = Inr (sock\<lparr>send_buffer := ?block, next_send_valid_index := ?n - tot\<rparr>)"
      using some rd wr by (simp add: compact_def word_gt_0 Let_def)
    moreover have "sock_wf (sock\<lparr>send_buffer := ?block, next_send_valid_index := ?n - tot\<rparr>)"
      using D u len by (simp add: sock_wf_def)
    moreover have "take (unat (?n - tot)) ?block = drop (unat tot) (pending sock)"
      using len u by (simp add: pending_def drop_take)
    ultimately show ?thesis by blast
  qed
qed

lemma send_phase_spec:
  assumes os: "os_ok os" and wf: "sock_wf sock"
  shows "\<exists>sock' s' h. send_phase os sock s = Inr (sock', s') \<and> sock_wf sock' \<and>
    fd sock' = fd sock \<and> recv_callback sock' = recv_callback sock \<and>
    received sock' = received sock \<and> recv_disconnected sock' = recv_disconnected sock \<and>
    send_disconnected sock' = (send_disconnected sock \<or> list_ex hard_failure h) \<and>
    (\<forall>F. quiet F s s') \<and> hist s' = hist s @ h \<and> pending sock = handed (fd sock) h @ pending sock'"
proof -
  let ?k = "Suc (unat TCP_BUFFER_SIZE)"
  have fuel: "unat (next_send_valid_index sock) - unat 0 < ?k" using sock_wfD(3) [OF wf] by simp
  obtain tot s' h where r:
    "send_loop os ?k 0 sock s =
       Inr (tot, sock\<lparr>send_disconnected := send_disconnected sock \<or> list_ex hard_failure h\<rparr>, s')"
    "tot \<le> next_send_valid_index sock" "\<forall>F. quiet F s s'" "hist s' = hist s @ h"
    "take (unat tot) (send_buffer sock) = take (unat 0) (send_buffer sock) @ handed (fd sock) h"
    using send_loop_spec [OF os wf _ fuel, of s] by auto
  let ?sock = "sock\<lparr>send_disconnected := send_disconnected sock \<or> list_ex hard_failure h\<rparr>"
  have wf': "sock_wf ?sock" using wf by (simp add: sock_wf_def)
  obtain block n where c: "compact tot ?sock = Inr (?sock\<lparr>send_buffer := block, next_send_valid_index := n\<rparr>)"
      "sock_wf (?sock\<lparr>send_buffer := block, next_send_valid_index := n\<rparr>)"
      "take (unat n) block = drop (unat tot) (pending ?sock)"
    using compact_spec [OF wf', of tot] r(2) by auto
  let ?sock' = "?sock\<lparr>send_buffer := block, next_send_valid_index := n\<rparr>"
  have "send_phase os sock s = Inr (?sock', s')"
    using r(1) c(1) by (simp only: send_phase_def obind_simps prod.case)
  moreover have "pending sock = handed (fd sock) h @ pending ?sock'"
  proof -
    have "take (unat tot) (pending sock) = handed (fd sock) h"
      using r(2,5) by (simp add: pending_def word_le_nat_alt min_absorb1)
    moreover have "pending ?sock' = drop (unat tot) (pending sock)"
      using c(3) by (simp add: pending_def)
    ultimately show ?thesis by (metis append_take_drop_id)
  qed
  ultimately show ?thesis
    using c(2) r(3,4) by (intro exI [of _ ?sock'] exI [of _ s'] exI [of _ h]) (simp add: received_def)
qed

text \<open>The socket the callback sees after a successful receive.\<close>

definition filled :: "tcp_socket \<Rightarrow> answer \<Rightarrow> tcp_socket" where
  "filled sock a =
     (case ans_name a of None \<Rightarrow> sock | Some addr \<Rightarrow> sock\<lparr>in_addr := addr\<rparr>)
       \<lparr>rcv_buffer := take (unat (next_rcv_valid_index sock)) (rcv_buffer sock) @ ans_bytes a @
          drop (unat (next_rcv_valid_index sock) + length (ans_bytes a)) (rcv_buffer sock),
        next_rcv_valid_index := next_rcv_valid_index sock + word_of_int (ret a)\<rparr>"

lemma filled_facts:
  assumes wf: "sock_wf sock" and room: "next_rcv_valid_index sock < TCP_BUFFER_SIZE"
    and va: "valid_answer h (Recvmsg f (unat (TCP_BUFFER_SIZE - next_rcv_valid_index sock))) a" "0 < ret a"
  shows "mem_write (unat (next_rcv_valid_index sock)) (ans_bytes a) (rcv_buffer sock) = Inr (rcv_buffer (filled sock a))"
    "sock_wf (filled sock a)" "received (filled sock a) = received sock @ ans_bytes a"
    "pending (filled sock a) = pending sock" "fd (filled sock a) = fd sock"
    "recv_callback (filled sock a) = recv_callback sock"
    "send_disconnected (filled sock a) = send_disconnected sock"
    "recv_disconnected (filled sock a) = recv_disconnected sock"
proof -
  note D = sock_wfD [OF wf]
  let ?i = "next_rcv_valid_index sock"
  have len: "length (ans_bytes a) = nat (ret a)" using va(1) by (simp only: valid_answer.simps)
  have "ret a \<le> int (unat (TCP_BUFFER_SIZE - ?i))" using va(1) by (simp only: valid_answer.simps)
  then have fits: "unat ?i + nat (ret a) \<le> 65536"
    using D(4) va(2) unfolding unat_room [OF D(4)] by linarith
  have "word_of_int (ret a) = (of_nat (nat (ret a)) :: size_t)" using va(2) by (simp add: of_nat_nat)
  then have i: "unat (?i + word_of_int (ret a)) = unat ?i + nat (ret a)"
    using fits by (simp only: unat_add_small)
  show "mem_write (unat ?i) (ans_bytes a) (rcv_buffer sock) = Inr (rcv_buffer (filled sock a))"
    using len fits D by (simp add: mem_write_Inr filled_def)
  show "sock_wf (filled sock a)"
    using len fits D by (simp add: sock_wf_def filled_def i split: option.splits)
  show "received (filled sock a) = received sock @ ans_bytes a"
    using len fits D by (simp add: received_def filled_def i)
qed (simp_all add: filled_def pending_def split: option.splits)

lemma recv_phase_unfold:
  assumes wf: "sock_wf sock" and room: "next_rcv_valid_index sock < TCP_BUFFER_SIZE" and os: "os_ok os"
    and a: "a = os (hist s) (Recvmsg (fd sock) (unat (TCP_BUFFER_SIZE - next_rcv_valid_index sock)))"
    and s1: "s1 = after os (Recvmsg (fd sock) (unat (TCP_BUFFER_SIZE - next_rcv_valid_index sock))) s"
  shows "0 < ret a \<Longrightarrow> \<exists>t. kernel_time (ans_cmsgs a) = Inr t \<and>
       recv_phase os app sock s = obind (run_callback app (filled sock a) t s1) (\<lambda>(sock2, s2). Inr (ret a, sock2, s2))"
    "ret a \<le> 0 \<Longrightarrow> recv_phase os app sock s = Inr (ret a,
       (case ans_name a of None \<Rightarrow> sock | Some addr \<Rightarrow> sock\<lparr>in_addr := addr\<rparr>)
         \<lparr>recv_disconnected := recv_disconnected sock \<or> ret a = 0 \<or> \<not> wouldBlock s1\<rparr>, s1)"
proof -
  let ?c = "Recvmsg (fd sock) (unat (TCP_BUFFER_SIZE - next_rcv_valid_index sock))"
  have va: "valid_answer (hist s) ?c a" unfolding a by (rule os_okD [OF os])
  then have "list_all valid_timeval (ans_cmsgs a)" by simp
  then obtain t where t: "kernel_time (ans_cmsgs a) = Inr t" using kernel_time_value by blast
  have e: "ext os ?c s = (a, s1)" by (simp only: ext_def a s1)
  show "\<exists>t. kernel_time (ans_cmsgs a) = Inr t \<and>
       recv_phase os app sock s = obind (run_callback app (filled sock a) t s1) (\<lambda>(sock2, s2). Inr (ret a, sock2, s2))"
    if "0 < ret a"
    using t filled_facts(1) [OF wf room va that] that
    by (simp only: recv_phase_def e) (simp add: Let_def filled_def)
  show "recv_phase os app sock s = Inr (ret a,
       (case ans_name a of None \<Rightarrow> sock | Some addr \<Rightarrow> sock\<lparr>in_addr := addr\<rparr>)
         \<lparr>recv_disconnected := recv_disconnected sock \<or> ret a = 0 \<or> \<not> wouldBlock s1\<rparr>, s1)"
    if "ret a \<le> 0"
    using that by (simp only: recv_phase_def e) (auto simp: Let_def split: option.splits)
qed

lemma run_callback_pending:
  "recv_callback sock \<noteq> App_callback \<Longrightarrow> run_callback app sock rx s = Inr (sock', s') \<Longrightarrow> pending sock' = pending sock"
  by (cases "recv_callback sock")
    (auto simp: run_callback_def default_callback_def server_callback_def pending_def)

context receive_callback
begin

lemma run_contract: "receive_callback (run_callback app)"
  by (rule run_callback_contract) (rule receive_callback_axioms)

lemma recv_phase_ok:
  assumes wf: "sock_wf sock" and room: "next_rcv_valid_index sock < TCP_BUFFER_SIZE" and os: "os_ok os"
  shows "\<exists>r sock' s' e. recv_phase os app sock s = Inr (r, sock', s') \<and> sock_wf sock' \<and>
    fd sock' = fd sock \<and> recv_callback sock' = recv_callback sock \<and> (\<forall>F. quiet F s s') \<and>
    hist s' = hist s @ [e] \<and> handed (fd sock) [e] = [] \<and> prefix (pending sock) (pending sock') \<and>
    (recv_callback sock \<noteq> App_callback \<longrightarrow> pending sock' = pending sock)"
proof -
  let ?c = "Recvmsg (fd sock) (unat (TCP_BUFFER_SIZE - next_rcv_valid_index sock))"
  let ?a = "os (hist s) ?c" and ?s1 = "after os ?c s"
  have q: "quiet F s ?s1" for F by (rule ext_quiet) simp
  note unfold = recv_phase_unfold [OF wf room os refl refl, of s app]
  show ?thesis
  proof (cases "0 < ret ?a")
    case True
    note fill = filled_facts [OF wf room os_okD [OF os] True]
    obtain t where t: "recv_phase os app sock s =
        obind (run_callback app (filled sock ?a) t ?s1) (\<lambda>(sock2, s2). Inr (ret ?a, sock2, s2))"
      using unfold(1) True by blast
    obtain sock' s' where r: "run_callback app (filled sock ?a) t ?s1 = Inr (sock', s')"
      using receive_callback.app_returns [OF run_contract fill(2)] by blast
    have "recv_phase os app sock s = Inr (ret ?a, sock', s')" using t r by simp
    moreover have "sock_wf sock'" by (rule receive_callback.app_wf [OF run_contract fill(2) r])
    moreover have "fd sock' = fd sock \<and> recv_callback sock' = recv_callback sock"
      using receive_callback.app_fd [OF run_contract r] fill(5,6) by simp
    moreover have "\<forall>F. quiet F s s'" "hist s' = hist s @ [(?c, ?a)]"
      using receive_callback.app_quiet [OF run_contract r] q quiet_trans by (blast, simp)
    moreover have "handed (fd sock) [(?c, ?a)] = []" by simp
    moreover have "prefix (pending sock) (pending sock')"
      using receive_callback.app_pending [OF run_contract fill(2) r] fill(4) by simp
    moreover have "recv_callback sock \<noteq> App_callback \<longrightarrow> pending sock' = pending sock"
      using run_callback_pending [OF _ r] fill(4,6) by simp
    ultimately show ?thesis by blast
  next
    case False
    then show ?thesis
      using unfold(2) q wf by (auto simp: sock_wf_def pending_def split: option.splits)
  qed
qed

lemma sendAndRecv_ok:
  assumes wf: "sock_wf sock" and os: "os_ok os"
  shows "\<exists>b sock' s' h replies. sendAndRecv os app sock s = Inr (b, sock', s') \<and> sock_wf sock' \<and>
    fd sock' = fd sock \<and> recv_callback sock' = recv_callback sock \<and> (\<forall>F. quiet F s s') \<and>
    hist s' = hist s @ h \<and> pending sock @ replies = handed (fd sock) h @ pending sock' \<and>
    (recv_callback sock \<noteq> App_callback \<longrightarrow> replies = [])"
proof -
  let ?m = "''Receive buffer full socket:%'' @ [CHR 0x0A]"
  consider (closed) "fd sock < 0" | (full) "0 \<le> fd sock" "TCP_BUFFER_SIZE \<le> next_rcv_valid_index sock"
    | (io) "0 \<le> fd sock" "next_rcv_valid_index sock < TCP_BUFFER_SIZE" by fastforce
  then show ?thesis
  proof cases
    case closed
    then show ?thesis using wf by (auto simp: sendAndRecv_def)
  next
    case full
    have "quiet F s (log_call ?m [A_int (word_of_int (fd sock))] s)" for F
      by (rule log_call_quiet) (simp add: holes_def)
    then show ?thesis using full wf by (auto simp: sendAndRecv_def sock_wf_def pending_def)
  next
    case io
    obtain r sock1 s1 e where r: "recv_phase os app sock s = Inr (r, sock1, s1)" "sock_wf sock1"
        "fd sock1 = fd sock" "recv_callback sock1 = recv_callback sock" "\<forall>F. quiet F s s1"
        "hist s1 = hist s @ [e]" "handed (fd sock) [e] = []" "prefix (pending sock) (pending sock1)"
        "recv_callback sock \<noteq> App_callback \<longrightarrow> pending sock1 = pending sock"
      using recv_phase_ok [OF wf io(2) os] by blast
    obtain sock' s' h where p: "send_phase os sock1 s1 = Inr (sock', s')" "sock_wf sock'"
        "fd sock' = fd sock1" "recv_callback sock' = recv_callback sock1" "\<forall>F. quiet F s1 s'"
        "hist s' = hist s1 @ h" "pending sock1 = handed (fd sock1) h @ pending sock'"
      using send_phase_spec [OF os r(2), of s1] by blast
    obtain replies where "pending sock1 = pending sock @ replies"
        "recv_callback sock \<noteq> App_callback \<longrightarrow> replies = []"
      using r(8,9) by (auto simp: prefix_def)
    moreover have "sendAndRecv os app sock s = Inr (r > 0, sock', s')"
      using io(1) not_le [THEN iffD2, OF io(2)] r(1) p(1) by (simp add: sendAndRecv_def)
    moreover have "\<forall>F. quiet F s s'" using r(5) p(5) quiet_trans by blast
    moreover have "hist s' = hist s @ ([e] @ h)" using r(6) p(6) by simp
    moreover have "handed (fd sock) ([e] @ h) = handed (fd sock1) h"
      unfolding handed_append using r(3,7) by simp
    ultimately show ?thesis using p(2-4,7) r(3,4) by metis
  qed
qed

end

lemma send_spec:
  assumes "sock_wf sock" "unat len \<le> length p"
  shows "\<exists>sock'. send (Some p) len sock = Inr (length (pending sock) + unat len \<le> 65536, sock') \<and>
           sock_wf sock' \<and> received sock' = received sock \<and> fd sock' = fd sock \<and>
           recv_callback sock' = recv_callback sock \<and>
           (if length (pending sock) + unat len \<le> 65536
            then pending sock' = pending sock @ take (unat len) p else sock' = sock)"
proof -
  note D = sock_wfD [OF assms(1)]
  let ?i = "next_send_valid_index sock"
  have pl: "length (pending sock) = unat ?i" using D by (simp add: pending_def)
  have fits: "len > TCP_BUFFER_SIZE - ?i \<longleftrightarrow> \<not> unat ?i + unat len \<le> 65536"
    using D(3) by (auto simp: word_less_nat_alt unat_room)
  show ?thesis
  proof (cases "len = 0")
    case True
    then show ?thesis using assms(1) D(3) pl by (simp add: send_def)
  next
    case nonzero: False
    show ?thesis
    proof (cases "unat ?i + unat len \<le> 65536")
      case True
      let ?block = "take (unat ?i) (send_buffer sock) @ take (unat len) p @ drop (unat ?i + unat len) (send_buffer sock)"
      have w: "mem_write (unat ?i) (take (unat len) p) (send_buffer sock) = Inr ?block"
        using mem_write_Inr [of "unat ?i" "take (unat len) p" "send_buffer sock"] D True assms(2)
        by (simp add: min_absorb2)
      have i: "unat (?i + len) = unat ?i + unat len" using True by (simp add: unat_word_ariths)
      have "\<not> TCP_BUFFER_SIZE < ?i" using index_le_size(1) [OF D(3)] by simp
      then have "send (Some p) len sock = Inr (True, sock\<lparr>send_buffer := ?block, next_send_valid_index := ?i + len\<rparr>)"
        using nonzero True fits w mem_read_Inr [of 0 "unat len" p] assms(2) by (simp add: send_def)
      then show ?thesis
        using nonzero True pl D assms(2) i
        by (simp add: send_def sock_wf_def pending_def received_def min_absorb2)
    next
      case False
      then show ?thesis using nonzero fits pl assms(1) by (simp add: send_def)
    qed
  qed
qed

section \<open>Properties\<close>

text \<open>
  Property C14. \<open>sendAndRecv\<close> is memory-safe and keeps its socket well formed: with any system
  that answers within its documented limits, any well-behaved callback and any contents of the
  buffers it returns (the send loop ends), touches nothing outside the two buffers, computes
  the time stamp without overflow, and neither opens nor closes a descriptor.
\<close>

theorem sendAndRecv_safe:
  assumes "os_ok os" "receive_callback app" "sock_wf sock" "sys_inv F s"
  shows "\<exists>b sock' s'. sendAndRecv os app sock s = Inr (b, sock', s') \<and> sock_wf sock' \<and>
           fd sock' = fd sock \<and> sys_inv F s'"
  using receive_callback.sendAndRecv_ok [OF assms(2,3,1), of s] assms(4) unfolding quiet_def by blast

theorem sendAndRecv_safe_witness:
  "\<exists>b sock' s'. sendAndRecv test_os server_callback (TCPSocket (replicate 65536 0) (replicate 65536 0)\<lparr>fd := 3\<rparr>) sys_start
     = Inr (b, sock', s') \<and> sock_wf sock' \<and> fd sock' = 3"
  using sendAndRecv_safe [OF test_os_ok server_cb.receive_callback_axioms _ sys_start_inv,
      of "TCPSocket (replicate 65536 0) (replicate 65536 0)\<lparr>fd := 3\<rparr>"]
  by (simp add: sock_wf_def TCPSocket_def) blast

text \<open>
  Property C26. \<open>send\<close> queues all of the data or none: it accepts exactly what fits behind the
  bytes already waiting, appends it there, and otherwise (also for a null pointer) returns false
  and changes nothing. An empty message always succeeds.
\<close>

theorem send_correct:
  assumes "sock_wf sock" "unat len \<le> length p"
  shows "\<exists>sock'. send (Some p) len sock = Inr (length (pending sock) + unat len \<le> 65536, sock') \<and>
           sock_wf sock' \<and> received sock' = received sock \<and> fd sock' = fd sock \<and>
           (if length (pending sock) + unat len \<le> 65536
            then pending sock' = pending sock @ take (unat len) p else sock' = sock) \<and>
         send None len sock = Inr (len = 0, sock)"
proof -
  have "send None len sock = Inr (len = 0, sock)" by (simp add: send_def)
  then show ?thesis using send_spec [OF assms] by blast
qed

theorem send_correct_witness:
  "\<exists>sock'. send (Some [1, 2, 3]) 2 (TCPSocket (replicate 65536 0) (replicate 65536 0)) = Inr (True, sock') \<and>
     pending sock' = [1, 2]"
  using send_correct [of "TCPSocket (replicate 65536 0) (replicate 65536 0)" 2 "[1, 2, 3]"]
  by (auto simp: sock_wf_def TCPSocket_def pending_def)

text \<open>A program's calls on one connection, with the bytes its calls of \<open>send\<close> were accepted for.\<close>

datatype sock_op = Op_send "byte list" | Op_sendAndRecv

fun sock_run :: "os \<Rightarrow> receiver \<Rightarrow> sock_op list \<Rightarrow> tcp_socket \<Rightarrow> sys \<Rightarrow> byte list \<Rightarrow>
    (tcp_socket \<times> sys \<times> byte list) outcome" where
  "sock_run os app [] sock s accepted = Inr (sock, s, accepted)"
| "sock_run os app (Op_send bs # ops) sock s accepted =
     obind (send (Some bs) (of_nat (length bs)) sock) (\<lambda>(ok, sock1).
       sock_run os app ops sock1 s (if ok then accepted @ bs else accepted))"
| "sock_run os app (Op_sendAndRecv # ops) sock s accepted =
     obind (sendAndRecv os app sock s) (\<lambda>(b, sock1, s1). sock_run os app ops sock1 s1 accepted)"

definition small_ops :: "sock_op list \<Rightarrow> bool" where
  "small_ops ops \<longleftrightarrow> list_all (\<lambda>oper. case oper of Op_send bs \<Rightarrow> length bs < 18446744073709551616 | _ \<Rightarrow> True) ops"

lemma send_list:
  assumes wf: "sock_wf sock" and small: "length bs < 18446744073709551616"
  shows "\<exists>sock'. send (Some bs) (of_nat (length bs)) sock = Inr (length (pending sock) + length bs \<le> 65536, sock') \<and>
    sock_wf sock' \<and> fd sock' = fd sock \<and> recv_callback sock' = recv_callback sock \<and>
    pending sock' = pending sock @ (if length (pending sock) + length bs \<le> 65536 then bs else [])"
  using send_spec [OF wf, of "of_nat (length bs)" bs] unat_of_nat_size [OF small] by auto

context receive_callback
begin

lemma sock_run_stream:
  assumes os: "os_ok os" and wf: "sock_wf sock" and small: "small_ops ops"
    and start: "pending0 @ queued = done0 @ pending sock" "subseq accepted queued"
      "recv_callback sock \<noteq> App_callback \<longrightarrow> queued = accepted"
  shows "\<exists>sock' s' accepted' h queued'. sock_run os app ops sock s accepted = Inr (sock', s', accepted') \<and>
    sock_wf sock' \<and> hist s' = hist s @ h \<and> subseq accepted' queued' \<and>
    pending0 @ queued' = done0 @ handed (fd sock) h @ pending sock' \<and>
    (recv_callback sock \<noteq> App_callback \<longrightarrow> queued' = accepted')"
  using wf small start
proof (induction ops arbitrary: sock s accepted queued done0)
  case Nil
  then show ?case by (auto intro!: exI [of _ queued])
next
  case (Cons oper ops)
  show ?case
  proof (cases oper)
    case (Op_send bs)
    let ?new = "if length (pending sock) + length bs \<le> 65536 then bs else []"
    have small: "length bs < 18446744073709551616" "small_ops ops"
      using Cons.prems(2) Op_send by (simp_all add: small_ops_def)
    obtain sock1 where s1: "send (Some bs) (of_nat (length bs)) sock =
        Inr (length (pending sock) + length bs \<le> 65536, sock1)" "sock_wf sock1" "fd sock1 = fd sock"
        "recv_callback sock1 = recv_callback sock" "pending sock1 = pending sock @ ?new"
      using send_list [OF Cons.prems(1) small(1)] by blast
    have "pending0 @ queued @ ?new = done0 @ pending sock1" "subseq (accepted @ ?new) (queued @ ?new)"
      using Cons.prems(3,4) s1(5) by (simp_all add: list_emb_append_mono)
    from Cons.IH [OF s1(2) small(2) this] Cons.prems(5) s1 Op_send show ?thesis by auto
  next
    case Op_sendAndRecv
    obtain b sock1 s1 h replies where r: "sendAndRecv os app sock s = Inr (b, sock1, s1)" "sock_wf sock1"
        "fd sock1 = fd sock" "recv_callback sock1 = recv_callback sock" "hist s1 = hist s @ h"
        "pending sock @ replies = handed (fd sock) h @ pending sock1"
        "recv_callback sock \<noteq> App_callback \<longrightarrow> replies = []"
      using sendAndRecv_ok [OF Cons.prems(1) os] by blast
    have eq: "pending0 @ queued @ replies = (done0 @ handed (fd sock) h) @ pending sock1"
      using Cons.prems(3) r(6) by (metis append.assoc)
    have sub: "subseq accepted (queued @ replies)"
      using list_emb_append_mono [OF Cons.prems(4), of "[]" replies] by simp
    have same: "recv_callback sock1 \<noteq> App_callback \<longrightarrow> queued @ replies = accepted"
      using Cons.prems(5) r(4,7) by simp
    have "small_ops ops" using Cons.prems(2) by (simp add: small_ops_def)
    from Cons.IH [OF r(2) this eq sub same, of s1] obtain sock' s' accepted' h' queued' where i:
      "sock_run os app ops sock1 s1 accepted = Inr (sock', s', accepted')" "sock_wf sock'"
      "hist s' = hist s1 @ h'" "subseq accepted' queued'"
      "pending0 @ queued' = (done0 @ handed (fd sock) h) @ handed (fd sock1) h' @ pending sock'"
      "recv_callback sock1 \<noteq> App_callback \<longrightarrow> queued' = accepted'" by blast
    show ?thesis
      by (intro exI [of _ sock'] exI [of _ s'] exI [of _ accepted'] exI [of _ "h @ h'"] exI [of _ queued'])
        (use i r Op_sendAndRecv in simp)
  qed
qed

end

text \<open>
  Property C3. The outgoing byte stream. Over any sequence of calls of \<open>send\<close> and \<open>sendAndRecv\<close>,
  whatever partial sends and errors the kernel answers with, the bytes handed to the kernel
  followed by those still waiting are exactly the bytes queued, in order: none is lost, sent
  twice or reordered. What is queued contains every accepted message in order, and is nothing
  else unless the application's callback queues replies.
\<close>

theorem byte_stream_preserved:
  assumes "os_ok os" "receive_callback app" "sock_wf sock" "small_ops ops"
  shows "\<exists>sock' s' accepted h queued. sock_run os app ops sock s [] = Inr (sock', s', accepted) \<and>
           hist s' = hist s @ h \<and> subseq accepted queued \<and>
           pending sock @ queued = handed (fd sock) h @ pending sock' \<and>
           (recv_callback sock = App_callback \<or> queued = accepted)"
  using receive_callback.sock_run_stream [OF assms(2,1,3,4), of "pending sock" "[]" "[]" "[]" s] by force

theorem byte_stream_preserved_witness:
  "\<exists>sock' s' h. sock_run test_os server_callback
       [Op_send [1, 2, 3, 4], Op_sendAndRecv, Op_send [5], Op_sendAndRecv]
       (TCPSocket (replicate 65536 0) (replicate 65536 0)\<lparr>fd := 3\<rparr>) sys_start []
     = Inr (sock', s', [1, 2, 3, 4, 5]) \<and> hist s' = h \<and>
     [1, 2, 3, 4, 5] = handed 3 h @ pending sock'"
proof -
  let ?sock = "TCPSocket (replicate 65536 0) (replicate 65536 0)\<lparr>fd := 3\<rparr>"
    and ?ops = "[Op_send [1, 2, 3, 4], Op_sendAndRecv, Op_send [5], Op_sendAndRecv]"
  have wf: "sock_wf ?sock" "pending ?sock = []" by (simp_all add: sock_wf_def TCPSocket_def pending_def)
  have acc: "accepted = [1, 2, 3, 4, 5]"
    if "sock_run test_os server_callback ?ops ?sock sys_start [] = Inr (sock', s', accepted)"
    for sock' s' accepted
  proof -
    obtain s1 where s1: "send (Some [1, 2, 3, 4]) (of_nat (length [1 :: byte, 2, 3, 4])) ?sock = Inr (True, s1)"
        "sock_wf s1" "length (pending s1) = 4"
      using send_list [OF wf(1), of "[1, 2, 3, 4]"] wf(2) by auto
    obtain b s2 t2 h replies where s2: "sendAndRecv test_os server_callback s1 sys_start = Inr (b, s2, t2)"
        "sock_wf s2" "pending s1 @ replies = handed (fd s1) h @ pending s2" "recv_callback s1 \<noteq> App_callback \<longrightarrow> replies = []"
      using receive_callback.sendAndRecv_ok [OF server_cb.receive_callback_axioms s1(2) test_os_ok] by blast
    have "recv_callback s1 = Default_callback"
      using send_list [OF wf(1), of "[1, 2, 3, 4]"] s1(1) by (auto simp: TCPSocket_def)
    then have "length (pending s2) + 1 \<le> 65536" using s2(3,4) s1(3) arg_cong [OF s2(3), of length] by simp
    then obtain s3 where "send (Some [5]) (of_nat (length [5 :: byte])) s2 = Inr (True, s3)" "sock_wf s3"
      using send_list [OF s2(2), of "[5]"] by auto
    with that s1(1) s2(1) show ?thesis by (auto simp: obind_Inr_iff)
  qed
  show ?thesis
    using byte_stream_preserved [OF test_os_ok server_cb.receive_callback_axioms wf(1), of ?ops sys_start]
      acc wf(2) by (auto simp: small_ops_def sys_start_def TCPSocket_def)
qed

lemma sendAndRecv_receive:
  assumes "os_ok os" "sock_wf sock" "0 \<le> fd sock" "next_rcv_valid_index sock < TCP_BUFFER_SIZE"
    and "c = Recvmsg (fd sock) (unat (TCP_BUFFER_SIZE - next_rcv_valid_index sock))"
    and "a = os (hist s) c" "0 < ret a"
  shows "received (filled sock a) = received sock @ ans_bytes a \<and>
         pending (filled sock a) = pending sock \<and> sock_wf (filled sock a) \<and>
         sendAndRecv os app sock s =
           obind (run_callback app (filled sock a)
                    (timestamp_of (ans_cmsgs a))
                    (after os c s))
             (\<lambda>(sock2, s2). obind (send_phase os sock2 s2) (\<lambda>(sock3, s3). Inr (True, sock3, s3)))"
proof -
  have va: "valid_answer (hist s) c a" unfolding assms(6) by (rule os_okD [OF assms(1)])
  note fill = filled_facts [OF assms(2,4) va [unfolded assms(5)] assms(7)]
  have "list_all valid_timeval (ans_cmsgs a)" using va assms(5) by simp
  note t = kernel_time_value [OF this]
  have "recv_phase os app sock s = obind (run_callback app (filled sock a)
      (timestamp_of (ans_cmsgs a)) (after os c s))
      (\<lambda>(sock2, s2). Inr (ret a, sock2, s2))"
    using recv_phase_unfold(1) [OF assms(2,4,1) assms(6) [unfolded assms(5)] refl assms(7), of app] t
    unfolding assms(5) by auto
  then have "sendAndRecv os app sock s = obind (run_callback app (filled sock a)
      (timestamp_of (ans_cmsgs a)) (after os c s))
      (\<lambda>(sock2, s2). obind (send_phase os sock2 s2) (\<lambda>(sock3, s3). Inr (True, sock3, s3)))"
    using assms(3,7) not_le [THEN iffD2, OF assms(4)]
    by (cases "run_callback app (filled sock a)
      (timestamp_of (ans_cmsgs a)) (after os c s)")
      (auto simp: sendAndRecv_def)
  with fill(2-4) show ?thesis by blast
qed

text \<open>
  Property C15. Receiving: when the kernel delivers bytes, the callback is called once, before any
  send, with the earlier unread bytes followed by the new ones and with the kernel's time stamp
  in nanoseconds (0 without one); then the outgoing bytes are flushed and the call returns true.
\<close>

theorem sendAndRecv_delivers:
  assumes "os_ok os" "sock_wf sock" "0 \<le> fd sock" "next_rcv_valid_index sock < TCP_BUFFER_SIZE"
    and "c = Recvmsg (fd sock) (unat (TCP_BUFFER_SIZE - next_rcv_valid_index sock))"
    and "a = os (hist s) c" "0 < ret a"
  shows "received (filled sock a) = received sock @ ans_bytes a \<and>
         pending (filled sock a) = pending sock \<and> sock_wf (filled sock a) \<and>
         sendAndRecv os app sock s =
           obind (run_callback app (filled sock a)
                    (timestamp_of (ans_cmsgs a))
                    (after os c s))
             (\<lambda>(sock2, s2). obind (send_phase os sock2 s2) (\<lambda>(sock3, s3). Inr (True, sock3, s3)))"
  using sendAndRecv_receive [OF assms] .

theorem sendAndRecv_delivers_witness:
  "received (filled (TCPSocket (replicate 65536 0) (replicate 65536 0)\<lparr>fd := 3\<rparr>)
     (test_os [] (Recvmsg 3 65536))) = [104, 105]"
  using sendAndRecv_delivers [OF test_os_ok, of "TCPSocket (replicate 65536 0) (replicate 65536 0)\<lparr>fd := 3\<rparr>"
      "Recvmsg 3 65536" "test_os [] (Recvmsg 3 65536)" sys_start server_callback]
  by (simp add: sock_wf_def TCPSocket_def sys_start_def received_def word_less_nat_alt)

text \<open>
  Property C16. Disconnection. When nothing is received, the receive side is marked broken exactly
  if the peer closed (a return of 0) or the error is not a temporary one, and the send side
  exactly if a \<open>send\<close> failed with such an error; the call returns false.
\<close>

theorem sendAndRecv_disconnects:
  assumes "os_ok os" "sock_wf sock" "0 \<le> fd sock" "next_rcv_valid_index sock < TCP_BUFFER_SIZE"
    and "c = Recvmsg (fd sock) (unat (TCP_BUFFER_SIZE - next_rcv_valid_index sock))"
    and "a = os (hist s) c" "ret a \<le> 0"
  shows "\<exists>sock' s' h. sendAndRecv os app sock s = Inr (False, sock', s') \<and> hist s' = hist s @ (c, a) # h \<and>
           recv_disconnected sock' = (recv_disconnected sock \<or> ret a = 0 \<or> hard_failure (c, a)) \<and>
           send_disconnected sock' = (send_disconnected sock \<or> list_ex hard_failure h) \<and>
           received sock' = received sock"
proof -
  let ?s1 = "after os c s"
  let ?sock1 = "(case ans_name a of None \<Rightarrow> sock | Some addr \<Rightarrow> sock\<lparr>in_addr := addr\<rparr>)
      \<lparr>recv_disconnected := recv_disconnected sock \<or> ret a = 0 \<or> \<not> wouldBlock ?s1\<rparr>"
  have r: "recv_phase os app sock s = Inr (ret a, ?sock1, ?s1)"
    using recv_phase_unfold(2) [OF assms(2,4,1) assms(6) [unfolded assms(5)] refl assms(7), of app]
    unfolding assms(5) by simp
  have wf: "sock_wf ?sock1" using assms(2) by (simp add: sock_wf_def split: option.splits)
  obtain sock' s' h where p: "send_phase os ?sock1 ?s1 = Inr (sock', s')"
      "received sock' = received ?sock1" "recv_disconnected sock' = recv_disconnected ?sock1"
      "send_disconnected sock' = (send_disconnected ?sock1 \<or> list_ex hard_failure h)" "hist s' = hist ?s1 @ h"
    using send_phase_spec [OF assms(1) wf, of ?s1] by blast
  have "- 1 \<le> ret a" using os_okD [OF assms(1), of "hist s" c] assms(5,6) by simp
  then have "ret a = 0 \<or> \<not> wouldBlock ?s1 \<longleftrightarrow> ret a = 0 \<or> hard_failure (c, a)"
    using assms(5-7) by (auto simp: wouldBlock_def)
  then have "recv_disconnected sock' = (recv_disconnected sock \<or> ret a = 0 \<or> hard_failure (c, a))"
    using p(3) by (simp split: option.splits)
  moreover have "sendAndRecv os app sock s = Inr (False, sock', s')"
    using assms(3,7) not_le [THEN iffD2, OF assms(4)] r p(1) by (simp add: sendAndRecv_def)
  moreover have "hist s' = hist s @ (c, a) # h" using p(5) assms(6) by simp
  moreover have "send_disconnected ?sock1 = send_disconnected sock" "received ?sock1 = received sock"
    by (simp_all add: received_def split: option.splits)
  ultimately show ?thesis using p(2,4) by metis
qed

definition closing_os :: os where
  "closing_os h c = (case c of Recvmsg f n \<Rightarrow> result 0 0 | _ \<Rightarrow> test_os h c)"

lemma closing_os_ok: "os_ok closing_os"
proof -
  have "valid_answer h c (closing_os h c)" for h c
    using os_okD [OF test_os_ok, of h c] by (cases c) (simp_all add: closing_os_def)
  then show ?thesis by (simp add: os_ok_def)
qed

theorem sendAndRecv_disconnects_witness:
  "\<exists>sock' s'. sendAndRecv closing_os default_callback
     (TCPSocket (replicate 65536 0) (replicate 65536 0)\<lparr>fd := 3\<rparr>) sys_start = Inr (False, sock', s') \<and>
     recv_disconnected sock'"
  using sendAndRecv_disconnects [OF closing_os_ok, of "TCPSocket (replicate 65536 0) (replicate 65536 0)\<lparr>fd := 3\<rparr>"
      "Recvmsg 3 65536" "closing_os [] (Recvmsg 3 65536)" sys_start default_callback]
  by (auto simp: sock_wf_def TCPSocket_def sys_start_def closing_os_def word_less_nat_alt)

text \<open>
  A full receive buffer: with all 64 KB occupied the call makes no system call at all, logs
  it, marks the receive side broken and returns false; outgoing bytes stay queued.
\<close>

lemma sendAndRecv_full_buffer:
  assumes "0 \<le> fd sock" "next_rcv_valid_index sock \<ge> TCP_BUFFER_SIZE"
  shows "sendAndRecv os app sock s =
    Inr (False, sock\<lparr>recv_disconnected := True\<rparr>,
         log_call (''Receive buffer full socket:%'' @ [CHR 0x0A]) [A_int (word_of_int (fd sock))] s)"
  using assms by (simp add: sendAndRecv_def)

text \<open>The descriptor a socket owns.\<close>

definition owned_fd :: "tcp_socket \<Rightarrow> int set" where
  "owned_fd sock = (if 0 \<le> fd sock then {fd sock} else {})"

lemma destroy_releases:
  assumes "sys_inv F s" "owned_fd sock \<subseteq> F"
  shows "sys_inv (F - owned_fd sock) (snd (destroy os sock s))"
  using assms sys_inv_close [of F s "fd sock" os] by (auto simp: destroy_sys owned_fd_def)

lemma connect_spec:
  assumes "os_ok os" "sock_wf sock" "sys_inv F s" "owned_fd sock \<subseteq> F"
    and "connect os ip iface port is_listening sock s = (f, sock', s')"
  shows "sock_wf sock' \<and> fd sock' = f \<and> pending sock' = [] \<and> received sock' = [] \<and>
         \<not> send_disconnected sock' \<and> \<not> recv_disconnected sock' \<and>
         (f = - 1 \<and> sys_inv (F - owned_fd sock) s' \<or>
          0 \<le> f \<and> f \<notin> F - owned_fd sock \<and> sys_inv (insert f (F - owned_fd sock)) s') \<and>
         (owned_fd sock = {} \<longrightarrow> epoll_set (hist s') = epoll_set (hist s))"
proof -
  obtain sock1 s1 where d: "destroy os sock s = (sock1, s1)" by (meson surj_pair)
  obtain g s2 where c: "createSocket os ip iface port False False is_listening True s1 = (g, s2)"
    by (meson surj_pair)
  have inv: "sys_inv (F - owned_fd sock) s1" using destroy_releases [OF assms(3,4), of os] d by simp
  have r: "f = g" "s' = s2" "sock' = sock1\<lparr>fd := g,
      in_addr := \<lparr>sin_family = AF_INET, sin_port = htons (word_of_int port), s_addr = 0\<rparr>\<rparr>"
    using assms(5) d c by (auto simp: connect_def)
  have "sock_wf sock1" using destroy_wf [OF assms(2), of os s] d by simp
  moreover have "next_send_valid_index sock1 = 0" "next_rcv_valid_index sock1 = 0"
      "\<not> send_disconnected sock1" "\<not> recv_disconnected sock1"
    using d by (auto simp: destroy_def ext_def split: if_splits)
  moreover have "f = - 1 \<and> sys_inv (F - owned_fd sock) s' \<or>
      0 \<le> f \<and> f \<notin> F - owned_fd sock \<and> sys_inv (insert f (F - owned_fd sock)) s'"
    using createSocket_fds [OF assms(1) inv, of ip iface port False False is_listening True] c r(1,2)
    by (simp add: new_or_none_def)
  moreover have "owned_fd sock = {} \<longrightarrow> epoll_set (hist s') = epoll_set (hist s)"
    using createSocket_fds [OF assms(1) inv, of ip iface port False False is_listening True] c r(2) d
      destroy_sys [of os sock s] by (auto simp: new_or_none_def owned_fd_def split: if_splits)
  ultimately show ?thesis by (simp add: r sock_wf_def pending_def received_def)
qed

end
