(* ===== verification/TCP_Server.thy ===== *)
theory TCP_Server
  imports TCP_Socket
begin

text \<open>
  \<open>TCPServer\<close> of \<open>include/tcp_server.hpp\<close> and \<open>src/tcp_server.cpp\<close>: one listener and the
  accepted clients behind an epoll instance.

  \<^item> Clients are objects on a heap (\<open>heap\<close>, addresses to sockets); the four vectors hold
    addresses. Following a pointer to an object that is not there, and deleting one twice, are
    faults, so that a run without fault is free of use after free and double free. Address 0 is
    the null pointer and address 1 is \<open>&listener_socket_\<close>.
  \<^item> \<open>new TCPSocket\<close> takes its address and its buffer contents from a parameter \<open>alloc\<close>, which may
    give out an address again after it was freed (\<open>alloc_ok\<close>).
  \<^item> The accept loop has fuel, since it ends only when \<open>accept\<close> fails; the theorems show how much
    is enough.
\<close>

section \<open>The server\<close>

definition MAX_EPOLL_EVENTS :: int where "MAX_EPOLL_EVENTS = 1024"
definition EPOLLIN :: "32 word" where "EPOLLIN = 1"
definition EPOLLOUT :: "32 word" where "EPOLLOUT = 4"
definition EPOLLERR :: "32 word" where "EPOLLERR = 8"
definition EPOLLHUP :: "32 word" where "EPOLLHUP = 16"
definition EPOLLET :: "32 word" where "EPOLLET = 2147483648"

definition nullptr :: address where "nullptr = 0"
definition listener_addr :: address where "listener_addr = 1"

record server =
  efd :: int
  listener :: tcp_socket
  sockets :: "address list"
  receive_sockets :: "address list"
  send_sockets :: "address list"
  disconnected_sockets :: "address list"
  heap :: "address \<rightharpoonup> tcp_socket"
  srv_callback :: callback
  finished_callback :: callback

type_synonym allocator = "(address \<rightharpoonup> tcp_socket) \<Rightarrow> address \<times> byte list \<times> byte list"

definition TCPServer :: "byte list \<Rightarrow> byte list \<Rightarrow> server" where
  "TCPServer block1 block2 =
     \<lparr>efd = - 1, listener = TCPSocket block1 block2, sockets = [], receive_sockets = [],
      send_sockets = [], disconnected_sockets = [], heap = Map.empty,
      srv_callback = Server_callback, finished_callback = Server_callback\<rparr>"

definition deref :: "address \<Rightarrow> server \<Rightarrow> tcp_socket outcome" where
  "deref a srv =
     (if a = listener_addr then Inr (listener srv)
      else case heap srv a of
        Some sock \<Rightarrow> Inr sock
      | None \<Rightarrow> Inl (UndefinedBehaviour ''use of a deleted socket''))"

definition assign :: "address \<Rightarrow> tcp_socket \<Rightarrow> server \<Rightarrow> server" where
  "assign a sock srv =
     (if a = listener_addr then srv\<lparr>listener := sock\<rparr> else srv\<lparr>heap := (heap srv)(a \<mapsto> sock)\<rparr>)"

definition addUnique :: "address list \<Rightarrow> address \<Rightarrow> address list" where
  "addUnique xs a = (if a \<notin> set xs then xs @ [a] else xs)"

text \<open>\<open>delete socket\<close>.\<close>

definition delete_socket :: "os \<Rightarrow> address \<Rightarrow> server \<Rightarrow> sys \<Rightarrow> (server \<times> sys) outcome" where
  "delete_socket os a srv s =
     (case heap srv a of
        None \<Rightarrow> Inl (UndefinedBehaviour ''delete of a deleted socket'')
      | Some sock \<Rightarrow>
          let (gone, s1) = TCPSocket_dtor os sock s in Inr (srv\<lparr>heap := (heap srv)(a := None)\<rparr>, s1))"

fun delete_all :: "os \<Rightarrow> address list \<Rightarrow> server \<Rightarrow> sys \<Rightarrow> (server \<times> sys) outcome" where
  "delete_all os [] srv s = Inr (srv, s)"
| "delete_all os (a # as) srv s =
     obind (delete_socket os a srv s) (\<lambda>(srv1, s1). delete_all os as srv1 s1)"

definition server_destroy :: "os \<Rightarrow> server \<Rightarrow> sys \<Rightarrow> (server \<times> sys) outcome" where
  "server_destroy os srv s =
     obind (delete_all os (sockets srv) srv s) (\<lambda>(srv1, s1).
       let srv2 = srv1\<lparr>sockets := [], receive_sockets := [], send_sockets := [], disconnected_sockets := []\<rparr>;
           (srv3, s2) = (if efd srv2 \<ge> 0 then (srv2\<lparr>efd := - 1\<rparr>, snd (ext os (Close (efd srv2)) s1))
                         else (srv2, s1));
           (sock, s3) = destroy os (listener srv3) s2
       in Inr (srv3\<lparr>listener := sock\<rparr>, s3))"

text \<open>The destructor: \<open>destroy\<close>, then the listener member is destroyed.\<close>

definition TCPServer_dtor :: "os \<Rightarrow> server \<Rightarrow> sys \<Rightarrow> sys outcome" where
  "TCPServer_dtor os srv s =
     obind (server_destroy os srv s) (\<lambda>(srv1, s1). Inr (snd (TCPSocket_dtor os (listener srv1) s1)))"

definition epollAdd :: "os \<Rightarrow> address \<Rightarrow> server \<Rightarrow> sys \<Rightarrow> (bool \<times> sys) outcome" where
  "epollAdd os a srv s =
     (if efd srv < 0 \<or> a = nullptr then Inr (False, s)
      else obind (deref a srv) (\<lambda>sock.
        if fd sock < 0 then Inr (False, s)
        else let (r, s1) = ext os (Epoll_ctl_add (efd srv) (fd sock) (EPOLLIN OR EPOLLET) a) s
             in Inr (ret r \<noteq> - 1, s1)))"

definition epollDel :: "os \<Rightarrow> address \<Rightarrow> server \<Rightarrow> sys \<Rightarrow> (bool \<times> sys) outcome" where
  "epollDel os a srv s =
     (if efd srv < 0 \<or> a = nullptr then Inr (False, s)
      else obind (deref a srv) (\<lambda>sock.
        if fd sock < 0 then Inr (False, s)
        else let (r, s1) = ext os (Epoll_ctl_del (efd srv) (fd sock)) s in Inr (ret r \<noteq> - 1, s1)))"

definition del :: "os \<Rightarrow> address \<Rightarrow> server \<Rightarrow> sys \<Rightarrow> (server \<times> sys) outcome" where
  "del os a srv s =
     (if a = nullptr \<or> a = listener_addr then Inr (srv, s)
      else obind (epollDel os a srv s) (\<lambda>(ok, s1).
        delete_socket os a
          (srv\<lparr>sockets := removeAll a (sockets srv), receive_sockets := removeAll a (receive_sockets srv),
               send_sockets := removeAll a (send_sockets srv),
               disconnected_sockets := removeAll a (disconnected_sockets srv)\<rparr>) s1))"

definition listen :: "os \<Rightarrow> string \<Rightarrow> int \<Rightarrow> server \<Rightarrow> sys \<Rightarrow> (bool \<times> server \<times> sys) outcome" where
  "listen os iface port srv s =
     obind (server_destroy os srv s) (\<lambda>(srv1, s1).
       let (a, s2) = ext os (Epoll_create1 0) s1; srv2 = srv1\<lparr>efd := ret a\<rparr>
       in if efd srv2 < 0
          then Inr (False, srv2, log_call (''TCPServer epoll_create1 failed'' @ [CHR 0x0A]) [] s2)
          else let (listener_fd, sock, s3) = connect os '''' iface port True (listener srv2) s2;
                   srv3 = srv2\<lparr>listener := sock\<rparr>
               in if listener_fd < 0
                  then obind (server_destroy os srv3
                         (log_call (''TCPServer failed to create listener iface:% port:%'' @ [CHR 0x0A])
                            [A_string iface, A_int (word_of_int port)] s3)) (\<lambda>(srv4, s4). Inr (False, srv4, s4))
                  else obind (epollAdd os listener_addr srv3 s3) (\<lambda>(ok, s4).
                    if \<not> ok
                    then obind (server_destroy os srv3
                           (log_call (''TCPServer failed to add listener to epoll'' @ [CHR 0x0A]) [] s4))
                           (\<lambda>(srv5, s5). Inr (False, srv5, s5))
                    else Inr (True, srv3, s4)))"

section \<open>poll\<close>

fun del_all :: "os \<Rightarrow> address list \<Rightarrow> server \<Rightarrow> sys \<Rightarrow> (server \<times> sys) outcome" where
  "del_all os [] srv s = Inr (srv, s)"
| "del_all os (a # as) srv s = obind (del os a srv s) (\<lambda>(srv1, s1). del_all os as srv1 s1)"

definition handle_event :: "epoll_event \<Rightarrow> bool \<times> server \<Rightarrow> bool \<times> server" where
  "handle_event ev st =
     (let (have_new_connection, srv) = st; a = ev_ptr ev; flags = ev_events ev
      in if a = nullptr then st
         else if flags AND (EPOLLERR OR EPOLLHUP) \<noteq> 0
         then (have_new_connection,
               if a \<noteq> listener_addr
               then srv\<lparr>disconnected_sockets := addUnique (disconnected_sockets srv) a\<rparr> else srv)
         else if flags AND EPOLLIN \<noteq> 0 \<and> a = listener_addr then (True, srv)
         else let srv1 = (if flags AND EPOLLIN \<noteq> 0
                          then srv\<lparr>receive_sockets := addUnique (receive_sockets srv) a\<rparr> else srv);
                  srv2 = (if flags AND EPOLLOUT \<noteq> 0
                          then srv1\<lparr>send_sockets := addUnique (send_sockets srv1) a\<rparr> else srv1)
              in (have_new_connection, srv2))"

text \<open>What the accept loop does with a descriptor that \<open>accept\<close> returned.\<close>

definition admit :: "os \<Rightarrow> allocator \<Rightarrow> int \<Rightarrow> server \<Rightarrow> sys \<Rightarrow> (server \<times> sys) outcome" where
  "admit os alloc client_fd srv s =
     (let (ok1, s1) = setNonBlocking os client_fd s;
          (ok2, s2) = (if ok1 then setNoDelay os client_fd s1 else (False, s1))
      in if \<not> ok2 then Inr (srv, snd (ext os (Close client_fd) s2))
         else let (a, block1, block2) = alloc (heap srv);
                  sock = (TCPSocket block1 block2)\<lparr>fd := client_fd, recv_callback := srv_callback srv\<rparr>;
                  srv1 = srv\<lparr>heap := (heap srv)(a \<mapsto> sock)\<rparr>
              in obind (epollAdd os a srv1 s2) (\<lambda>(ok, s3).
                   if \<not> ok then delete_socket os a srv1 s3
                   else Inr (srv1\<lparr>sockets := addUnique (sockets srv1) a,
                                  receive_sockets := addUnique (receive_sockets srv1) a\<rparr>, s3)))"

fun accept_loop :: "os \<Rightarrow> allocator \<Rightarrow> nat \<Rightarrow> server \<Rightarrow> sys \<Rightarrow> (server \<times> sys) outcome" where
  "accept_loop os alloc 0 srv s = Inl OutOfFuel"
| "accept_loop os alloc (Suc k) srv s =
     (let (r, s1) = ext os (Accept (fd (listener srv))) s
      in if ret r < 0 then (if errno s1 = EAGAIN \<or> errno s1 = EWOULDBLOCK then Inr (srv, s1) else Inr (srv, s1))
         else obind (admit os alloc (ret r) srv s1) (\<lambda>(srv2, s2). accept_loop os alloc k srv2 s2))"

definition poll :: "os \<Rightarrow> allocator \<Rightarrow> nat \<Rightarrow> server \<Rightarrow> sys \<Rightarrow> (server \<times> sys) outcome" where
  "poll os alloc fuel srv s =
     (if efd srv < 0 then Inr (srv, s)
      else obind (del_all os (disconnected_sockets srv) (srv\<lparr>disconnected_sockets := []\<rparr>) s) (\<lambda>(srv1, s1).
        let (r, s2) = ext os (Epoll_wait (efd srv1) MAX_EPOLL_EVENTS 0) s1
        in if ret r < 0 then Inr (srv1, s2)
           else let (have_new_connection, srv2) =
                      fold handle_event (take (nat (ret r)) (ans_events r)) (False, srv1)
                in if have_new_connection then accept_loop os alloc fuel srv2 s2 else Inr (srv2, s2)))"

section \<open>sendAndRecv\<close>

definition io_socket :: "os \<Rightarrow> receiver \<Rightarrow> address \<Rightarrow> server \<Rightarrow> sys \<Rightarrow> (bool \<times> server \<times> sys) outcome" where
  "io_socket os app a srv s =
     obind (deref a srv) (\<lambda>sock.
     obind (sendAndRecv os app sock s) (\<lambda>(got, sock1, s1).
       let srv1 = assign a sock1 srv
       in Inr (got, if recv_disconnected sock1 \<or> send_disconnected sock1
                    then srv1\<lparr>disconnected_sockets := addUnique (disconnected_sockets srv1) a\<rparr>
                    else srv1, s1)))"

fun recv_round :: "os \<Rightarrow> receiver \<Rightarrow> address list \<Rightarrow> bool \<Rightarrow> server \<Rightarrow> sys \<Rightarrow> (bool \<times> server \<times> sys) outcome" where
  "recv_round os app [] received_anything srv s = Inr (received_anything, srv, s)"
| "recv_round os app (a # as) received_anything srv s =
     (if a = nullptr then recv_round os app as received_anything srv s
      else obind (io_socket os app a srv s) (\<lambda>(got, srv1, s1).
        recv_round os app as (received_anything \<or> got) srv1 s1))"

fun send_round :: "os \<Rightarrow> receiver \<Rightarrow> address list \<Rightarrow> server \<Rightarrow> sys \<Rightarrow> (server \<times> sys) outcome" where
  "send_round os app [] srv s = Inr (srv, s)"
| "send_round os app (a # as) srv s =
     (if a = nullptr then send_round os app as srv s
      else if a \<in> set (receive_sockets srv) then send_round os app as srv s
      else obind (io_socket os app a srv s) (\<lambda>(got, srv1, s1). send_round os app as srv1 s1))"

definition finished :: "(sys \<Rightarrow> sys) \<Rightarrow> server \<Rightarrow> sys \<Rightarrow> sys" where
  "finished app_finished srv s =
     (case finished_callback srv of
        App_callback \<Rightarrow> app_finished s
      | _ \<Rightarrow> log_call (''TCPServer receive round finished'' @ [CHR 0x0A]) [] s)"

definition server_sendAndRecv ::
    "os \<Rightarrow> receiver \<Rightarrow> (sys \<Rightarrow> sys) \<Rightarrow> server \<Rightarrow> sys \<Rightarrow> (server \<times> sys) outcome" where
  "server_sendAndRecv os app app_finished srv s =
     (if efd srv < 0 then Inr (srv, s)
      else obind (recv_round os app (receive_sockets srv) False srv s) (\<lambda>(received_anything, srv1, s1).
        let s2 = (if received_anything then finished app_finished srv1 s1 else s1)
        in send_round os app (send_sockets srv1) srv1 s2))"

section \<open>The invariant\<close>

text \<open>The descriptors the server owns: the epoll instance, the listener's and the clients'.\<close>

definition owned_efd :: "server \<Rightarrow> int set" where
  "owned_efd srv = (if 0 \<le> efd srv then {efd srv} else {})"

definition client_fds :: "server \<Rightarrow> int set" where
  "client_fds srv = {fd sock |a sock. heap srv a = Some sock}"

definition server_fds :: "server \<Rightarrow> int set" where
  "server_fds srv = owned_efd srv \<union> owned_fd (listener srv) \<union> client_fds srv"

text \<open>No two owners share a descriptor, and every object is well formed.\<close>

definition separate :: "server \<Rightarrow> bool" where
  "separate srv \<longleftrightarrow>
     owned_efd srv \<inter> owned_fd (listener srv) = {} \<and>
     client_fds srv \<inter> (owned_efd srv \<union> owned_fd (listener srv)) = {} \<and>
     (\<forall>a b k l. heap srv a = Some k \<longrightarrow> heap srv b = Some l \<longrightarrow> fd k = fd l \<longrightarrow> a = b)"

definition objects_wf :: "server \<Rightarrow> bool" where
  "objects_wf srv \<longleftrightarrow> sock_wf (listener srv) \<and>
     (\<forall>a k. heap srv a = Some k \<longrightarrow> sock_wf k \<and> 0 \<le> fd k \<and> a \<notin> {nullptr, listener_addr})"

text \<open>Every registration with the server's epoll instance names the owner of its descriptor.\<close>

definition regs_ok :: "server \<Rightarrow> sys \<Rightarrow> bool" where
  "regs_ok srv s \<longleftrightarrow>
     (\<forall>(e, f, p) \<in> set (epoll_set (hist s)). e = efd srv \<longrightarrow>
        p = listener_addr \<and> f = fd (listener srv) \<or> (\<exists>k. heap srv p = Some k \<and> f = fd k))"

definition core_inv :: "int set \<Rightarrow> server \<Rightarrow> sys \<Rightarrow> bool" where
  "core_inv B srv s \<longleftrightarrow>
     sys_inv (B \<union> server_fds srv) s \<and> B \<inter> server_fds srv = {} \<and>
     separate srv \<and> objects_wf srv \<and> regs_ok srv s"

text \<open>The vectors: \<open>sockets_\<close> lists exactly the live clients, and the other three hold nothing else
  (the listener may get into the last two, where it does no harm).\<close>

definition lists_inv :: "server \<Rightarrow> bool" where
  "lists_inv srv \<longleftrightarrow>
     set (sockets srv) = dom (heap srv) \<and> distinct (sockets srv) \<and>
     set (receive_sockets srv) \<subseteq> dom (heap srv) \<and> distinct (receive_sockets srv) \<and>
     set (send_sockets srv) \<subseteq> insert listener_addr (dom (heap srv)) \<and> distinct (send_sockets srv) \<and>
     set (disconnected_sockets srv) \<subseteq> insert listener_addr (dom (heap srv)) \<and>
     distinct (disconnected_sockets srv)"

definition server_inv :: "int set \<Rightarrow> server \<Rightarrow> sys \<Rightarrow> bool" where
  "server_inv B srv s \<longleftrightarrow> core_inv B srv s \<and> lists_inv srv"

lemma core_invD:
  assumes "core_inv B srv s"
  shows "sys_inv (B \<union> server_fds srv) s" "B \<inter> server_fds srv = {}" "separate srv" "objects_wf srv" "regs_ok srv s"
  using assms by (simp_all add: core_inv_def)

lemma addUnique_set [simp]: "set (addUnique xs a) = insert a (set xs)"
  by (auto simp: addUnique_def)

lemma addUnique_distinct [simp]: "distinct (addUnique xs a) = distinct xs"
  by (auto simp: addUnique_def)

lemma core_quiet:
  assumes "core_inv B srv s" "\<And>F. quiet F s t"
  shows "core_inv B srv t"
proof -
  have "sys_inv (B \<union> server_fds srv) t \<and> epoll_set (hist t) = epoll_set (hist s)"
    using assms(2) [of "B \<union> server_fds srv"] core_invD(1) [OF assms(1)] by (simp add: quiet_def)
  with assms(1) show ?thesis by (simp add: core_inv_def regs_ok_def)
qed

text \<open>Descriptors that belong to nobody yet can be kept aside.\<close>

lemma core_fds_change:
  assumes "core_inv B srv s" "sys_inv (B' \<union> server_fds srv) t" "B' \<inter> server_fds srv = {}"
    "epoll_set (hist t) = epoll_set (hist s)"
  shows "core_inv B' srv t"
  using assms by (simp add: core_inv_def regs_ok_def)

lemma client_fds_iff: "x \<in> client_fds srv \<longleftrightarrow> (\<exists>a k. heap srv a = Some k \<and> fd k = x)"
  by (auto simp: client_fds_def)

lemma separate_inj: "separate srv \<Longrightarrow> heap srv a = Some k \<Longrightarrow> heap srv b = Some l \<Longrightarrow> fd k = fd l \<Longrightarrow> a = b"
  unfolding separate_def by blast

lemma server_fds_upd [simp]:
  "owned_efd (srv\<lparr>heap := h\<rparr>) = owned_efd srv"
  "owned_efd (srv\<lparr>listener := l\<rparr>) = owned_efd srv"
  "client_fds (srv\<lparr>listener := l\<rparr>) = client_fds srv"
  "client_fds (srv\<lparr>efd := e\<rparr>) = client_fds srv"
  by (simp_all add: owned_efd_def client_fds_def)

lemma client_fds_remove:
  assumes "separate srv" "heap srv a = Some k"
  shows "client_fds (srv\<lparr>heap := (heap srv)(a := None)\<rparr>) = client_fds srv - {fd k}"
proof (intro set_eqI iffI)
  fix x
  assume "x \<in> client_fds (srv\<lparr>heap := (heap srv)(a := None)\<rparr>)"
  then obtain b l where "b \<noteq> a" "heap srv b = Some l" "fd l = x"
    by (auto simp: client_fds_iff split: if_splits)
  with separate_inj [OF assms(1) _ assms(2)] show "x \<in> client_fds srv - {fd k}"
    by (auto simp: client_fds_iff)
next
  fix x
  assume "x \<in> client_fds srv - {fd k}"
  then obtain b l where "heap srv b = Some l" "fd l = x" "x \<noteq> fd k" by (auto simp: client_fds_iff)
  moreover from this have "b \<noteq> a" using assms(2) by auto
  ultimately show "x \<in> client_fds (srv\<lparr>heap := (heap srv)(a := None)\<rparr>)"
    by (auto simp: client_fds_iff)
qed

lemma server_fds_remove:
  assumes "separate srv" "heap srv a = Some k"
  shows "server_fds (srv\<lparr>heap := (heap srv)(a := None)\<rparr>) = server_fds srv - {fd k}"
proof -
  have "fd k \<in> client_fds srv" using assms(2) by (auto simp: client_fds_iff)
  then have "fd k \<notin> owned_efd srv \<union> owned_fd (listener srv)"
    using assms(1) unfolding separate_def by blast
  then show ?thesis
    unfolding server_fds_def client_fds_remove [OF assms] by (simp, blast)
qed

lemma separate_remove:
  assumes "separate srv" "heap srv a = Some k"
  shows "separate (srv\<lparr>heap := (heap srv)(a := None)\<rparr>)"
  using assms(1) unfolding separate_def client_fds_remove [OF assms] by (simp, blast)

lemma epoll_close_regs:
  "(e, f, p) \<in> set (epoll_effect (Close g, a) rs) \<longleftrightarrow> (e, f, p) \<in> set rs \<and> e \<noteq> g \<and> f \<noteq> g"
  by auto

lemma delete_socket_core:
  assumes inv: "core_inv B srv s" and a: "heap srv a = Some k"
  shows "\<exists>t. delete_socket os a srv s = Inr (srv\<lparr>heap := (heap srv)(a := None)\<rparr>, t) \<and>
    core_inv B (srv\<lparr>heap := (heap srv)(a := None)\<rparr>) t \<and> t = after os (Close (fd k)) s"
proof -
  let ?srv = "srv\<lparr>heap := (heap srv)(a := None)\<rparr>" and ?t = "after os (Close (fd k)) s"
  note D = core_invD [OF inv]
  have k: "0 \<le> fd k" "fd k \<in> server_fds srv" "fd k \<notin> B"
    using D(2,4) a by (auto simp: objects_wf_def server_fds_def client_fds_def)
  have fds: "server_fds ?srv = server_fds srv - {fd k}" by (rule server_fds_remove [OF D(3) a])
  have "B \<union> server_fds srv - {fd k} = B \<union> server_fds ?srv" using k fds by blast
  then have "sys_inv (B \<union> server_fds ?srv) ?t" using sys_inv_close [OF D(1), of "fd k" os] k(2) by simp
  moreover have "regs_ok ?srv ?t"
  proof -
    have "p = listener_addr \<and> f = fd (listener srv) \<or> (\<exists>l. heap ?srv p = Some l \<and> f = fd l)"
      if "(e, f, p) \<in> set (epoll_set (hist s))" "f \<noteq> fd k" "e = efd srv" for e f p
    proof -
      from D(5) that have "p = listener_addr \<and> f = fd (listener srv) \<or> (\<exists>l. heap srv p = Some l \<and> f = fd l)"
        unfolding regs_ok_def by blast
      with that(2) a show ?thesis by auto
    qed
    then show ?thesis by (auto simp: regs_ok_def)
  qed
  moreover have "objects_wf ?srv" using D(4) by (simp add: objects_wf_def)
  moreover have "delete_socket os a srv s = Inr (?srv, ?t)"
    using a k(1) by (simp add: delete_socket_def TCPSocket_dtor_def destroy_def ext_def)
  ultimately show ?thesis using D(2) fds separate_remove [OF D(3) a] by (auto simp: core_inv_def)
qed

lemma core_inv_lists [simp]:
  "core_inv B (srv\<lparr>sockets := x\<rparr>) s = core_inv B srv s"
  "core_inv B (srv\<lparr>receive_sockets := x\<rparr>) s = core_inv B srv s"
  "core_inv B (srv\<lparr>send_sockets := x\<rparr>) s = core_inv B srv s"
  "core_inv B (srv\<lparr>disconnected_sockets := x\<rparr>) s = core_inv B srv s"
  by (simp_all add: core_inv_def server_fds_def owned_efd_def client_fds_def separate_def objects_wf_def regs_ok_def)

lemma core_regs_subset:
  assumes "core_inv B srv s" "sys_inv (B \<union> server_fds srv) t" "set (epoll_set (hist t)) \<subseteq> set (epoll_set (hist s))"
  shows "core_inv B srv t"
proof -
  have "regs_ok srv t" using core_invD(5) [OF assms(1)] assms(3) unfolding regs_ok_def by blast
  with assms show ?thesis by (simp add: core_inv_def)
qed

lemma derefD:
  assumes "deref a srv = Inr k" "core_inv B srv s"
  shows "sock_wf k" "a = listener_addr \<and> k = listener srv \<or> a \<noteq> listener_addr \<and> heap srv a = Some k"
    "0 \<le> fd k \<Longrightarrow> fd k \<in> server_fds srv"
  using assms core_invD(4) [OF assms(2)]
  by (auto simp: deref_def objects_wf_def server_fds_def owned_fd_def client_fds_iff split: if_splits option.splits)

lemma deref_live: "a \<in> insert listener_addr (dom (heap srv)) \<Longrightarrow> \<exists>k. deref a srv = Inr k"
  by (auto simp: deref_def)

lemma listener_not_null: "listener_addr \<noteq> nullptr"
  by (simp add: listener_addr_def nullptr_def)

lemma epollDel_core:
  assumes inv: "core_inv B srv s" and a: "deref a srv = Inr k"
  shows "\<exists>ok t. epollDel os a srv s = Inr (ok, t) \<and> core_inv B srv t"
proof -
  let ?c = "Epoll_ctl_del (efd srv) (fd k)"
  have "sys_inv (B \<union> server_fds srv) (after os ?c s)"
    using core_invD(1) [OF inv] by (auto simp: sys_inv_def)
  then have "core_inv B srv (after os ?c s)" by (rule core_regs_subset [OF inv]) auto
  then show ?thesis using inv a by (auto simp: epollDel_def ext_def)
qed

lemma epollAdd_core:
  assumes os: "os_ok os" and inv: "core_inv B srv s" and a: "deref a srv = Inr k" "a \<noteq> nullptr"
  shows "\<exists>ok t. epollAdd os a srv s = Inr (ok, t) \<and> core_inv B srv t"
proof -
  let ?c = "Epoll_ctl_add (efd srv) (fd k) (EPOLLIN OR EPOLLET) a"
  note D = core_invD [OF inv]
  have va: "valid_answer (hist s) ?c (os (hist s) ?c)" by (rule os_okD [OF os])
  have "sys_inv (B \<union> server_fds srv) (after os ?c s)"
    using D(1) va by (auto simp: sys_inv_def)
  moreover have "regs_ok srv (after os ?c s)"
    using D(5) derefD(2) [OF a(1) inv] by (auto simp: regs_ok_def)
  ultimately have "core_inv B srv (after os ?c s)" using D by (simp add: core_inv_def)
  then show ?thesis using inv a by (auto simp: epollAdd_def ext_def)
qed

text \<open>What stays fixed while clients come and go.\<close>

definition same_frame :: "server \<Rightarrow> server \<Rightarrow> bool" where
  "same_frame srv srv' \<longleftrightarrow> efd srv' = efd srv \<and> fd (listener srv') = fd (listener srv) \<and>
     srv_callback srv' = srv_callback srv \<and> finished_callback srv' = finished_callback srv"

lemma same_frame_refl [simp]: "same_frame srv srv"
  by (simp add: same_frame_def)

lemma same_frame_trans: "same_frame a b \<Longrightarrow> same_frame b c \<Longrightarrow> same_frame a c"
  by (simp add: same_frame_def)

lemma del_inv:
  assumes inv: "server_inv B srv s" and a: "a \<in> insert listener_addr (dom (heap srv))"
  shows "\<exists>srv' t. del os a srv s = Inr (srv', t) \<and> server_inv B srv' t \<and> same_frame srv srv' \<and>
    dom (heap srv') = dom (heap srv) - (if a = listener_addr then {} else {a})"
proof (cases "a = listener_addr")
  case True
  then show ?thesis using inv by (simp add: del_def)
next
  case False
  then obtain k where k: "heap srv a = Some k" using a by auto
  have core: "core_inv B srv s" and lists: "lists_inv srv" using inv by (simp_all add: server_inv_def)
  have nn: "a \<noteq> nullptr" using core_invD(4) [OF core] k by (auto simp: objects_wf_def)
  have "deref a srv = Inr k" using False k by (simp add: deref_def)
  then obtain ok t where t: "epollDel os a srv s = Inr (ok, t)" "core_inv B srv t"
    using epollDel_core [OF core] by blast
  let ?srv = "srv\<lparr>sockets := removeAll a (sockets srv), receive_sockets := removeAll a (receive_sockets srv),
               send_sockets := removeAll a (send_sockets srv),
               disconnected_sockets := removeAll a (disconnected_sockets srv)\<rparr>"
  have "core_inv B ?srv t" "heap ?srv a = Some k" using t(2) k by simp_all
  then obtain u where u: "delete_socket os a ?srv t = Inr (?srv\<lparr>heap := (heap ?srv)(a := None)\<rparr>, u)"
      "core_inv B (?srv\<lparr>heap := (heap ?srv)(a := None)\<rparr>) u"
    using delete_socket_core by blast
  have "lists_inv (?srv\<lparr>heap := (heap ?srv)(a := None)\<rparr>)"
    using lists by (auto simp: lists_inv_def distinct_removeAll)
  with u t(1) False nn show ?thesis
    by (auto simp: del_def server_inv_def same_frame_def)
qed

lemma del_all_inv:
  assumes "server_inv B srv s" "set as \<subseteq> insert listener_addr (dom (heap srv))" "distinct as"
  shows "\<exists>srv' t. del_all os as srv s = Inr (srv', t) \<and> server_inv B srv' t \<and> same_frame srv srv' \<and>
    dom (heap srv') = dom (heap srv) - (set as - {listener_addr})"
  using assms
proof (induction as arbitrary: srv s)
  case (Cons a as)
  obtain srv1 s1 where d: "del os a srv s = Inr (srv1, s1)" "server_inv B srv1 s1" "same_frame srv srv1"
      "dom (heap srv1) = dom (heap srv) - (if a = listener_addr then {} else {a})"
    using del_inv [OF Cons.prems(1), of a os] Cons.prems(2) by auto
  have "set as \<subseteq> insert listener_addr (dom (heap srv1))" using Cons.prems(2,3) d(4) by auto
  then obtain srv' t where r: "del_all os as srv1 s1 = Inr (srv', t)" "server_inv B srv' t"
      "same_frame srv1 srv'" "dom (heap srv') = dom (heap srv1) - (set as - {listener_addr})"
    using Cons.IH [OF d(2)] Cons.prems(3) by auto
  have "dom (heap srv') = dom (heap srv) - (set (a # as) - {listener_addr})"
    using r(4) d(4) by auto
  with r d(1) same_frame_trans [OF d(3) r(3)] show ?case by auto
qed (simp add: same_frame_def)

lemma handle_event_inv:
  assumes "lists_inv srv" "ev_ptr ev \<in> insert listener_addr (dom (heap srv))"
    "handle_event ev (b, srv) = (b', srv')"
  shows "lists_inv srv'" "heap srv' = heap srv" "same_frame srv srv'" "core_inv B srv' s = core_inv B srv s"
  using assms by (auto simp: handle_event_def Let_def lists_inv_def same_frame_def split: if_splits)

lemma handle_events_inv:
  assumes "server_inv B srv s" "\<forall>ev \<in> set evs. ev_ptr ev \<in> insert listener_addr (dom (heap srv))"
  shows "\<exists>b' srv'. fold handle_event evs (b, srv) = (b', srv') \<and> server_inv B srv' s \<and>
    same_frame srv srv' \<and> heap srv' = heap srv"
  using assms
proof (induction evs arbitrary: b srv)
  case (Cons ev evs)
  obtain b1 srv1 where h: "handle_event ev (b, srv) = (b1, srv1)" by (meson surj_pair)
  have i: "lists_inv srv1" "heap srv1 = heap srv" "same_frame srv srv1" "core_inv B srv1 s = core_inv B srv s"
    using handle_event_inv [OF _ _ h] Cons.prems by (auto simp: server_inv_def)
  then have "server_inv B srv1 s" using Cons.prems(1) by (simp add: server_inv_def)
  then obtain b' srv' where "fold handle_event evs (b1, srv1) = (b', srv')" "server_inv B srv' s"
      "same_frame srv1 srv'" "heap srv' = heap srv1"
    using Cons.IH [of srv1 b1] Cons.prems(2) i(2) by auto
  with h i same_frame_trans show ?case by auto
qed (simp add: same_frame_def)

section \<open>Accepting\<close>

definition alloc_ok :: "allocator \<Rightarrow> bool" where
  "alloc_ok alloc \<longleftrightarrow>
     (\<forall>h. finite (dom h) \<longrightarrow> (case alloc h of (a, b1, b2) \<Rightarrow>
        a \<notin> dom h \<and> a \<notin> {nullptr, listener_addr} \<and> length b1 = 65536 \<and> length b2 = 65536))"

lemma core_close_extra:
  assumes "core_inv (insert f B) srv s" "f \<notin> B"
  shows "core_inv B srv (after os (Close f) s)"
proof -
  note D = core_invD [OF assms(1)]
  have "insert f B \<union> server_fds srv - {f} = B \<union> server_fds srv" using D(2) assms(2) by auto
  then have "sys_inv (B \<union> server_fds srv) (after os (Close f) s)"
    using sys_inv_close [OF D(1), of f os] by simp
  moreover have "regs_ok srv (after os (Close f) s)" using D(5) by (auto simp: regs_ok_def)
  ultimately show ?thesis using D by (simp add: core_inv_def)
qed

lemma core_wrap:
  assumes inv: "core_inv (insert f B) srv s" and f: "f \<notin> B" "0 \<le> f"
    and a: "heap srv a = None" "a \<notin> {nullptr, listener_addr}" and k: "sock_wf k" "fd k = f"
  shows "core_inv B (srv\<lparr>heap := (heap srv)(a \<mapsto> k)\<rparr>) s"
proof -
  let ?srv = "srv\<lparr>heap := (heap srv)(a \<mapsto> k)\<rparr>"
  note D = core_invD [OF inv]
  have fresh: "f \<notin> server_fds srv" using D(2) by simp
  have c: "client_fds ?srv = insert f (client_fds srv)"
    using a(1) k(2) by (auto simp: client_fds_iff split: if_splits) (metis option.distinct(1))
  then have fds: "server_fds ?srv = insert f (server_fds srv)" by (simp add: server_fds_def)
  have "separate ?srv"
    unfolding separate_def
  proof (intro conjI allI impI)
    show "owned_efd ?srv \<inter> owned_fd (listener ?srv) = {}" using D(3) by (simp add: separate_def)
    show "client_fds ?srv \<inter> (owned_efd ?srv \<union> owned_fd (listener ?srv)) = {}"
      using D(3) fresh by (auto simp: c separate_def server_fds_def)
    fix x y kx ky
    assume "heap ?srv x = Some kx" "heap ?srv y = Some ky" "fd kx = fd ky"
    moreover have "fd l \<noteq> f" if "heap srv z = Some l" for z l
      using fresh that by (auto simp: server_fds_def client_fds_iff)
    ultimately show "x = y" using separate_inj [OF D(3), of x kx y ky] k(2) by (auto split: if_splits)
  qed
  moreover have "objects_wf ?srv" using D(4) a(2) k f(2) by (auto simp: objects_wf_def)
  moreover have "regs_ok ?srv s" using D(5) a(1) by (fastforce simp: regs_ok_def)
  ultimately show ?thesis using D(1,2) f(1) fds by (simp add: core_inv_def)
qed

lemma finite_heap: "lists_inv srv \<Longrightarrow> finite (dom (heap srv))"
  by (metis List.finite_set lists_inv_def)

lemma admit_inv:
  assumes os: "os_ok os" and al: "alloc_ok alloc" and inv: "server_inv (insert f B) srv s"
    and f: "f \<notin> B" "0 \<le> f"
  shows "\<exists>srv' t. admit os alloc f srv s = Inr (srv', t) \<and> server_inv B srv' t \<and> same_frame srv srv'"
proof -
  have core: "core_inv (insert f B) srv s" and lists: "lists_inv srv" using inv by (simp_all add: server_inv_def)
  obtain ok1 s1 where nb: "setNonBlocking os f s = (ok1, s1)" by (meson surj_pair)
  obtain ok2 s2 where nd: "(if ok1 then setNoDelay os f s1 else (False, s1)) = (ok2, s2)" by (meson surj_pair)
  have "quiet F s s1" for F using setNonBlocking_spec(1) [OF nb] .
  then have c1: "core_inv (insert f B) srv s1" by (rule core_quiet [OF core])
  have "quiet F s1 s2" for F
    using nd by (auto simp: setNoDelay_def ext_def ext_quiet split: if_splits)
  then have c2: "core_inv (insert f B) srv s2" by (rule core_quiet [OF c1])
  obtain a b1 b2 where a: "alloc (heap srv) = (a, b1, b2)" by (metis surj_pair)
  then have fresh: "heap srv a = None" "a \<notin> {nullptr, listener_addr}" "length b1 = 65536" "length b2 = 65536"
    using al finite_heap [OF lists] by (auto simp: alloc_ok_def)
  let ?k = "(TCPSocket b1 b2)\<lparr>fd := f, recv_callback := srv_callback srv\<rparr>"
  let ?srv = "srv\<lparr>heap := (heap srv)(a \<mapsto> ?k)\<rparr>"
  have "sock_wf ?k" using TCPSocket_wf [OF fresh(3,4)] by (simp add: sock_wf_def)
  then have w: "core_inv B ?srv s2" using core_wrap [OF c2 f fresh(1,2), of ?k] by simp
  have "deref a ?srv = Inr ?k" using fresh(2) by (simp add: deref_def)
  then obtain ok s3 where ep: "epollAdd os a ?srv s2 = Inr (ok, s3)" "core_inv B ?srv s3"
    using epollAdd_core [OF os w] fresh(2) by blast
  obtain t where dl: "delete_socket os a ?srv s3 = Inr (?srv\<lparr>heap := (heap ?srv)(a := None)\<rparr>, t)"
      "core_inv B (?srv\<lparr>heap := (heap ?srv)(a := None)\<rparr>) t"
    using delete_socket_core [OF ep(2), of a ?k os] by auto
  have restored: "?srv\<lparr>heap := (heap ?srv)(a := None)\<rparr> = srv" using fresh(1) by (simp add: fun_upd_idem)
  consider (refused) "\<not> ok2" | (dropped) "ok2" "\<not> ok" | (kept) "ok2" "ok" by blast
  then show ?thesis
  proof cases
    case refused
    then show ?thesis
      using nb nd core_close_extra [OF c2 f(1)] lists
      by (simp add: admit_def ext_def server_inv_def same_frame_def)
  next
    case dropped
    then have "admit os alloc f srv s = Inr (srv, t)"
      using nb nd a ep(1) dl(1) unfolding restored by (simp add: admit_def)
    then show ?thesis using dl(2) lists unfolding restored by (simp add: server_inv_def)
  next
    case kept
    let ?srv' = "?srv\<lparr>sockets := addUnique (sockets ?srv) a, receive_sockets := addUnique (receive_sockets ?srv) a\<rparr>"
    have "admit os alloc f srv s = Inr (?srv', s3)" using kept nb nd a ep(1) by (simp add: admit_def)
    moreover have "lists_inv ?srv'" using lists by (auto simp: lists_inv_def)
    moreover have "core_inv B ?srv' s3" using ep(2) by simp
    ultimately show ?thesis by (simp add: server_inv_def same_frame_def)
  qed
qed

text \<open>The loop ends when \<open>accept\<close> fails. If at most \<open>n\<close> more connections can arrive, \<open>n + 1\<close>
  rounds are enough.\<close>

definition accepted_count :: "history \<Rightarrow> nat" where
  "accepted_count h = length (filter (\<lambda>(c, a). (\<exists>l. c = Accept l) \<and> 0 \<le> ret a) h)"

definition clients_bounded :: "os \<Rightarrow> nat \<Rightarrow> bool" where
  "clients_bounded os n \<longleftrightarrow> (\<forall>h l. n \<le> accepted_count h \<longrightarrow> ret (os h (Accept l)) < 0)"

lemma accepted_count_append [simp]:
  "accepted_count (h @ h') = accepted_count h + accepted_count h'"
  by (simp add: accepted_count_def)

lemma accepted_count_accept: "0 \<le> ret a \<Longrightarrow> accepted_count [(Accept l, a)] = 1"
  by (simp add: accepted_count_def)

lemma epollAdd_count: "epollAdd os a srv s = Inr (ok, t) \<Longrightarrow> accepted_count (hist s) \<le> accepted_count (hist t)"
  by (auto simp: epollAdd_def ext_def obind_Inr_iff split: if_splits)

lemma delete_count: "delete_socket os a srv s = Inr (srv', t) \<Longrightarrow> accepted_count (hist s) \<le> accepted_count (hist t)"
  by (auto simp: delete_socket_def TCPSocket_dtor_def destroy_def ext_def split: option.splits if_splits)

lemma admit_count:
  assumes "admit os alloc f srv s = Inr (srv', t)"
  shows "accepted_count (hist s) \<le> accepted_count (hist t)"
proof -
  obtain ok1 s1 where nb: "setNonBlocking os f s = (ok1, s1)" by (meson surj_pair)
  obtain ok2 s2 where nd: "(if ok1 then setNoDelay os f s1 else (False, s1)) = (ok2, s2)" by (meson surj_pair)
  have "accepted_count (hist s) \<le> accepted_count (hist s1)"
    using nb by (auto simp: setNonBlocking_def ext_def Let_def split: if_splits)
  also have "\<dots> \<le> accepted_count (hist s2)"
    using nd by (auto simp: setNoDelay_def ext_def split: if_splits)
  also have "\<dots> \<le> accepted_count (hist t)"
    using assms nb nd
    by (auto simp: admit_def ext_def Let_def obind_Inr_iff split: if_splits prod.splits
        dest!: epollAdd_count delete_count)
  finally show ?thesis .
qed

text \<open>One call of \<open>accept\<close>: a new descriptor belongs to nobody yet.\<close>

lemma accept_one:
  assumes os: "os_ok os" and inv: "server_inv B srv s" and c: "c = Accept (fd (listener srv))"
    and r: "r = ret (os (hist s) c)"
  shows "r < 0 \<Longrightarrow> server_inv B srv (after os c s)"
    "\<not> r < 0 \<Longrightarrow> r \<notin> B \<union> server_fds srv \<and> server_inv (insert r B) srv (after os c s)"
proof -
  have core: "core_inv B srv s" and lists: "lists_inv srv" using inv by (simp_all add: server_inv_def)
  note D = core_invD [OF core]
  note new = ext_new_fd [OF os D(1), of c, unfolded c, simplified, folded c]
  have regs: "epoll_set (hist (after os c s)) = epoll_set (hist s)" by (simp add: c)
  show "server_inv B srv (after os c s)" if "r < 0"
  proof -
    have "sys_inv (B \<union> server_fds srv) (after os c s)" using new that r by auto
    then have "core_inv B srv (after os c s)" using core_fds_change [OF core _ D(2) regs] by simp
    then show ?thesis using lists by (simp add: server_inv_def)
  qed
  show "r \<notin> B \<union> server_fds srv \<and> server_inv (insert r B) srv (after os c s)" if "\<not> r < 0"
  proof -
    have f: "r \<notin> B \<union> server_fds srv" "sys_inv (insert r (B \<union> server_fds srv)) (after os c s)"
      using new that r by auto
    then have "core_inv (insert r B) srv (after os c s)"
      using core_fds_change [OF core, of "insert r B" "after os c s"] D(2) regs by simp
    then show ?thesis using f(1) lists by (simp add: server_inv_def)
  qed
qed

lemma accept_loop_inv:
  assumes os: "os_ok os" and al: "alloc_ok alloc" and n: "clients_bounded os n"
    and "server_inv B srv s" "n - accepted_count (hist s) < k"
  shows "\<exists>srv' t. accept_loop os alloc k srv s = Inr (srv', t) \<and> server_inv B srv' t \<and> same_frame srv srv'"
  using assms(4,5)
proof (induction k arbitrary: srv s)
  case (Suc k)
  let ?c = "Accept (fd (listener srv))"
  let ?r = "ret (os (hist s) ?c)" and ?s1 = "after os ?c s"
  note one = accept_one [OF os Suc.prems(1) refl refl]
  show ?case
  proof (cases "?r < 0")
    case True
    then show ?thesis using one(1) by (simp add: ext_def)
  next
    case False
    then obtain srv2 s2 where a: "admit os alloc ?r srv ?s1 = Inr (srv2, s2)" "server_inv B srv2 s2"
        "same_frame srv srv2"
      using admit_inv [OF os al, of ?r B srv ?s1] one(2) by auto
    have "accepted_count (hist s) < n"
      using n False unfolding clients_bounded_def by (meson not_less)
    moreover have "Suc (accepted_count (hist s)) \<le> accepted_count (hist s2)"
      using admit_count [OF a(1)] False by (simp add: accepted_count_accept)
    ultimately have "n - accepted_count (hist s2) < k" using Suc.prems(2) by linarith
    then obtain srv' t where "accept_loop os alloc k srv2 s2 = Inr (srv', t)" "server_inv B srv' t"
        "same_frame srv2 srv'"
      using Suc.IH [OF a(2)] by blast
    with False a same_frame_trans show ?thesis by (auto simp: ext_def)
  qed
qed simp

section \<open>The operations\<close>

lemma handle_events_heap: "heap (snd (fold handle_event evs st)) = heap (snd st)"
proof (induction evs arbitrary: st)
  case (Cons ev evs)
  moreover have "heap (snd (handle_event ev st)) = heap (snd st)"
    by (cases st) (simp add: handle_event_def Let_def)
  ultimately show ?case by simp
qed simp

text \<open>\<open>poll\<close> up to the accept loop.\<close>

lemma poll_stages:
  assumes os: "os_ok os" and inv: "server_inv B srv s" and e: "0 \<le> efd srv"
  obtains srv1 s1 srv2 s2 new where
    "del_all os (disconnected_sockets srv) (srv\<lparr>disconnected_sockets := []\<rparr>) s = Inr (srv1, s1)"
    "s2 = after os (Epoll_wait (efd srv1) MAX_EPOLL_EVENTS 0) s1"
    "server_inv B srv2 s2" "same_frame srv srv2" "heap srv2 = heap srv1"
    "\<And>alloc fuel. poll os alloc fuel srv s = (if new then accept_loop os alloc fuel srv2 s2 else Inr (srv2, s2))"
proof -
  let ?srv0 = "srv\<lparr>disconnected_sockets := []\<rparr>"
  have "server_inv B ?srv0 s" "set (disconnected_sockets srv) \<subseteq> insert listener_addr (dom (heap ?srv0))"
      "distinct (disconnected_sockets srv)"
    using inv by (auto simp: server_inv_def lists_inv_def)
  then obtain srv1 s1 where d: "del_all os (disconnected_sockets srv) ?srv0 s = Inr (srv1, s1)"
      "server_inv B srv1 s1" "same_frame ?srv0 srv1"
    using del_all_inv by blast
  have fr1: "same_frame srv srv1" using d(3) by (simp add: same_frame_def)
  let ?c = "Epoll_wait (efd srv1) MAX_EPOLL_EVENTS 0"
  let ?a = "os (hist s1) ?c" and ?s2 = "after os ?c s1"
  have core1: "core_inv B srv1 s1" using d(2) by (simp add: server_inv_def)
  have "quiet F s1 ?s2" for F by (rule ext_quiet) simp
  then have inv2: "server_inv B srv1 ?s2" using d(2) core_quiet by (auto simp: server_inv_def)
  show thesis
  proof (cases "ret ?a < 0")
    case True
    then show thesis using that [OF d(1) refl inv2 fr1 refl, of False] e d(1) by (simp add: poll_def ext_def)
  next
    case ready: False
    let ?evs = "take (nat (ret ?a)) (ans_events ?a)"
    have va: "list_all (\<lambda>ev. \<exists>(e', f, p) \<in> set (epoll_set (hist s1)). e' = efd srv1 \<and> p = ev_ptr ev) (ans_events ?a)"
      using os_okD [OF os, of "hist s1" ?c] ready by simp
    have "\<forall>ev \<in> set ?evs. ev_ptr ev \<in> insert listener_addr (dom (heap srv1))"
    proof
      fix ev
      assume "ev \<in> set ?evs"
      then have "ev \<in> set (ans_events ?a)" by (rule in_set_takeD)
      then obtain f where "(efd srv1, f, ev_ptr ev) \<in> set (epoll_set (hist s1))"
        using va by (auto simp: list_all_iff)
      then show "ev_ptr ev \<in> insert listener_addr (dom (heap srv1))"
        using core_invD(5) [OF core1] by (force simp: regs_ok_def)
    qed
    then obtain b srv2 where h: "fold handle_event ?evs (False, srv1) = (b, srv2)" "server_inv B srv2 ?s2"
        "same_frame srv1 srv2"
      using handle_events_inv [OF inv2] by blast
    have "heap srv2 = heap srv1" using handle_events_heap [of ?evs "(False, srv1)"] h(1) by simp
    moreover have "poll os alloc fuel srv s = (if b then accept_loop os alloc fuel srv2 ?s2 else Inr (srv2, ?s2))"
      for alloc fuel
      using e d(1) ready h(1) by (simp add: poll_def ext_def)
    ultimately show thesis using that [OF d(1) refl h(2) same_frame_trans [OF fr1 h(3)]] by blast
  qed
qed

lemma poll_inv:
  assumes os: "os_ok os" and al: "alloc_ok alloc" and n: "clients_bounded os n" and k: "n < fuel"
    and inv: "server_inv B srv s"
  shows "\<exists>srv' t. poll os alloc fuel srv s = Inr (srv', t) \<and> server_inv B srv' t \<and> same_frame srv srv'"
proof (cases "efd srv < 0")
  case True
  then show ?thesis using inv by (simp add: poll_def)
next
  case False
  then obtain srv1 s1 srv2 s2 new where p: "server_inv B srv2 s2" "same_frame srv srv2"
      "poll os alloc fuel srv s = (if new then accept_loop os alloc fuel srv2 s2 else Inr (srv2, s2))"
    using poll_stages [OF os inv] by (metis not_less)
  have "n - accepted_count (hist s2) < fuel" using k by linarith
  then obtain srv' t where "accept_loop os alloc fuel srv2 s2 = Inr (srv', t)" "server_inv B srv' t"
      "same_frame srv2 srv'"
    using accept_loop_inv [OF os al n p(1)] by blast
  with p same_frame_trans show ?thesis by (cases new) auto
qed

lemma core_assign:
  assumes inv: "core_inv B srv s" and a: "deref a srv = Inr k" and k: "sock_wf k'" "fd k' = fd k"
  shows "core_inv B (assign a k' srv) s" "dom (heap (assign a k' srv)) = dom (heap srv)"
    "same_frame srv (assign a k' srv)"
proof -
  let ?srv = "assign a k' srv"
  note D = core_invD [OF inv]
  have "core_inv B ?srv s \<and> dom (heap ?srv) = dom (heap srv) \<and> same_frame srv ?srv"
  proof (cases "a = listener_addr")
    case True
    then have "fd k' = fd (listener srv)" using a k(2) by (simp add: deref_def)
    moreover from this have "owned_fd k' = owned_fd (listener srv)" by (simp add: owned_fd_def)
    ultimately show ?thesis
      using True inv k
      by (simp add: assign_def core_inv_def server_fds_def separate_def objects_wf_def
          regs_ok_def same_frame_def)
  next
    case False
    then have h: "heap srv a = Some k" using derefD(2) [OF a inv] by simp
    have look: "heap ?srv b = Some l \<Longrightarrow> \<exists>l'. heap srv b = Some l' \<and> fd l' = fd l" for b l
      using False h k(2) by (auto simp: assign_def split: if_splits)
    have keep: "heap srv b = Some l \<Longrightarrow> \<exists>l'. heap ?srv b = Some l' \<and> fd l' = fd l" for b l
      using False h k(2) by (auto simp: assign_def split: if_splits)
    have c: "client_fds ?srv = client_fds srv"
    proof (intro set_eqI iffI)
      show "x \<in> client_fds srv" if "x \<in> client_fds ?srv" for x
        using that look unfolding client_fds_iff by blast
      show "x \<in> client_fds ?srv" if "x \<in> client_fds srv" for x
        using that keep unfolding client_fds_iff by blast
    qed
    have e: "owned_efd ?srv = owned_efd srv" "listener ?srv = listener srv" "efd ?srv = efd srv"
      using False by (simp_all add: assign_def)
    have "separate ?srv"
      unfolding separate_def c e
    proof (intro conjI allI impI)
      show "owned_efd srv \<inter> owned_fd (listener srv) = {}"
        "client_fds srv \<inter> (owned_efd srv \<union> owned_fd (listener srv)) = {}"
        using D(3) by (simp_all add: separate_def)
      fix x y kx ky
      assume "heap ?srv x = Some kx" "heap ?srv y = Some ky" "fd kx = fd ky"
      then show "x = y" using look [of x kx] look [of y ky] separate_inj [OF D(3), of x _ y] by metis
    qed
    moreover have "objects_wf ?srv"
      using D(4) False h k by (auto simp: assign_def objects_wf_def)
    moreover have "regs_ok ?srv s"
      using D(5) keep unfolding regs_ok_def e by fastforce
    moreover have "server_fds ?srv = server_fds srv" by (simp add: server_fds_def c e)
    ultimately show ?thesis
      using D(1,2) False h by (auto simp: core_inv_def assign_def same_frame_def)
  qed
  then show "core_inv B ?srv s" "dom (heap ?srv) = dom (heap srv)" "same_frame srv ?srv" by simp_all
qed

lemma assign_lists [simp]:
  "sockets (assign a k srv) = sockets srv" "receive_sockets (assign a k srv) = receive_sockets srv"
  "send_sockets (assign a k srv) = send_sockets srv"
  "disconnected_sockets (assign a k srv) = disconnected_sockets srv"
  by (simp_all add: assign_def)

lemma io_socket_inv:
  assumes os: "os_ok os" and cb: "receive_callback app" and inv: "server_inv B srv s"
    and a: "a \<in> insert listener_addr (dom (heap srv))"
  shows "\<exists>got srv' t. io_socket os app a srv s = Inr (got, srv', t) \<and> server_inv B srv' t \<and>
    same_frame srv srv' \<and> dom (heap srv') = dom (heap srv) \<and>
    receive_sockets srv' = receive_sockets srv \<and> send_sockets srv' = send_sockets srv"
proof -
  have core: "core_inv B srv s" and lists: "lists_inv srv" using inv by (simp_all add: server_inv_def)
  obtain k where k: "deref a srv = Inr k" using deref_live [OF a] by blast
  obtain got k' t where io: "sendAndRecv os app k s = Inr (got, k', t)" "sock_wf k'" "fd k' = fd k"
      "\<forall>F. quiet F s t"
    using receive_callback.sendAndRecv_ok [OF cb derefD(1) [OF k core] os, of s] by blast
  let ?srv = "assign a k' srv"
  let ?srv' = "if recv_disconnected k' \<or> send_disconnected k'
    then ?srv\<lparr>disconnected_sockets := addUnique (disconnected_sockets ?srv) a\<rparr> else ?srv"
  have "core_inv B srv t" using core_quiet [OF core] io(4) by blast
  note as = core_assign [OF this k io(2,3)]
  have "lists_inv ?srv" using lists as(2) by (simp add: lists_inv_def)
  then have "lists_inv ?srv'" using a as(2) by (simp add: lists_inv_def)
  moreover have "core_inv B ?srv' t" using as(1) by simp
  moreover have "io_socket os app a srv s = Inr (got, ?srv', t)"
    using k io(1) by (simp add: io_socket_def)
  ultimately show ?thesis
    using as(2,3) by (auto simp: server_inv_def same_frame_def)
qed

lemma live_not_null: "server_inv B srv s \<Longrightarrow> a \<in> dom (heap srv) \<Longrightarrow> a \<noteq> nullptr \<and> a \<noteq> listener_addr"
  by (auto simp: server_inv_def core_inv_def objects_wf_def)

lemma recv_round_inv:
  assumes os: "os_ok os" and cb: "receive_callback app" and "server_inv B srv s"
    and "set as \<subseteq> dom (heap srv)"
  shows "\<exists>any' srv' t. recv_round os app as any srv s = Inr (any', srv', t) \<and> server_inv B srv' t \<and>
    same_frame srv srv' \<and> dom (heap srv') = dom (heap srv) \<and> send_sockets srv' = send_sockets srv"
  using assms(3,4)
proof (induction as arbitrary: any srv s)
  case (Cons a as)
  have "a \<noteq> nullptr" using live_not_null [OF Cons.prems(1), of a] Cons.prems(2) by simp
  obtain g srv1 s1 where io: "io_socket os app a srv s = Inr (g, srv1, s1)" "server_inv B srv1 s1"
      "same_frame srv srv1" "dom (heap srv1) = dom (heap srv)" "send_sockets srv1 = send_sockets srv"
    using io_socket_inv [OF os cb Cons.prems(1), of a] Cons.prems(2) by auto
  moreover have "set as \<subseteq> dom (heap srv1)" using Cons.prems(2) io(4) by simp
  ultimately obtain g' srv' t where "recv_round os app as (any \<or> g) srv1 s1 = Inr (g', srv', t)"
      "server_inv B srv' t" "same_frame srv1 srv'" "dom (heap srv') = dom (heap srv1)"
      "send_sockets srv' = send_sockets srv1"
    using Cons.IH [of srv1 s1 "any \<or> g"] by blast
  with io \<open>a \<noteq> nullptr\<close> same_frame_trans show ?case by auto
qed simp

lemma send_round_inv:
  assumes os: "os_ok os" and cb: "receive_callback app" and "server_inv B srv s"
    and "set as \<subseteq> insert listener_addr (dom (heap srv))"
  shows "\<exists>srv' t. send_round os app as srv s = Inr (srv', t) \<and> server_inv B srv' t \<and> same_frame srv srv'"
  using assms(3,4)
proof (induction as arbitrary: srv s)
  case (Cons a as)
  show ?case
  proof (cases "a = nullptr \<or> a \<in> set (receive_sockets srv)")
    case True
    with Cons.IH [OF Cons.prems(1)] Cons.prems(2) show ?thesis by auto
  next
    case False
    obtain g srv1 s1 where io: "io_socket os app a srv s = Inr (g, srv1, s1)" "server_inv B srv1 s1"
        "same_frame srv srv1" "dom (heap srv1) = dom (heap srv)"
      using io_socket_inv [OF os cb Cons.prems(1), of a] Cons.prems(2) by auto
    moreover have "set as \<subseteq> insert listener_addr (dom (heap srv1))" using Cons.prems(2) io(4) by simp
    ultimately obtain srv' t where "send_round os app as srv1 s1 = Inr (srv', t)"
        "server_inv B srv' t" "same_frame srv1 srv'"
      using Cons.IH [of srv1 s1] by blast
    with io False same_frame_trans show ?thesis by auto
  qed
qed simp

text \<open>The application's end-of-round callback logs with matching formats and makes no system call.\<close>

definition finished_ok :: "(sys \<Rightarrow> sys) \<Rightarrow> bool" where
  "finished_ok app_finished \<longleftrightarrow> (\<forall>F s. hist (app_finished s) = hist s \<and> quiet F s (app_finished s))"

lemma finished_quiet: "finished_ok f \<Longrightarrow> quiet F s (finished f srv s)"
  by (cases "finished_callback srv")
    (auto simp: finished_def finished_ok_def holes_def intro!: log_call_quiet)

lemma server_io_inv:
  assumes os: "os_ok os" and cb: "receive_callback app" and fin: "finished_ok app_finished"
    and inv: "server_inv B srv s"
  shows "\<exists>srv' t. server_sendAndRecv os app app_finished srv s = Inr (srv', t) \<and> server_inv B srv' t \<and>
    same_frame srv srv'"
proof (cases "efd srv < 0")
  case True
  then show ?thesis using inv by (simp add: server_sendAndRecv_def)
next
  case False
  have "set (receive_sockets srv) \<subseteq> dom (heap srv)" using inv by (simp add: server_inv_def lists_inv_def)
  then obtain got srv1 s1 where r: "recv_round os app (receive_sockets srv) False srv s = Inr (got, srv1, s1)"
      "server_inv B srv1 s1" "same_frame srv srv1"
    using recv_round_inv [OF os cb inv] by blast
  let ?s2 = "if got then finished app_finished srv1 s1 else s1"
  have "quiet F s1 ?s2" for F using finished_quiet [OF fin] by simp
  then have inv2: "server_inv B srv1 ?s2" using r(2) core_quiet by (auto simp: server_inv_def)
  have "set (send_sockets srv1) \<subseteq> insert listener_addr (dom (heap srv1))"
    using r(2) by (simp add: server_inv_def lists_inv_def)
  then obtain srv' t where "send_round os app (send_sockets srv1) srv1 ?s2 = Inr (srv', t)"
      "server_inv B srv' t" "same_frame srv1 srv'"
    using send_round_inv [OF os cb inv2] by blast
  with False r same_frame_trans show ?thesis by (auto simp: server_sendAndRecv_def Let_def)
qed

lemma delete_all_core:
  assumes "core_inv B srv s" "distinct as" "set as = dom (heap srv)"
  shows "\<exists>t. delete_all os as srv s = Inr (srv\<lparr>heap := Map.empty\<rparr>, t) \<and> core_inv B (srv\<lparr>heap := Map.empty\<rparr>) t"
  using assms
proof (induction as arbitrary: srv s)
  case Nil
  then have "heap srv = Map.empty" by (simp add: eq_commute [of "{}"])
  then have "srv\<lparr>heap := Map.empty\<rparr> = srv\<lparr>heap := heap srv\<rparr>" by simp
  with Nil show ?case by simp
next
  case (Cons a as)
  obtain k where "heap srv a = Some k" using Cons.prems(3) by auto
  then obtain s1 where d: "delete_socket os a srv s = Inr (srv\<lparr>heap := (heap srv)(a := None)\<rparr>, s1)"
      "core_inv B (srv\<lparr>heap := (heap srv)(a := None)\<rparr>) s1"
    using delete_socket_core [OF Cons.prems(1)] by blast
  have "set as = dom (heap (srv\<lparr>heap := (heap srv)(a := None)\<rparr>))" using Cons.prems(2,3) by auto
  from Cons.IH [OF d(2) _ this] Cons.prems(2) d(1) show ?case by simp
qed

lemma regs_open:
  assumes "sys_inv F t" "(e, f, p) \<in> set (epoll_set (hist t))"
  shows "e \<in> F \<and> 0 \<le> e"
  using assms by (auto simp: sys_inv_def)

lemma regs_ok_closed:
  assumes "sys_inv F t" "efd srv < 0"
  shows "regs_ok srv t"
  using regs_open [OF assms(1)] assms(2) unfolding regs_ok_def by fastforce

lemma core_close_efd:
  assumes inv: "core_inv B srv s" and e: "0 \<le> efd srv"
  shows "core_inv B (srv\<lparr>efd := - 1\<rparr>) (after os (Close (efd srv)) s)"
proof -
  note D = core_invD [OF inv]
  have own: "owned_efd srv = {efd srv}" "owned_efd (srv\<lparr>efd := - 1\<rparr>) = {}" using e by (simp_all add: owned_efd_def)
  have fds: "server_fds srv = insert (efd srv) (server_fds (srv\<lparr>efd := - 1\<rparr>))"
      "efd srv \<notin> server_fds (srv\<lparr>efd := - 1\<rparr>)"
    using D(3) own by (auto simp: server_fds_def separate_def)
  have "B \<union> server_fds srv - {efd srv} = B \<union> server_fds (srv\<lparr>efd := - 1\<rparr>)"
    using fds D(2) by auto
  then have "sys_inv (B \<union> server_fds (srv\<lparr>efd := - 1\<rparr>)) (after os (Close (efd srv)) s)"
    using sys_inv_close [OF D(1), of "efd srv" os] fds(1) by simp
  moreover from this have "regs_ok (srv\<lparr>efd := - 1\<rparr>) (after os (Close (efd srv)) s)"
    by (rule regs_ok_closed) simp
  moreover have "separate (srv\<lparr>efd := - 1\<rparr>)" "objects_wf (srv\<lparr>efd := - 1\<rparr>)"
    using D(3,4) own by (auto simp: separate_def objects_wf_def)
  ultimately show ?thesis using D(2) fds(1) by (simp add: core_inv_def)
qed

lemma core_destroy_listener:
  assumes inv: "core_inv B srv s" and d: "destroy os (listener srv) s = (k, t)"
  shows "core_inv B (srv\<lparr>listener := k\<rparr>) t" "owned_fd k = {}"
proof -
  let ?l = "listener srv"
  note D = core_invD [OF inv]
  have k: "sock_wf k" "fd k = (if 0 \<le> fd ?l then - 1 else fd ?l)"
      "t = (if 0 \<le> fd ?l then after os (Close (fd ?l)) s else s)"
    using destroy_wf [of ?l os s] destroy_fd [of os ?l s] destroy_sys [of os ?l s] d D(4)
    by (simp_all add: objects_wf_def)
  show own: "owned_fd k = {}" using k(2) by (simp add: owned_fd_def)
  have "owned_fd ?l \<subseteq> B \<union> server_fds srv" by (auto simp: server_fds_def)
  from destroy_releases [OF D(1) this, of os] have "sys_inv (B \<union> server_fds srv - owned_fd ?l) t" using d by simp
  moreover have "B \<union> server_fds srv - owned_fd ?l = B \<union> server_fds (srv\<lparr>listener := k\<rparr>)"
    using D(2,3) own by (auto simp: server_fds_def separate_def)
  ultimately have "sys_inv (B \<union> server_fds (srv\<lparr>listener := k\<rparr>)) t" by simp
  moreover have "regs_ok (srv\<lparr>listener := k\<rparr>) t"
    using D(5) k(2,3) by (auto simp: regs_ok_def)
  moreover have "separate (srv\<lparr>listener := k\<rparr>)" "objects_wf (srv\<lparr>listener := k\<rparr>)"
      "B \<inter> server_fds (srv\<lparr>listener := k\<rparr>) = {}"
    using D(2-4) own k(1) by (auto simp: separate_def objects_wf_def server_fds_def)
  ultimately show "core_inv B (srv\<lparr>listener := k\<rparr>) t" by (simp add: core_inv_def)
qed

text \<open>\<open>destroy\<close> gives everything back: afterwards the server owns no descriptor and no object.\<close>

lemma server_destroy_inv:
  assumes "server_inv B srv s"
  shows "\<exists>srv' t. server_destroy os srv s = Inr (srv', t) \<and> server_inv B srv' t \<and> sys_inv B t \<and>
    heap srv' = Map.empty \<and> server_fds srv' = {} \<and> sockets srv' = [] \<and> receive_sockets srv' = [] \<and>
    send_sockets srv' = [] \<and> disconnected_sockets srv' = [] \<and> efd srv' < 0"
proof -
  have core: "core_inv B srv s" and lists: "lists_inv srv" using assms by (simp_all add: server_inv_def)
  obtain s1 where d: "delete_all os (sockets srv) srv s = Inr (srv\<lparr>heap := Map.empty\<rparr>, s1)"
      "core_inv B (srv\<lparr>heap := Map.empty\<rparr>) s1"
    using delete_all_core [OF core, of "sockets srv" os] lists by (auto simp: lists_inv_def)
  let ?srv2 = "srv\<lparr>heap := Map.empty, sockets := [], receive_sockets := [], send_sockets := [], disconnected_sockets := []\<rparr>"
  have c2: "core_inv B ?srv2 s1" using d(2) by simp
  define srv3 where "srv3 = (if 0 \<le> efd ?srv2 then ?srv2\<lparr>efd := - 1\<rparr> else ?srv2)"
  define s2 where "s2 = (if 0 \<le> efd ?srv2 then after os (Close (efd ?srv2)) s1 else s1)"
  have c3: "core_inv B srv3 s2" using c2 core_close_efd [OF c2] by (auto simp: srv3_def s2_def)
  obtain k t where k: "destroy os (listener srv3) s2 = (k, t)" by (meson surj_pair)
  note l = core_destroy_listener [OF c3 k]
  have r: "server_destroy os srv s = Inr (srv3\<lparr>listener := k\<rparr>, t)"
    using d(1) k by (auto simp: server_destroy_def srv3_def s2_def ext_def Let_def split: if_splits)
  have e: "efd (srv3\<lparr>listener := k\<rparr>) < 0" "heap (srv3\<lparr>listener := k\<rparr>) = Map.empty"
      "sockets (srv3\<lparr>listener := k\<rparr>) = []" "receive_sockets (srv3\<lparr>listener := k\<rparr>) = []"
      "send_sockets (srv3\<lparr>listener := k\<rparr>) = []" "disconnected_sockets (srv3\<lparr>listener := k\<rparr>) = []"
    by (simp_all add: srv3_def)
  have fds: "server_fds (srv3\<lparr>listener := k\<rparr>) = {}"
    using l(2) e(1,2) by (simp add: server_fds_def owned_efd_def client_fds_def)
  have "sys_inv B t" using core_invD(1) [OF l(1)] fds by simp
  moreover have "lists_inv (srv3\<lparr>listener := k\<rparr>)" using e by (simp add: lists_inv_def)
  ultimately show ?thesis using r l(1) fds e by (auto simp: server_inv_def)
qed

text \<open>Opening the epoll instance and the listener on a server that owns nothing.\<close>

lemma core_new_efd:
  assumes os: "os_ok os" and inv: "core_inv B srv s" and e: "efd srv < 0"
    and f: "f = ret (os (hist s) (Epoll_create1 0))"
  shows "core_inv B (srv\<lparr>efd := f\<rparr>) (after os (Epoll_create1 0) s)"
proof -
  let ?t = "after os (Epoll_create1 0) s"
  note D = core_invD [OF inv]
  note new = ext_new_fd [OF os D(1), of "Epoll_create1 0", simplified, folded f]
  have old: "owned_efd srv = {}" using e by (simp add: owned_efd_def)
  have fds: "server_fds (srv\<lparr>efd := f\<rparr>) = (if 0 \<le> f then insert f (server_fds srv) else server_fds srv)"
    using old by (simp add: server_fds_def owned_efd_def)
  have "sys_inv (B \<union> server_fds (srv\<lparr>efd := f\<rparr>)) ?t" using new(1) by (auto simp: fds)
  moreover have "B \<inter> server_fds (srv\<lparr>efd := f\<rparr>) = {}" using new(1) D(2) by (auto simp: fds)
  moreover have "separate (srv\<lparr>efd := f\<rparr>)"
    using D(3) new(1) by (auto simp: separate_def owned_efd_def server_fds_def)
  moreover have "objects_wf (srv\<lparr>efd := f\<rparr>)" using D(4) by (simp add: objects_wf_def)
  moreover have "regs_ok (srv\<lparr>efd := f\<rparr>) ?t"
  proof -
    have "f = - 1 \<or> f \<notin> B \<union> server_fds srv" using new(1) by auto
    then have "\<forall>(e, g, p) \<in> set (epoll_set (hist s)). e \<noteq> f" using regs_open [OF D(1)] by fastforce
    then show ?thesis unfolding regs_ok_def new(2) by auto
  qed
  ultimately show ?thesis by (simp add: core_inv_def)
qed

lemma core_connect_listener:
  assumes os: "os_ok os" and inv: "core_inv B srv s" and own: "owned_fd (listener srv) = {}"
    and c: "connect os ip iface port True (listener srv) s = (f, k, t)"
    and no: "\<forall>(e, g, p) \<in> set (epoll_set (hist s)). e \<noteq> efd srv"
  shows "core_inv B (srv\<lparr>listener := k\<rparr>) t" "fd k = f"
proof -
  note D = core_invD [OF inv]
  have "sock_wf (listener srv)" using D(4) by (simp add: objects_wf_def)
  note C = connect_spec [OF os this D(1) _ c, unfolded own, simplified]
  show fk: "fd k = f" using C by simp
  have fds: "server_fds (srv\<lparr>listener := k\<rparr>) = (if 0 \<le> f then insert f (server_fds srv) else server_fds srv)"
    using own by (simp add: server_fds_def owned_fd_def fk)
  have "sys_inv (B \<union> server_fds (srv\<lparr>listener := k\<rparr>)) t" using C by (auto simp: fds)
  moreover have "B \<inter> server_fds (srv\<lparr>listener := k\<rparr>) = {}" using C D(2) by (auto simp: fds)
  moreover have "separate (srv\<lparr>listener := k\<rparr>)"
    using D(3) C by (auto simp: separate_def owned_fd_def server_fds_def fk)
  moreover have "objects_wf (srv\<lparr>listener := k\<rparr>)" using D(4) C by (simp add: objects_wf_def)
  moreover have "regs_ok (srv\<lparr>listener := k\<rparr>) t" using C no by (auto simp: regs_ok_def)
  ultimately show "core_inv B (srv\<lparr>listener := k\<rparr>) t" by (simp add: core_inv_def)
qed

lemma listen_inv:
  assumes os: "os_ok os" and inv: "server_inv B srv s"
  shows "\<exists>ok srv' t. listen os iface port srv s = Inr (ok, srv', t) \<and> server_inv B srv' t \<and>
    (if ok then 0 \<le> efd srv' \<and> 0 \<le> fd (listener srv') else efd srv' < 0 \<and> server_fds srv' = {} \<and> sys_inv B t)"
proof -
  obtain srv1 s1 where d: "server_destroy os srv s = Inr (srv1, s1)" "server_inv B srv1 s1"
      "heap srv1 = Map.empty" "server_fds srv1 = {}" "efd srv1 < 0"
    using server_destroy_inv [OF inv] by blast
  have core1: "core_inv B srv1 s1" and lists1: "lists_inv srv1" using d(2) by (simp_all add: server_inv_def)
  let ?e = "ret (os (hist s1) (Epoll_create1 0))" and ?s2 = "after os (Epoll_create1 0) s1"
  let ?srv2 = "srv1\<lparr>efd := ?e\<rparr>"
  have core2: "core_inv B ?srv2 ?s2" using core_new_efd [OF os core1 d(5)] by simp
  have lists: "lists_inv (srv1\<lparr>efd := x, listener := y\<rparr>)" "lists_inv (srv1\<lparr>efd := x\<rparr>)" for x y
    using lists1 by (simp_all add: lists_inv_def)
  have own: "owned_fd (listener srv1) = {}" using d(4) by (simp add: server_fds_def)
  have stop: "\<exists>srv' t. (case (server_destroy os srv3 (log_call m args s3)) of Inl f \<Rightarrow> Inl f
        | Inr (srv4, s4) \<Rightarrow> Inr (False, srv4, s4)) = Inr (False, srv', t) \<and>
      server_inv B srv' t \<and> efd srv' < 0 \<and> server_fds srv' = {} \<and> sys_inv B t"
    if "server_inv B srv3 s3" "length args = holes m" for srv3 s3 m args
  proof -
    have "server_inv B srv3 (log_call m args s3)"
      using that core_quiet [of B srv3 s3 "log_call m args s3"] log_call_quiet by (simp add: server_inv_def)
    from server_destroy_inv [OF this, of os] show ?thesis by auto
  qed
  show ?thesis
  proof (cases "?e < 0")
    case True
    let ?m = "''TCPServer epoll_create1 failed'' @ [CHR 0x0A]"
    have "quiet F ?s2 (log_call ?m [] ?s2)" for F by (rule log_call_quiet) (simp add: holes_def)
    then have c: "core_inv B ?srv2 (log_call ?m [] ?s2)" by (rule core_quiet [OF core2])
    have "server_fds ?srv2 = {}"
      using True d(4) by (simp add: server_fds_def owned_efd_def client_fds_def)
    moreover from this have "sys_inv B (log_call ?m [] ?s2)" using core_invD(1) [OF c] by simp
    moreover have "listen os iface port srv s = Inr (False, ?srv2, log_call ?m [] ?s2)"
      using d(1) True by (simp add: listen_def ext_def)
    ultimately show ?thesis using c lists(2) True by (auto simp: server_inv_def)
  next
    case False
    obtain f k s3 where c: "connect os '''' iface port True (listener ?srv2) ?s2 = (f, k, s3)"
      by (metis surj_pair)
    let ?srv3 = "?srv2\<lparr>listener := k\<rparr>"
    have no: "\<forall>(e, g, p) \<in> set (epoll_set (hist ?s2)). e \<noteq> efd ?srv2"
      using ext_new_fd [OF os core_invD(1) [OF core1], of "Epoll_create1 0", simplified]
        regs_open [OF core_invD(1) [OF core1]] False by fastforce
    have own2: "owned_fd (listener ?srv2) = {}" using own by simp
    note k = core_connect_listener [OF os core2 own2 c no]
    have inv3: "server_inv B ?srv3 s3" using k(1) lists(1) by (simp add: server_inv_def)
    show ?thesis
    proof (cases "f < 0")
      case True
      have "holes (''TCPServer failed to create listener iface:% port:%'' @ [CHR 0x0A]) = 2"
        by (simp add: holes_def)
      from stop [OF inv3, of "[A_string iface, A_int (word_of_int port)]"
          "''TCPServer failed to create listener iface:% port:%'' @ [CHR 0x0A]"] this
      show ?thesis
        using d(1) False c True by (auto simp: listen_def ext_def obind_def split: sum.splits)
    next
      case got_fd: False
      have "deref listener_addr ?srv3 = Inr k" by (simp add: deref_def)
      then obtain ok s4 where a: "epollAdd os listener_addr ?srv3 s3 = Inr (ok, s4)" "core_inv B ?srv3 s4"
        using epollAdd_core [OF os k(1) _ listener_not_null] by blast
      have inv4: "server_inv B ?srv3 s4" using a(2) lists(1) by (simp add: server_inv_def)
      have "holes (''TCPServer failed to add listener to epoll'' @ [CHR 0x0A]) = 0" by (simp add: holes_def)
      from stop [OF inv4, of "[]" "''TCPServer failed to add listener to epoll'' @ [CHR 0x0A]"] this
      show ?thesis
        using d(1) False c got_fd a(1) inv4 k(2)
        by (cases ok) (auto simp: listen_def ext_def obind_def split: sum.splits)
    qed
  qed
qed

end
