(* ===== verification/Server_Runs.thy ===== *)
theory Server_Runs
  imports TCP_Server
begin

text \<open>
  Executions of \<open>TCPServer\<close>: a program makes any sequence of calls on a new server (\<open>server_exec\<close>,
  one operation per public method, and the assignment of the two public callbacks), and then
  destroys it. The lemmas of \<open>TCP_Server\<close> make these an instance of \<open>preserving_ops\<close>, from which
  the properties of whole runs follow. The second part follows single calls of \<open>poll\<close> and
  \<open>sendAndRecv\<close> through the history of system calls.
\<close>

section \<open>Runs\<close>

datatype server_op = Server_listen string int | Server_poll | Server_sendAndRecv | Server_destroy
  | Server_callbacks callback callback

fun server_exec :: "os \<Rightarrow> allocator \<Rightarrow> nat \<Rightarrow> receiver \<Rightarrow> (sys \<Rightarrow> sys) \<Rightarrow> server_op \<Rightarrow>
    server \<times> sys \<Rightarrow> (server \<times> sys) outcome" where
  "server_exec os alloc fuel app fin (Server_listen iface port) (srv, s) =
     obind (listen os iface port srv s) (\<lambda>(ok, srv1, s1). Inr (srv1, s1))"
| "server_exec os alloc fuel app fin Server_poll (srv, s) = poll os alloc fuel srv s"
| "server_exec os alloc fuel app fin Server_sendAndRecv (srv, s) = server_sendAndRecv os app fin srv s"
| "server_exec os alloc fuel app fin Server_destroy (srv, s) = server_destroy os srv s"
| "server_exec os alloc fuel app fin (Server_callbacks c d) (srv, s) =
     Inr (srv\<lparr>srv_callback := c, finished_callback := d\<rparr>, s)"

text \<open>What the runs assume of their surroundings: a system and an allocator within their documented
  behaviour, at most \<open>n\<close> clients, fuel for them, and well-behaved application callbacks.\<close>

definition env_ok :: "os \<Rightarrow> allocator \<Rightarrow> nat \<Rightarrow> nat \<Rightarrow> receiver \<Rightarrow> (sys \<Rightarrow> sys) \<Rightarrow> bool" where
  "env_ok os alloc n fuel app fin \<longleftrightarrow> os_ok os \<and> alloc_ok alloc \<and> clients_bounded os n \<and> n < fuel \<and>
     receive_callback app \<and> finished_ok fin"

lemma server_inv_callbacks [simp]:
  "server_inv B (srv\<lparr>srv_callback := c, finished_callback := d\<rparr>) s = server_inv B srv s"
  by (simp add: server_inv_def core_inv_def server_fds_def owned_efd_def client_fds_def separate_def
      objects_wf_def regs_ok_def lists_inv_def)

lemma server_exec_keeps:
  assumes env: "env_ok os alloc n fuel app fin" and inv: "server_inv B srv s"
  shows "\<exists>srv' t. server_exec os alloc fuel app fin oper (srv, s) = Inr (srv', t) \<and> server_inv B srv' t"
proof -
  note E = env [unfolded env_ok_def]
  show ?thesis
  proof (cases oper)
    case (Server_listen iface port)
    then show ?thesis using listen_inv [OF _ inv, of os iface port] E by auto
  next
    case Server_poll
    then show ?thesis using poll_inv [OF _ _ _ _ inv, of os alloc n fuel] E by auto
  next
    case Server_sendAndRecv
    then show ?thesis using server_io_inv [OF _ _ _ inv, of os app fin] E by auto
  next
    case Server_destroy
    then show ?thesis using server_destroy_inv [OF inv, of os] by auto
  qed (use inv in simp)
qed

interpretation tcp: preserving_ops "server_exec os alloc fuel app fin"
  "\<lambda>(srv, s). env_ok os alloc n fuel app fin \<and> server_inv B srv s"
proof (unfold_locales, goal_cases)
  case (1 st oper)
  then show ?case using server_exec_keeps [of os alloc n fuel app fin B "fst st" "snd st" oper]
    by (cases st) auto
qed

lemma TCPServer_inv:
  assumes "sys_inv B s" "length b1 = 65536" "length b2 = 65536"
  shows "server_inv B (TCPServer b1 b2) s"
proof -
  have fds: "server_fds (TCPServer b1 b2) = {}"
    by (simp add: TCPServer_def server_fds_def owned_efd_def owned_fd_def client_fds_def TCPSocket_def)
  have "objects_wf (TCPServer b1 b2)" "lists_inv (TCPServer b1 b2)" "separate (TCPServer b1 b2)"
    using TCPSocket_wf [OF assms(2,3)]
    by (simp_all add: objects_wf_def lists_inv_def separate_def TCPServer_def owned_efd_def owned_fd_def
        client_fds_def TCPSocket_def)
  moreover have "regs_ok (TCPServer b1 b2) s"
    by (rule regs_ok_closed [OF assms(1)]) (simp add: TCPServer_def)
  ultimately show ?thesis using assms(1) fds by (simp add: server_inv_def core_inv_def)
qed

lemma server_run_keeps:
  assumes "env_ok os alloc n fuel app fin" "server_inv B srv s"
  shows "\<exists>srv' t. run_ops (server_exec os alloc fuel app fin) ops (srv, s) = Inr (srv', t) \<and> server_inv B srv' t"
  using tcp.run_keeps [of os alloc n fuel app fin B "(srv, s)" ops] assms by auto

lemma TCPServer_dtor_inv:
  assumes "server_inv B srv s"
  shows "\<exists>t. TCPServer_dtor os srv s = Inr t \<and> sys_inv B t"
proof -
  obtain srv' t where d: "server_destroy os srv s = Inr (srv', t)" "sys_inv B t" "server_fds srv' = {}"
    using server_destroy_inv [OF assms] by blast
  then have "owned_fd (listener srv') = {}" by (simp add: server_fds_def)
  then have "snd (TCPSocket_dtor os (listener srv') t) = t"
    by (auto simp: TCPSocket_dtor_def destroy_def owned_fd_def split: if_splits)
  with d show ?thesis by (simp add: TCPServer_dtor_def)
qed

section \<open>A concrete environment\<close>

definition one_client_os :: os where
  "one_client_os h c =
     (case c of
        Accept l \<Rightarrow> if 1 \<le> accepted_count h then result (- 1) EAGAIN else result (fresh_fd h) 0
      | _ \<Rightarrow> test_os h c)"

text \<open>The same, with a peer that has closed the connection.\<close>

definition hangup_os :: os where
  "hangup_os h c = (case c of Recvmsg f n \<Rightarrow> result 0 0 | _ \<Rightarrow> one_client_os h c)"

definition bump_of :: "byte list \<Rightarrow> allocator" where
  "bump_of block h = (Suc (Max (insert 1 (dom h))), block, block)"

abbreviation zeros :: "byte list" where
  "zeros \<equiv> replicate 65536 0"

abbreviation bump :: allocator where
  "bump \<equiv> bump_of zeros"

lemma one_client_os_ok: "os_ok one_client_os"
proof -
  have "valid_answer h c (one_client_os h c)" for h c
    using os_okD [OF test_os_ok, of h c] fresh_fd_new [of h] by (cases c) (auto simp: one_client_os_def)
  then show ?thesis by (simp add: os_ok_def)
qed

lemma bump_ok: "alloc_ok bump"
proof -
  have "Suc (Max (insert 1 A)) \<notin> A \<and> 1 < Suc (Max (insert 1 A))" if "finite A" for A :: "nat set"
  proof -
    have "x \<le> Max (insert 1 A)" if "x \<in> insert 1 A" for x using that \<open>finite A\<close> by simp
    from this [of 1] this [of "Suc (Max (insert 1 A))"] show ?thesis by auto
  qed
  then show ?thesis
    by (fastforce simp: alloc_ok_def bump_of_def nullptr_def listener_addr_def)
qed

lemma hangup_os_ok: "os_ok hangup_os"
proof -
  have "valid_answer h c (hangup_os h c)" for h c
    using os_okD [OF one_client_os_ok, of h c] by (cases c) (auto simp: hangup_os_def)
  then show ?thesis by (simp add: os_ok_def)
qed

lemma one_client_env: "env_ok one_client_os bump 1 2 server_callback (\<lambda>s. s)"
  by (simp add: env_ok_def one_client_os_ok bump_ok server_cb.receive_callback_axioms finished_ok_def
      clients_bounded_def one_client_os_def)

lemma hangup_env: "env_ok hangup_os bump 1 2 server_callback (\<lambda>s. s)"
  by (simp add: env_ok_def hangup_os_ok bump_ok server_cb.receive_callback_axioms finished_ok_def
      clients_bounded_def hangup_os_def one_client_os_def)

text \<open>A run on it: the client connects, is found to have left, and is still there.\<close>

lemmas system_simps = ext_def after_def hangup_os_def one_client_os_def Let_def fresh_fd_def open_fds_def
  epoll_set_def accepted_count_def loopback_def sys_start_def

lemmas socket_simps = TCPSocket_def destroy_def connect_def createSocket_def getIfaceIP_def try_candidate_def
  setNonBlocking_def setNoDelay_def setSOTimestamp_def step_nodelay_def step_role_def step_listen_def
  step_timestamp_def socket_hints_def sendAndRecv_def recv_phase_def send_phase_def compact_def
  TCP_BUFFER_SIZE_def

lemmas server_simps = TCPServer_def listen_def server_destroy_def epollAdd_def deref_def poll_def
  handle_event_def admit_def MAX_EPOLL_EVENTS_def EPOLLERR_def EPOLLHUP_def EPOLLIN_def EPOLLOUT_def
  server_sendAndRecv_def io_socket_def assign_def finished_def addUnique_def listener_addr_def nullptr_def
  bump_of_def

lemma send_loop_empty: "next_send_valid_index sock = 0 \<Longrightarrow> 0 < k \<Longrightarrow> send_loop os k 0 sock s = Inr (0, sock, s)"
  by (cases k) simp_all

lemmas receive_simps = run_callback_def server_callback_def mem_write_def mem_read_def int64_def
  int64_range_def time_constants SCM_TIMESTAMP_def SO_TIMESTAMP_def send_loop_empty word_less_nat_alt

lemma hangup_run:
  "\<exists>srv t k. run_ops (server_exec hangup_os (bump_of b) 2 server_callback (\<lambda>s. s))
     [Server_listen ''lo'' 8080, Server_poll, Server_sendAndRecv] (TCPServer b b, sys_start) = Inr (srv, t) \<and>
   0 \<le> efd srv \<and> heap srv 2 = Some k \<and> recv_disconnected k"
  by (simp add: system_simps socket_simps server_simps numeral_2_eq_2)

text \<open>A run on the system with one client that sends two bytes.\<close>

lemma delivering_run:
  assumes "length b = 65536"
  shows "\<exists>srv t k. run_ops (server_exec one_client_os (bump_of b) (Suc (Suc 0)) server_callback (\<lambda>s. s))
     [Server_listen ''lo'' 8080, Server_poll, Server_sendAndRecv] (TCPServer b b, sys_start) = Inr (srv, t) \<and>
   0 \<le> efd srv \<and> heap srv (Suc (Suc 0)) = Some k \<and> disconnected_sockets srv = [] \<and> received k = [104, 105]"
  by (simp add: assms system_simps socket_simps server_simps receive_simps received_def)

section \<open>Properties of runs\<close>

text \<open>
  Property C1. Memory safety of the server: any sequence of calls on a new server, against any
  network and any reuse of freed addresses, runs without fault. In particular no deleted
  \<open>TCPSocket\<close> is used (not through a stale epoll event either) or deleted again, no buffer is
  overrun, and every call returns.
\<close>

theorem server_memory_safe:
  assumes "env_ok os alloc n fuel app fin" "sys_inv B s" "length b1 = 65536" "length b2 = 65536"
  shows "\<exists>srv t. run_ops (server_exec os alloc fuel app fin) ops (TCPServer b1 b2, s) = Inr (srv, t)"
  using server_run_keeps [OF assms(1) TCPServer_inv [OF assms(2-4)]] by blast

theorem server_memory_safe_witness:
  "\<exists>srv t. run_ops (server_exec one_client_os bump 2 server_callback (\<lambda>s. s))
     [Server_listen ''lo'' 8080, Server_poll, Server_sendAndRecv, Server_poll, Server_destroy]
     (TCPServer zeros zeros, sys_start) = Inr (srv, t)"
  by (rule server_memory_safe [OF one_client_env sys_start_inv]) simp_all

text \<open>
  Property C2. Bookkeeping at every moment: \<open>sockets_\<close> lists exactly the live clients, each once;
  \<open>receive_sockets_\<close>, \<open>send_sockets_\<close> and \<open>disconnected_sockets_\<close> are duplicate-free and hold only
  live clients (or the listener); no two of the epoll instance, the listener and the clients share
  a descriptor; and every pointer registered with the epoll instance points to the object that
  owns the registered descriptor.
\<close>

theorem server_bookkeeping:
  assumes "env_ok os alloc n fuel app fin" "sys_inv B s" "length b1 = 65536" "length b2 = 65536"
    and "run_ops (server_exec os alloc fuel app fin) ops (TCPServer b1 b2, s) = Inr (srv, t)"
  shows "lists_inv srv \<and> separate srv \<and> objects_wf srv \<and> regs_ok srv t"
  using server_run_keeps [OF assms(1) TCPServer_inv [OF assms(2-4)], of ops] assms(5)
  by (auto simp: server_inv_def core_inv_def)

theorem server_bookkeeping_witness:
  "\<exists>srv t. run_ops (server_exec one_client_os bump 2 server_callback (\<lambda>s. s))
     [Server_listen ''lo'' 8080, Server_poll, Server_sendAndRecv]
     (TCPServer zeros zeros, sys_start) = Inr (srv, t) \<and> lists_inv srv"
proof -
  let ?run = "run_ops (server_exec one_client_os bump 2 server_callback (\<lambda>s. s))
     [Server_listen ''lo'' 8080, Server_poll, Server_sendAndRecv]
     (TCPServer zeros zeros, sys_start)"
  obtain srv t where r: "?run = Inr (srv, t)"
    using server_run_keeps [OF one_client_env TCPServer_inv [OF sys_start_inv], of zeros
        zeros] by (metis length_replicate)
  with server_bookkeeping [OF one_client_env sys_start_inv _ _ r] show ?thesis by simp
qed

text \<open>
  Property C7. No descriptor is leaked: during any run the open descriptors are those the server
  started with, its epoll instance, its listener and its live clients; after the destructor they
  are exactly those it started with, and no descriptor was ever closed twice.
\<close>

theorem server_no_leak:
  assumes "env_ok os alloc n fuel app fin" "sys_inv B s" "length b1 = 65536" "length b2 = 65536"
  shows "\<exists>srv t u. run_ops (server_exec os alloc fuel app fin) ops (TCPServer b1 b2, s) = Inr (srv, t) \<and>
           set (open_fds (hist t)) = B \<union> server_fds srv \<and> B \<inter> server_fds srv = {} \<and>
           TCPServer_dtor os srv t = Inr u \<and> set (open_fds (hist u)) = B \<and> closes_ok (hist u)"
proof -
  obtain srv t where r: "run_ops (server_exec os alloc fuel app fin) ops (TCPServer b1 b2, s) = Inr (srv, t)"
      "server_inv B srv t"
    using server_run_keeps [OF assms(1) TCPServer_inv [OF assms(2-4)]] by blast
  obtain u where "TCPServer_dtor os srv t = Inr u" "sys_inv B u"
    using TCPServer_dtor_inv [OF r(2)] by blast
  with r show ?thesis by (auto simp: server_inv_def core_inv_def sys_inv_def)
qed

theorem server_no_leak_witness:
  "\<exists>srv t u. run_ops (server_exec one_client_os bump 2 server_callback (\<lambda>s. s))
     [Server_listen ''lo'' 8080, Server_poll, Server_sendAndRecv]
     (TCPServer zeros zeros, sys_start) = Inr (srv, t) \<and>
     TCPServer_dtor one_client_os srv t = Inr u \<and> open_fds (hist u) = []"
proof -
  obtain srv t u where "run_ops (server_exec one_client_os bump 2 server_callback (\<lambda>s. s))
     [Server_listen ''lo'' 8080, Server_poll, Server_sendAndRecv]
     (TCPServer zeros zeros, sys_start) = Inr (srv, t)"
    "TCPServer_dtor one_client_os srv t = Inr u" "set (open_fds (hist u)) = {}"
    using server_no_leak [OF one_client_env sys_start_inv, of zeros zeros
        "[Server_listen ''lo'' 8080, Server_poll, Server_sendAndRecv]"] by auto
  then show ?thesis by auto
qed

section \<open>Single calls\<close>

text \<open>The calls a piece of code makes.\<close>

definition made :: "(ext_call \<Rightarrow> bool) \<Rightarrow> sys \<Rightarrow> sys \<Rightarrow> bool" where
  "made P s t \<longleftrightarrow> (\<exists>h. hist t = hist s @ h \<and> list_all P (map fst h))"

fun moves_data :: "ext_call \<Rightarrow> bool" where
  "moves_data (Recvmsg f n) = True"
| "moves_data (Send f bs) = True"
| "moves_data c = False"

fun still :: "ext_call \<Rightarrow> bool" where
  "still (Recvmsg g n) = False"
| "still (Send g bs) = False"
| "still (Accept l) = False"
| "still (Socket x y z) = False"
| "still (Epoll_create1 x) = False"
| "still c = True"

lemma made_refl [simp, intro]: "made P s s"
  by (simp add: made_def)

lemma made_trans: "made P s t \<Longrightarrow> made P t u \<Longrightarrow> made P s u"
  by (force simp: made_def)

lemma made_after [intro]: "P c \<Longrightarrow> made P s (after os c s)"
  by (simp add: made_def)

lemma made_first: "made P (after os c s) t \<Longrightarrow> P c \<Longrightarrow> made P s t"
  by (blast intro: made_trans made_after)

lemma made_last: "made P s t \<Longrightarrow> P c \<Longrightarrow> made P s (after os c t)"
  by (blast intro: made_trans made_after)

lemma made_mono: "made P s t \<Longrightarrow> (\<And>c. P c \<Longrightarrow> P' c) \<Longrightarrow> made P' s t"
  by (auto simp: made_def list_all_iff)

abbreviation control :: "sys \<Rightarrow> sys \<Rightarrow> bool" where
  "control \<equiv> made (\<lambda>c. \<not> moves_data c)"

lemma still_options:
  "setNonBlocking os f s = (ok, t) \<Longrightarrow> made still s t"
  "setNoDelay os f s = (ok, t) \<Longrightarrow> made still s t"
  by (auto simp: setNonBlocking_def setNoDelay_def ext_def Let_def made_def split: if_splits)

lemma still_epoll:
  "epollAdd os a srv s = Inr (ok, t) \<Longrightarrow> made still s t"
  "epollDel os a srv s = Inr (ok, t) \<Longrightarrow> made still s t"
  by (auto simp: epollAdd_def epollDel_def ext_def obind_Inr_iff split: if_splits)

lemma delete_socket_effect:
  assumes "delete_socket os a srv s = Inr (srv', t)"
  shows "made still s t" "srv' = srv\<lparr>heap := (heap srv)(a := None)\<rparr>"
    "heap srv a = Some k \<Longrightarrow> 0 \<le> fd k \<Longrightarrow> t = after os (Close (fd k)) s"
  using assms
  by (auto simp: delete_socket_def TCPSocket_dtor_def destroy_def ext_def split: option.splits if_splits)

lemma del_effect:
  assumes "del os a srv s = Inr (srv', t)"
  shows "made still s t" "heap srv' = (if a = nullptr \<or> a = listener_addr then heap srv else (heap srv)(a := None))"
proof -
  have "made still s t \<and> heap srv' = (if a = nullptr \<or> a = listener_addr then heap srv else (heap srv)(a := None))"
  proof (cases "a = nullptr \<or> a = listener_addr")
    case True
    with assms show ?thesis by (auto simp: del_def)
  next
    case False
    obtain srv1 ok s1 where e: "epollDel os a srv s = Inr (ok, s1)" "delete_socket os a srv1 s1 = Inr (srv', t)"
        "heap srv1 = heap srv"
      using assms False by (auto simp: del_def obind_Inr_iff)
    with still_epoll(2) [OF e(1)] delete_socket_effect(1,2) [OF e(2)] made_trans False show ?thesis by auto
  qed
  then show "made still s t" "heap srv' = (if a = nullptr \<or> a = listener_addr then heap srv else (heap srv)(a := None))"
    by simp_all
qed

lemma del_closes:
  assumes "del os a srv s = Inr (srv', t)" "heap srv a = Some k" "0 \<le> fd k" "a \<noteq> nullptr" "a \<noteq> listener_addr"
  shows "\<exists>h. hist t = hist s @ h \<and> Close (fd k) \<in> set (map fst h)"
proof -
  obtain srv1 ok s1 where e: "epollDel os a srv s = Inr (ok, s1)" "delete_socket os a srv1 s1 = Inr (srv', t)"
      "heap srv1 = heap srv"
    using assms by (auto simp: del_def obind_Inr_iff)
  obtain h where "hist s1 = hist s @ h" using still_epoll(2) [OF e(1)] by (auto simp: made_def)
  moreover have "t = after os (Close (fd k)) s1" using delete_socket_effect(3) [OF e(2)] assms(2,3) e(3) by simp
  ultimately show ?thesis by auto
qed

lemma del_all_effect:
  assumes "del_all os as srv s = Inr (srv', t)"
  shows "made still s t" "heap srv' \<subseteq>\<^sub>m heap srv"
proof -
  have "made still s t \<and> heap srv' \<subseteq>\<^sub>m heap srv"
    using assms
  proof (induction as arbitrary: srv s)
    case (Cons a as)
    then obtain srv1 s1 where d: "del os a srv s = Inr (srv1, s1)" "del_all os as srv1 s1 = Inr (srv', t)"
      by (auto simp: obind_Inr_iff)
    have "heap srv1 \<subseteq>\<^sub>m heap srv" using del_effect(2) [OF d(1)] by (auto simp: map_le_def)
    with Cons.IH [OF d(2)] del_effect(1) [OF d(1)] show ?case
      using made_trans map_le_trans by blast
  qed (simp add: map_le_def)
  then show "made still s t" "heap srv' \<subseteq>\<^sub>m heap srv" by simp_all
qed

lemma del_all_closes:
  assumes "del_all os as srv s = Inr (srv', t)" "a \<in> set as" "heap srv a = Some k" "0 \<le> fd k"
    "a \<noteq> nullptr" "a \<noteq> listener_addr"
  shows "\<exists>h. hist t = hist s @ h \<and> Close (fd k) \<in> set (map fst h)"
  using assms(1-3)
proof (induction as arbitrary: srv s)
  case (Cons b as)
  then obtain srv1 s1 where d: "del os b srv s = Inr (srv1, s1)" "del_all os as srv1 s1 = Inr (srv', t)"
    by (auto simp: obind_Inr_iff)
  obtain h1 h2 where h: "hist s1 = hist s @ h1" "hist t = hist s1 @ h2"
    using del_effect(1) [OF d(1)] del_all_effect(1) [OF d(2)] by (auto simp: made_def)
  show ?case
  proof (cases "b = a")
    case True
    with del_closes [OF d(1)] Cons.prems(3) assms(4-6) h show ?thesis by auto
  next
    case False
    then have "heap srv1 a = Some k" using del_effect(2) [OF d(1)] Cons.prems(3) by simp
    with Cons.IH [OF d(2)] Cons.prems(2) False h show ?thesis by auto
  qed
qed simp

text \<open>Clients that survive are untouched, new ones have descriptors in \<open>N\<close>, empty buffers and no
  failure, and no scheduled client is forgotten.\<close>

definition untouched :: "int set \<Rightarrow> server \<Rightarrow> server \<Rightarrow> bool" where
  "untouched N srv srv' \<longleftrightarrow> set (disconnected_sockets srv) \<subseteq> set (disconnected_sockets srv') \<and>
     (\<forall>a k. heap srv' a = Some k \<longrightarrow> heap srv a = Some k \<or>
        fd k \<in> N \<and> pending k = [] \<and> received k = [] \<and> \<not> recv_disconnected k \<and> \<not> send_disconnected k)"

lemma untouched_refl [simp]: "untouched N srv srv"
  by (simp add: untouched_def)

lemma untouched_le:
  "heap srv' \<subseteq>\<^sub>m heap srv'' \<Longrightarrow> disconnected_sockets srv' = disconnected_sockets srv'' \<Longrightarrow>
   untouched N srv srv'' \<Longrightarrow> untouched N srv srv'"
  unfolding untouched_def map_le_def by (metis domI)

lemma untouched_trans: "untouched N a b \<Longrightarrow> untouched N b c \<Longrightarrow> untouched N a c"
  unfolding untouched_def by (meson subset_trans)

lemma untouched_mono: "untouched N srv srv' \<Longrightarrow> N \<subseteq> N' \<Longrightarrow> untouched N' srv srv'"
  unfolding untouched_def by (meson subsetD)

lemma still_control: "made still s t \<Longrightarrow> control s t"
  by (erule made_mono) (auto elim: still.elims)

lemma admit_effect:
  assumes "admit os alloc f srv s = Inr (srv', t)"
  shows "made still s t \<and> untouched {f} srv srv'"
proof -
  obtain ok1 s1 where nb: "setNonBlocking os f s = (ok1, s1)" by (meson surj_pair)
  obtain ok2 s2 where nd: "(if ok1 then setNoDelay os f s1 else (False, s1)) = (ok2, s2)" by (meson surj_pair)
  obtain a b1 b2 where a: "alloc (heap srv) = (a, b1, b2)" by (metis surj_pair)
  let ?k = "(TCPSocket b1 b2)\<lparr>fd := f, recv_callback := srv_callback srv\<rparr>"
  have c: "made still s s2"
    using still_options nb nd made_trans by (metis prod.inject)
  have new: "untouched {f} srv (srv\<lparr>heap := (heap srv)(a \<mapsto> ?k)\<rparr>)"
    by (simp add: untouched_def pending_def received_def TCPSocket_def)
  show ?thesis
  proof (cases ok2)
    case False
    with assms nb nd have "srv' = srv" "t = after os (Close f) s2"
      by (simp_all add: admit_def ext_def split: if_splits)
    moreover have "made still s (after os (Close f) s2)"
      by (rule made_trans [OF c made_after]) simp
    ultimately show ?thesis by simp
  next
    case True
    let ?srv = "srv\<lparr>heap := (heap srv)(a \<mapsto> ?k)\<rparr>"
    obtain ok s3 where e: "epollAdd os a ?srv s2 = Inr (ok, s3)"
        "(if \<not> ok then delete_socket os a ?srv s3 else Inr (?srv\<lparr>sockets := addUnique (sockets ?srv) a,
            receive_sockets := addUnique (receive_sockets ?srv) a\<rparr>, s3)) = Inr (srv', t)"
      using assms True nb nd a by (auto simp: admit_def obind_Inr_iff Let_def split: prod.splits)
    have c3: "made still s s3" using c still_epoll(1) [OF e(1)] by (rule made_trans)
    show ?thesis
    proof (cases ok)
      case True
      with e(2) have "srv' = ?srv\<lparr>sockets := addUnique (sockets ?srv) a,
          receive_sockets := addUnique (receive_sockets ?srv) a\<rparr>" "t = s3" by auto
      with c3 untouched_le [OF _ _ new, of srv'] show ?thesis by simp
    next
      case False
      then have "delete_socket os a ?srv s3 = Inr (srv', t)" using e(2) by simp
      note d = delete_socket_effect(1,2) [OF this]
      have "heap srv' \<subseteq>\<^sub>m heap ?srv" using d(2) by (simp add: map_le_def)
      with untouched_le [OF _ _ new, of srv'] d made_trans [OF c3] show ?thesis by simp
    qed
  qed
qed

lemma accept_loop_effect:
  assumes "accept_loop os alloc k srv s = Inr (srv', t)"
  shows "control s t \<and> untouched UNIV srv srv'"
  using assms
proof (induction k arbitrary: srv s)
  case (Suc k)
  let ?c = "Accept (fd (listener srv))"
  let ?s1 = "after os ?c s"
  have c: "control s ?s1" by (rule made_after) simp
  show ?case
  proof (cases "ret (os (hist s) ?c) < 0")
    case True
    then have "srv' = srv" "t = ?s1" using Suc.prems by (auto simp: ext_def)
    with c show ?thesis by simp
  next
    case False
    then have "obind (admit os alloc (ret (os (hist s) ?c)) srv ?s1)
        (\<lambda>(srv2, s2). accept_loop os alloc k srv2 s2) = Inr (srv', t)"
      using Suc.prems by (simp add: ext_def)
    then obtain srv2 s2 where a: "admit os alloc (ret (os (hist s) ?c)) srv ?s1 = Inr (srv2, s2)"
        "accept_loop os alloc k srv2 s2 = Inr (srv', t)"
      unfolding obind_Inr_iff by auto
    have "control s s2" "untouched UNIV srv srv2"
      using made_trans [OF c still_control] untouched_mono [of _ srv srv2 UNIV] admit_effect [OF a(1)] by auto
    with Suc.IH [OF a(2)] show ?thesis
      using made_trans [of "\<lambda>c. \<not> moves_data c" s s2 t] untouched_trans [of UNIV srv srv2 srv'] by simp
  qed
qed simp

lemma handle_event_untouched: "untouched N (snd st) (snd (handle_event ev st))"
  by (cases st) (auto simp: handle_event_def Let_def untouched_def)

lemma handle_events_untouched: "untouched N (snd st) (snd (fold handle_event evs st))"
proof (induction evs arbitrary: st)
  case (Cons ev evs)
  show ?case using untouched_trans [OF handle_event_untouched Cons.IH] by simp
qed simp

lemma poll_effect:
  assumes "poll os alloc fuel srv s = Inr (srv', t)" "0 \<le> efd srv"
  obtains srv1 s1 where
    "del_all os (disconnected_sockets srv) (srv\<lparr>disconnected_sockets := []\<rparr>) s = Inr (srv1, s1)"
    "control s1 t" "untouched UNIV srv1 srv'"
proof -
  obtain srv1 s1 where d:
      "del_all os (disconnected_sockets srv) (srv\<lparr>disconnected_sockets := []\<rparr>) s = Inr (srv1, s1)"
    and rest: "(let (r, s2) = ext os (Epoll_wait (efd srv1) MAX_EPOLL_EVENTS 0) s1
        in if ret r < 0 then Inr (srv1, s2)
           else let (have_new_connection, srv2) =
                      fold handle_event (take (nat (ret r)) (ans_events r)) (False, srv1)
                in if have_new_connection then accept_loop os alloc fuel srv2 s2 else Inr (srv2, s2))
      = Inr (srv', t)"
    using assms by (auto simp: poll_def obind_Inr_iff)
  let ?c = "Epoll_wait (efd srv1) MAX_EPOLL_EVENTS 0"
  let ?r = "os (hist s1) ?c" and ?s2 = "after os ?c s1"
  obtain new srv2 where f: "fold handle_event (take (nat (ret ?r)) (ans_events ?r)) (False, srv1) = (new, srv2)"
    by (meson surj_pair)
  have c: "control s1 ?s2" by (rule made_after) simp
  have u: "untouched UNIV srv1 srv2"
    using handle_events_untouched [of UNIV "(False, srv1)" "take (nat (ret ?r)) (ans_events ?r)"] f by simp
  have "control s1 t \<and> untouched UNIV srv1 srv'"
  proof (cases "ret ?r < 0 \<or> \<not> new")
    case True
    with rest f have "srv' \<in> {srv1, srv2}" "t = ?s2" by (auto simp: ext_def Let_def split: if_splits)
    with c u show ?thesis by auto
  next
    case False
    with rest f have "accept_loop os alloc fuel srv2 ?s2 = Inr (srv', t)" by (simp add: ext_def Let_def)
    from accept_loop_effect [OF this] show ?thesis using made_trans [OF c] untouched_trans [OF u] by blast
  qed
  with d that show thesis by blast
qed

lemma poll_untouched:
  assumes "poll os alloc fuel srv s = Inr (srv', t)"
  shows "control s t" "heap srv' a = Some k \<Longrightarrow> heap srv a = Some k \<or> pending k = [] \<and> received k = []"
proof -
  have "control s t \<and> (heap srv' a = Some k \<longrightarrow> heap srv a = Some k \<or> pending k = [] \<and> received k = [])"
  proof (cases "0 \<le> efd srv")
    case True
    obtain srv1 s1 where d: "del_all os (disconnected_sockets srv) (srv\<lparr>disconnected_sockets := []\<rparr>) s = Inr (srv1, s1)"
        "control s1 t" "untouched UNIV srv1 srv'"
      using poll_effect [OF assms True] .
    have "heap srv1 a = Some k \<Longrightarrow> heap srv a = Some k"
      using del_all_effect(2) [OF d(1)] by (force simp: map_le_def)
    with d(3) made_trans [OF still_control [OF del_all_effect(1) [OF d(1)]] d(2)] show ?thesis
      unfolding untouched_def by blast
  next
    case False
    with assms show ?thesis by (simp add: poll_def)
  qed
  then show "control s t" "heap srv' a = Some k \<Longrightarrow> heap srv a = Some k \<or> pending k = [] \<and> received k = []"
    by simp_all
qed

lemma poll_deletes:
  assumes "server_inv B srv s" "poll os alloc fuel srv s = Inr (srv', t)" "0 \<le> efd srv"
    "a \<in> set (disconnected_sockets srv)" "heap srv a = Some k"
  shows "\<exists>h. hist t = hist s @ h \<and> Close (fd k) \<in> set (map fst h)"
proof -
  obtain srv1 s1 where d: "del_all os (disconnected_sockets srv) (srv\<lparr>disconnected_sockets := []\<rparr>) s = Inr (srv1, s1)"
      "control s1 t" "untouched UNIV srv1 srv'"
    using poll_effect [OF assms(2,3)] .
  have "a \<noteq> nullptr" "a \<noteq> listener_addr" "0 \<le> fd k"
    using assms(1,5) by (auto simp: server_inv_def core_inv_def objects_wf_def)
  with del_all_closes [OF d(1) assms(4)] assms(5)
  obtain h where h: "hist s1 = hist s @ h" "Close (fd k) \<in> set (map fst h)" by auto
  obtain h2 where "hist t = hist s1 @ h2" using d(2) by (auto simp: made_def)
  with h show ?thesis by (intro exI [of _ "h @ h2"]) simp
qed

lemma del_all_removes:
  assumes "del_all os as srv s = Inr (srv', t)" "heap srv' a = Some k" "a \<in> set as"
  shows "a = nullptr \<or> a = listener_addr"
  using assms(1,3)
proof (induction as arbitrary: srv s)
  case (Cons b as)
  then obtain srv1 s1 where d: "del os b srv s = Inr (srv1, s1)" "del_all os as srv1 s1 = Inr (srv', t)"
    by (auto simp: obind_Inr_iff)
  show ?case
  proof (cases "b = a")
    case True
    have "heap srv1 a = Some k" using del_all_effect(2) [OF d(2)] assms(2) by (force simp: map_le_def)
    then show ?thesis using del_effect(2) [OF d(1)] True by (auto split: if_splits)
  next
    case False
    with Cons.IH [OF d(2)] Cons.prems(2) show ?thesis by simp
  qed
qed simp

text \<open>The descriptors that \<open>accept\<close> returned for the listener \<open>l\<close>.\<close>

definition accepted :: "int \<Rightarrow> history \<Rightarrow> int set" where
  "accepted l h = {ret r |r. (Accept l, r) \<in> set h \<and> 0 \<le> ret r}"

lemma admit_keeps:
  assumes al: "alloc_ok alloc" and fin: "finite (dom (heap srv))" and "admit os alloc f srv s = Inr (srv', t)"
  shows "heap srv \<subseteq>\<^sub>m heap srv'" "finite (dom (heap srv'))" "fd (listener srv') = fd (listener srv)"
proof -
  obtain a b1 b2 where a: "alloc (heap srv) = (a, b1, b2)" by (metis surj_pair)
  with al fin have fresh: "heap srv a = None" by (auto simp: alloc_ok_def)
  have "srv' = srv \<or> fd (listener srv') = fd (listener srv) \<and>
      (\<exists>k. heap srv' = (heap srv)(a \<mapsto> k) \<or> heap srv' = ((heap srv)(a \<mapsto> k))(a := None))"
    using assms(3) a
    by (auto simp: admit_def Let_def obind_Inr_iff split: prod.splits if_splits dest!: delete_socket_effect(2))
  with fresh fin show "heap srv \<subseteq>\<^sub>m heap srv'" "finite (dom (heap srv'))" "fd (listener srv') = fd (listener srv)"
    by (auto simp: map_le_def)
qed

lemma accept_loop_keeps:
  assumes al: "alloc_ok alloc" and "finite (dom (heap srv))" "accept_loop os alloc k srv s = Inr (srv', t)"
  shows "\<exists>h. hist t = hist s @ h \<and> heap srv \<subseteq>\<^sub>m heap srv' \<and> untouched (accepted (fd (listener srv)) h) srv srv'"
  using assms(2,3)
proof (induction k arbitrary: srv s)
  case (Suc k)
  let ?c = "Accept (fd (listener srv))"
  let ?r = "os (hist s) ?c" and ?s1 = "after os ?c s"
  show ?case
  proof (cases "ret ?r < 0")
    case True
    then have "srv' = srv" "t = ?s1" using Suc.prems by (auto simp: ext_def)
    then show ?thesis by auto
  next
    case False
    then have "obind (admit os alloc (ret ?r) srv ?s1) (\<lambda>(srv2, s2). accept_loop os alloc k srv2 s2) = Inr (srv', t)"
      using Suc.prems(2) by (simp add: ext_def)
    then obtain srv2 s2 where a: "admit os alloc (ret ?r) srv ?s1 = Inr (srv2, s2)"
        "accept_loop os alloc k srv2 s2 = Inr (srv', t)"
      unfolding obind_Inr_iff by auto
    note keeps = admit_keeps [OF al Suc.prems(1) a(1)]
    obtain h2 where h2: "hist t = hist s2 @ h2" "heap srv2 \<subseteq>\<^sub>m heap srv'"
        "untouched (accepted (fd (listener srv)) h2) srv2 srv'"
      using Suc.IH [OF keeps(2) a(2)] keeps(3) by auto
    obtain h1 where h1: "hist s2 = hist ?s1 @ h1" using admit_effect [OF a(1)] by (auto simp: made_def)
    let ?N = "accepted (fd (listener srv)) ((?c, ?r) # h1 @ h2)"
    have "{ret ?r} \<subseteq> ?N" "accepted (fd (listener srv)) h2 \<subseteq> ?N" using False by (auto simp: accepted_def)
    then have "untouched ?N srv srv2" "untouched ?N srv2 srv'"
      using admit_effect [OF a(1)] h2(3) untouched_mono by blast+
    then have "untouched ?N srv srv'" by (rule untouched_trans)
    with h1 h2(1) map_le_trans [OF keeps(1) h2(2)] show ?thesis
      by (intro exI [of _ "(?c, ?r) # h1 @ h2"]) simp
  qed
qed simp

lemma del_all_keeps:
  assumes "del_all os as srv s = Inr (srv', t)" "a \<notin> set as"
  shows "heap srv' a = heap srv a"
  using assms
proof (induction as arbitrary: srv s)
  case (Cons b as)
  then obtain srv1 s1 where d: "del os b srv s = Inr (srv1, s1)" "del_all os as srv1 s1 = Inr (srv', t)"
    by (auto simp: obind_Inr_iff)
  with Cons.IH [OF d(2)] del_effect(2) [OF d(1)] Cons.prems(2) show ?case by simp
qed simp

lemma poll_keeps:
  assumes os: "os_ok os" and al: "alloc_ok alloc" and inv: "server_inv B srv s" and e: "0 \<le> efd srv"
    and p: "poll os alloc fuel srv s = Inr (srv', t)"
  obtains srv1 s1 h where
    "del_all os (disconnected_sockets srv) (srv\<lparr>disconnected_sockets := []\<rparr>) s = Inr (srv1, s1)"
    "hist t = hist s1 @ h" "heap srv1 \<subseteq>\<^sub>m heap srv'"
    "\<And>a k. heap srv' a = Some k \<Longrightarrow> heap srv1 a = Some k \<or> fd k \<in> accepted (fd (listener srv)) h \<and>
       pending k = [] \<and> received k = [] \<and> \<not> recv_disconnected k \<and> \<not> send_disconnected k"
proof -
  obtain srv1 s1 srv2 s2 new where st:
    "del_all os (disconnected_sockets srv) (srv\<lparr>disconnected_sockets := []\<rparr>) s = Inr (srv1, s1)"
    "s2 = after os (Epoll_wait (efd srv1) MAX_EPOLL_EVENTS 0) s1"
    "server_inv B srv2 s2" "same_frame srv srv2" "heap srv2 = heap srv1"
    "\<And>alloc fuel. poll os alloc fuel srv s = (if new then accept_loop os alloc fuel srv2 s2 else Inr (srv2, s2))"
    by (rule poll_stages [OF os inv e]) (rule that; assumption)
  have fin: "finite (dom (heap srv2))" using st(3) by (simp add: server_inv_def finite_heap)
  have "\<exists>h. hist t = hist s2 @ h \<and> heap srv2 \<subseteq>\<^sub>m heap srv' \<and> untouched (accepted (fd (listener srv2)) h) srv2 srv'"
    using p st(6) [of alloc fuel] accept_loop_keeps [OF al fin, of os fuel s2 srv' t] by (cases new) auto
  then obtain h where h: "hist t = hist s2 @ h" "heap srv2 \<subseteq>\<^sub>m heap srv'"
      "untouched (accepted (fd (listener srv)) h) srv2 srv'"
    using st(4) by (auto simp: same_frame_def)
  let ?w = "(Epoll_wait (efd srv1) MAX_EPOLL_EVENTS 0, os (hist s1) (Epoll_wait (efd srv1) MAX_EPOLL_EVENTS 0))"
  have "accepted (fd (listener srv)) (?w # h) = accepted (fd (listener srv)) h" by (auto simp: accepted_def)
  moreover have "hist t = hist s1 @ ?w # h" using h(1) st(2) by simp
  moreover have "heap srv1 \<subseteq>\<^sub>m heap srv'" using h(2) st(5) by simp
  ultimately show thesis
    using that [OF st(1), of "?w # h"] h(3) st(5) by (simp add: untouched_def)
qed

text \<open>A client that \<open>accept\<close> has just delivered on the listener \<open>l\<close>: nothing has happened on its
  connection yet.\<close>

definition fresh_client :: "int \<Rightarrow> history \<Rightarrow> tcp_socket \<Rightarrow> bool" where
  "fresh_client l h k \<longleftrightarrow> (\<exists>r. (Accept l, r) \<in> set h \<and> ret r = fd k) \<and>
     pending k = [] \<and> received k = [] \<and> \<not> recv_disconnected k \<and> \<not> send_disconnected k"

lemma poll_clients:
  assumes "os_ok os" "alloc_ok alloc" and inv: "server_inv B srv s" and e: "0 \<le> efd srv"
    and p: "poll os alloc fuel srv s = Inr (srv', t)" "hist t = hist s @ h"
  shows "heap srv a \<noteq> None \<Longrightarrow> a \<notin> set (disconnected_sockets srv) \<Longrightarrow> heap srv' a = heap srv a"
    "heap srv a = None \<or> a \<in> set (disconnected_sockets srv) \<Longrightarrow> heap srv' a = Some k \<Longrightarrow>
       fresh_client (fd (listener srv)) h k"
proof -
  obtain srv1 s1 h2 where d:
    "del_all os (disconnected_sockets srv) (srv\<lparr>disconnected_sockets := []\<rparr>) s = Inr (srv1, s1)"
    "hist t = hist s1 @ h2" "heap srv1 \<subseteq>\<^sub>m heap srv'"
    "\<And>a k. heap srv' a = Some k \<Longrightarrow> heap srv1 a = Some k \<or> fd k \<in> accepted (fd (listener srv)) h2 \<and>
       pending k = [] \<and> received k = [] \<and> \<not> recv_disconnected k \<and> \<not> send_disconnected k"
    by (rule poll_keeps [OF assms(1-5)]) (rule that; assumption)
  show "heap srv' a = heap srv a" if "heap srv a \<noteq> None" "a \<notin> set (disconnected_sockets srv)"
  proof -
    have "heap srv1 a = heap srv a" using del_all_keeps [OF d(1) that(2)] by simp
    with d(3) that(1) show ?thesis by (force simp: map_le_def)
  qed
  show "fresh_client (fd (listener srv)) h k"
    if a: "heap srv a = None \<or> a \<in> set (disconnected_sockets srv)" and k: "heap srv' a = Some k"
  proof -
    have "heap srv1 a \<noteq> Some k"
    proof
      assume k1: "heap srv1 a = Some k"
      then have "heap srv a = Some k" using del_all_effect(2) [OF d(1)] by (force simp: map_le_def)
      with a del_all_removes [OF d(1) k1] live_not_null [OF inv, of a] show False by auto
    qed
    then have "fd k \<in> accepted (fd (listener srv)) h2" "pending k = []" "received k = []"
        "\<not> recv_disconnected k" "\<not> send_disconnected k"
      using d(4) [OF k] by auto
    moreover have "set h2 \<subseteq> set h" using p(2) d(2) del_all_effect(1) [OF d(1)] by (auto simp: made_def)
    ultimately show ?thesis by (auto simp: fresh_client_def accepted_def)
  qed
qed

section \<open>Failed clients\<close>

text \<open>A client whose connection failed is always scheduled for deletion.\<close>

definition failed_scheduled :: "server \<Rightarrow> bool" where
  "failed_scheduled srv \<longleftrightarrow> (\<forall>a k. heap srv a = Some k \<longrightarrow> recv_disconnected k \<or> send_disconnected k \<longrightarrow>
     a \<in> set (disconnected_sockets srv))"

lemma failed_scheduled_untouched: "untouched UNIV srv srv' \<Longrightarrow> failed_scheduled srv \<Longrightarrow> failed_scheduled srv'"
  unfolding failed_scheduled_def untouched_def by blast

lemma poll_failed:
  assumes inv: "server_inv B srv s" and p: "poll os alloc fuel srv s = Inr (srv', t)" and f: "failed_scheduled srv"
  shows "failed_scheduled srv'"
proof (cases "0 \<le> efd srv")
  case True
  obtain srv1 s1 where d: "del_all os (disconnected_sockets srv) (srv\<lparr>disconnected_sockets := []\<rparr>) s = Inr (srv1, s1)"
      "control s1 t" "untouched UNIV srv1 srv'"
    using poll_effect [OF p True] .
  have "\<not> (recv_disconnected k \<or> send_disconnected k)" if k: "heap srv1 a = Some k" for a k
  proof -
    have h: "heap srv a = Some k" using del_all_effect(2) [OF d(1)] k by (force simp: map_le_def)
    moreover have "a \<notin> set (disconnected_sockets srv)"
      using del_all_removes [OF d(1) k] live_not_null [OF inv] h by auto
    ultimately show ?thesis using f unfolding failed_scheduled_def by blast
  qed
  then have "failed_scheduled srv1" unfolding failed_scheduled_def by blast
  with failed_scheduled_untouched [OF d(3)] show ?thesis .
next
  case False
  with p f show ?thesis by (simp add: poll_def)
qed

lemma io_socket_failed:
  assumes "io_socket os app a srv s = Inr (g, srv', t)" "failed_scheduled srv"
  shows "failed_scheduled srv'"
proof -
  obtain sock1 where "srv' = (if recv_disconnected sock1 \<or> send_disconnected sock1
      then (assign a sock1 srv)\<lparr>disconnected_sockets := addUnique (disconnected_sockets (assign a sock1 srv)) a\<rparr>
      else assign a sock1 srv)"
    using assms(1) by (auto simp: io_socket_def obind_Inr_iff Let_def)
  with assms(2) show ?thesis
    by (auto simp: failed_scheduled_def assign_def Let_def split: if_splits)
qed

text \<open>One turn of the loop of \<open>sendAndRecv\<close> that sends.\<close>

lemma send_loop_step:
  assumes "send_loop os (Suc k) n sock s = Inr (m, sock', t)"
  shows "t = s \<or> (\<exists>bs n'. t = after os (Send (fd sock) bs) s \<or>
    send_loop os k n' sock (after os (Send (fd sock) bs) s) = Inr (m, sock', t))"
proof (cases "n < next_send_valid_index sock")
  case True
  then obtain bs where "mem_read (unat n) (unat (next_send_valid_index sock - n)) (send_buffer sock) = Inr bs"
    using assms by (auto simp: obind_Inr_iff)
  with assms True have "t = after os (Send (fd sock) bs) s \<or>
      send_loop os k (n + word_of_int (ret (os (hist s) (Send (fd sock) bs)))) sock (after os (Send (fd sock) bs) s) =
        Inr (m, sock', t)"
    by (auto simp: ext_def Let_def split: if_splits)
  then show ?thesis by blast
qed (use assms in simp)

text \<open>The rounds of \<open>sendAndRecv\<close> keep what serving one socket and the end-of-round callback keep.\<close>

locale io_preserved =
  fixes os :: os and app :: receiver and fin :: "sys \<Rightarrow> sys" and P :: "server \<Rightarrow> sys \<Rightarrow> bool"
  assumes io_keeps: "P srv s \<Longrightarrow> io_socket os app a srv s = Inr (g, srv', t) \<Longrightarrow> P srv' t"
    and finished_keeps: "P srv s \<Longrightarrow> P srv (finished fin srv s)"
begin

lemma recv_round_keeps: "recv_round os app as r srv s = Inr (r', srv', t) \<Longrightarrow> P srv s \<Longrightarrow> P srv' t"
proof (induction as arbitrary: r srv s)
  case (Cons a as)
  show ?case
  proof (cases "a = nullptr")
    case False
    then obtain g srv1 s1 where i: "io_socket os app a srv s = Inr (g, srv1, s1)"
        "recv_round os app as (r \<or> g) srv1 s1 = Inr (r', srv', t)"
      using Cons.prems(1) by (auto simp: obind_Inr_iff)
    from Cons.IH [OF i(2) io_keeps [OF Cons.prems(2) i(1)]] show ?thesis .
  qed (use Cons in simp)
qed simp

lemma send_round_keeps: "send_round os app as srv s = Inr (srv', t) \<Longrightarrow> P srv s \<Longrightarrow> P srv' t"
proof (induction as arbitrary: srv s)
  case (Cons a as)
  show ?case
  proof (cases "a = nullptr \<or> a \<in> set (receive_sockets srv)")
    case False
    then obtain g srv1 s1 where i: "io_socket os app a srv s = Inr (g, srv1, s1)"
        "send_round os app as srv1 s1 = Inr (srv', t)"
      using Cons.prems(1) by (auto simp: obind_Inr_iff)
    from Cons.IH [OF i(2) io_keeps [OF Cons.prems(2) i(1)]] show ?thesis .
  qed (use Cons in \<open>auto split: if_splits\<close>)
qed simp

lemma server_io_keeps:
  assumes "server_sendAndRecv os app fin srv s = Inr (srv', t)" "P srv s"
  shows "P srv' t"
proof (cases "efd srv < 0")
  case False
  then obtain r srv1 s1 where r: "recv_round os app (receive_sockets srv) False srv s = Inr (r, srv1, s1)"
      "send_round os app (send_sockets srv1) srv1 (if r then finished fin srv1 s1 else s1) = Inr (srv', t)"
    using assms(1) by (auto simp: server_sendAndRecv_def obind_Inr_iff Let_def)
  have "P srv1 s1" using recv_round_keeps [OF r(1)] assms(2) by blast
  then have "P srv1 (if r then finished fin srv1 s1 else s1)" using finished_keeps by simp
  with send_round_keeps [OF r(2)] show ?thesis by blast
qed (use assms in \<open>simp add: server_sendAndRecv_def\<close>)

end

interpretation io_failed: io_preserved os app fin "\<lambda>srv s. failed_scheduled srv"
  by unfold_locales (auto dest: io_socket_failed)

text \<open>After \<open>destroy\<close> and \<open>listen\<close> no client is left.\<close>

lemma destroy_empties: "server_destroy os srv s = Inr (srv', t) \<Longrightarrow> sockets srv' = []"
  by (auto simp: server_destroy_def obind_Inr_iff Let_def case_prod_beta split: if_splits)

lemma listen_empties:
  assumes "listen os iface port srv s = Inr (ok, srv', t)"
  shows "sockets srv' = []"
proof -
  obtain srv1 s1 where d: "server_destroy os srv s = Inr (srv1, s1)"
    using assms by (auto simp: listen_def obind_Inr_iff)
  note e = destroy_empties [OF d]
  show ?thesis
    using assms d e
    by (auto simp: listen_def obind_Inr_iff Let_def dest: destroy_empties split: prod.splits if_splits)
qed

lemma no_clients_failed: "server_inv B srv s \<Longrightarrow> sockets srv = [] \<Longrightarrow> failed_scheduled srv"
  by (auto simp: server_inv_def lists_inv_def failed_scheduled_def)

lemma server_exec_failed:
  assumes env: "env_ok os alloc n fuel app fin" and inv: "server_inv B srv s" and f: "failed_scheduled srv"
  shows "\<exists>srv' t. server_exec os alloc fuel app fin oper (srv, s) = Inr (srv', t) \<and> server_inv B srv' t \<and>
    failed_scheduled srv'"
proof -
  obtain srv' t where e: "server_exec os alloc fuel app fin oper (srv, s) = Inr (srv', t)" "server_inv B srv' t"
    using server_exec_keeps [OF env inv] by blast
  have "failed_scheduled srv'"
  proof (cases oper)
    case (Server_listen iface port)
    with e(1) have "sockets srv' = []" by (auto simp: obind_Inr_iff dest: listen_empties)
    with no_clients_failed [OF e(2)] show ?thesis .
  next
    case Server_destroy
    with e(1) have "sockets srv' = []" by (simp add: destroy_empties)
    with no_clients_failed [OF e(2)] show ?thesis .
  next
    case Server_poll
    with e(1) poll_failed [OF inv _ f] show ?thesis by simp
  next
    case Server_sendAndRecv
    with e(1) io_failed.server_io_keeps [OF _ f] show ?thesis by simp
  next
    case (Server_callbacks c d)
    with e(1) f show ?thesis by (auto simp: failed_scheduled_def)
  qed
  with e show ?thesis by blast
qed

interpretation tcp_failed: preserving_ops "server_exec os alloc fuel app fin"
  "\<lambda>(srv, s). env_ok os alloc n fuel app fin \<and> server_inv B srv s \<and> failed_scheduled srv"
proof (unfold_locales, goal_cases)
  case (1 st oper)
  then show ?case using server_exec_failed [of os alloc n fuel app fin B "fst st" "snd st" oper]
    by (cases st) auto
qed

lemma TCPServer_failed: "failed_scheduled (TCPServer b1 b2)"
  by (simp add: failed_scheduled_def TCPServer_def)

lemma server_run_failed:
  assumes "env_ok os alloc n fuel app fin" "server_inv B srv s" "failed_scheduled srv"
  shows "\<exists>srv' t. run_ops (server_exec os alloc fuel app fin) ops (srv, s) = Inr (srv', t) \<and> server_inv B srv' t \<and>
    failed_scheduled srv'"
  using tcp_failed.run_keeps [of os alloc n fuel app fin B "(srv, s)" ops] assms by auto

text \<open>
  Property C8. Dead connections are cleaned up: after any run, every client whose connection has
  failed (peer gone, hard error, full receive buffer) is in \<open>disconnected_sockets_\<close>, and every
  client in that list has its descriptor closed by the next \<open>poll\<close>, which always returns.
\<close>

theorem failed_clients_closed:
  assumes env: "env_ok os alloc n fuel app fin" and "sys_inv B s" "length b1 = 65536" "length b2 = 65536"
    and run: "run_ops (server_exec os alloc fuel app fin) ops (TCPServer b1 b2, s) = Inr (srv, t)"
    and k: "heap srv a = Some k" and failed: "recv_disconnected k \<or> send_disconnected k" and "0 \<le> efd srv"
  shows "\<exists>srv' u h. poll os alloc fuel srv t = Inr (srv', u) \<and> hist u = hist t @ h \<and>
           Close (fd k) \<in> set (map fst h) \<and> set (open_fds (hist u)) = B \<union> server_fds srv'"
proof -
  have inv: "server_inv B srv t" and f: "failed_scheduled srv"
    using server_run_failed [OF env TCPServer_inv [OF assms(2-4)] TCPServer_failed, of ops] run by auto
  obtain srv' u where p: "poll os alloc fuel srv t = Inr (srv', u)" "server_inv B srv' u"
    using server_exec_keeps [OF env inv, of Server_poll] by auto
  have "a \<in> set (disconnected_sockets srv)" using f k failed unfolding failed_scheduled_def by blast
  from poll_deletes [OF inv p(1) assms(8) this k] p show ?thesis
    by (auto simp: server_inv_def core_inv_def sys_inv_def)
qed

theorem failed_clients_closed_witness:
  "\<exists>srv t k srv' u h. run_ops (server_exec hangup_os bump 2 server_callback (\<lambda>s. s))
     [Server_listen ''lo'' 8080, Server_poll, Server_sendAndRecv] (TCPServer zeros zeros, sys_start) = Inr (srv, t) \<and>
   heap srv 2 = Some k \<and> poll hangup_os bump 2 srv t = Inr (srv', u) \<and> hist u = hist t @ h \<and>
   Close (fd k) \<in> set (map fst h)"
proof -
  obtain srv t k where r: "run_ops (server_exec hangup_os bump 2 server_callback (\<lambda>s. s))
     [Server_listen ''lo'' 8080, Server_poll, Server_sendAndRecv] (TCPServer zeros zeros, sys_start) = Inr (srv, t)"
    "0 \<le> efd srv" "heap srv 2 = Some k" "recv_disconnected k"
    using hangup_run [of zeros] by blast
  have "\<exists>srv' u h. poll hangup_os bump 2 srv t = Inr (srv', u) \<and> hist u = hist t @ h \<and>
      Close (fd k) \<in> set (map fst h) \<and> set (open_fds (hist u)) = {} \<union> server_fds srv'"
    by (rule failed_clients_closed [OF hangup_env sys_start_inv _ _ r(1,3) _ r(2)]) (simp_all add: r(4))
  with r(1,3) show ?thesis by blast
qed

text \<open>
  Property C25. \<open>poll\<close> only manages connections. It returns, and receives and sends no data. Every
  client that was not scheduled for deletion is still there afterwards, unchanged. Every other
  client it leaves is a new one: its descriptor was returned by \<open>accept\<close> during this call, its
  buffers are empty and its connection has not failed. On a server that does not listen it does
  nothing.
\<close>

theorem poll_moves_no_data:
  assumes env: "env_ok os alloc n fuel app fin" and inv: "server_inv B srv s"
  shows "\<exists>srv' t h. poll os alloc fuel srv s = Inr (srv', t) \<and> hist t = hist s @ h \<and>
           \<not> list_ex (\<lambda>(c, r). moves_data c) h \<and>
           (efd srv < 0 \<longrightarrow> srv' = srv \<and> t = s) \<and>
           (0 \<le> efd srv \<longrightarrow>
              (\<forall>a. if heap srv a \<noteq> None \<and> a \<notin> set (disconnected_sockets srv)
                   then heap srv' a = heap srv a
                   else \<forall>k. heap srv' a = Some k \<longrightarrow> fresh_client (fd (listener srv)) h k))"
proof -
  obtain srv' t where p: "poll os alloc fuel srv s = Inr (srv', t)"
    using server_exec_keeps [OF env inv, of Server_poll] by auto
  obtain h where h: "hist t = hist s @ h" "list_all (\<lambda>c. \<not> moves_data c) (map fst h)"
    using poll_untouched(1) [OF p] by (auto simp: made_def)
  have "\<not> list_ex (\<lambda>(c, r). moves_data c) h" using h(2) by (auto simp: list_ex_iff list_all_iff)
  moreover have "efd srv < 0 \<longrightarrow> srv' = srv \<and> t = s" using p by (auto simp: poll_def)
  moreover have "os_ok os" "alloc_ok alloc" using env by (simp_all add: env_ok_def)
  note clients = poll_clients [OF this inv _ p h(1)]
  have "\<forall>a. if heap srv a \<noteq> None \<and> a \<notin> set (disconnected_sockets srv) then heap srv' a = heap srv a
      else \<forall>k. heap srv' a = Some k \<longrightarrow> fresh_client (fd (listener srv)) h k" if "0 \<le> efd srv"
    using clients [OF that] by simp
  ultimately show ?thesis using p h(1) by blast
qed

theorem poll_moves_no_data_witness:
  "\<exists>srv t srv' u h k. run_ops (server_exec one_client_os bump (Suc (Suc 0)) server_callback (\<lambda>s. s))
     [Server_listen ''lo'' 8080, Server_poll, Server_sendAndRecv] (TCPServer zeros zeros, sys_start) = Inr (srv, t) \<and>
   heap srv (Suc (Suc 0)) = Some k \<and> received k = [104, 105] \<and>
   poll one_client_os bump (Suc (Suc 0)) srv t = Inr (srv', u) \<and> hist u = hist t @ h \<and>
   \<not> list_ex (\<lambda>(c, r). moves_data c) h \<and> heap srv' (Suc (Suc 0)) = Some k"
proof -
  obtain srv t k where r: "run_ops (server_exec one_client_os bump (Suc (Suc 0)) server_callback (\<lambda>s. s))
     [Server_listen ''lo'' 8080, Server_poll, Server_sendAndRecv] (TCPServer zeros zeros, sys_start) = Inr (srv, t)"
    "0 \<le> efd srv" "heap srv (Suc (Suc 0)) = Some k" "disconnected_sockets srv = []" "received k = [104, 105]"
    using delivering_run [of zeros] by auto
  have env: "env_ok one_client_os bump 1 (Suc (Suc 0)) server_callback (\<lambda>s. s)"
    using one_client_env by (simp add: numeral_2_eq_2)
  have "server_inv {} srv t"
    using server_run_keeps [OF env TCPServer_inv [OF sys_start_inv length_replicate length_replicate]] r(1)
    by (metis (no_types, lifting) Inr_inject prod.inject)
  from poll_moves_no_data [OF env this] obtain srv' u h where p:
    "poll one_client_os bump (Suc (Suc 0)) srv t = Inr (srv', u)" "hist u = hist t @ h"
    "\<not> list_ex (\<lambda>(c, r). moves_data c) h"
    "\<forall>a. if heap srv a \<noteq> None \<and> a \<notin> set (disconnected_sockets srv) then heap srv' a = heap srv a
      else \<forall>k. heap srv' a = Some k \<longrightarrow> fresh_client (fd (listener srv)) h k"
    using r(2) by blast
  have "heap srv' (Suc (Suc 0)) = Some k" using spec [OF p(4), of "Suc (Suc 0)"] r(3,4) by simp
  with p(1-3) r(1,3,5) show ?thesis by blast
qed

text \<open>
  The callback that \<open>TCPServer\<close> installs by default leaves every byte in the receive
  buffer: bytes the kernel delivers are appended and stay there, so that without an application
  callback a connection ends once 64 KiB have come in.
\<close>

lemma server_callback_accumulates:
  assumes os: "os_ok os" and "sock_wf sock" "0 \<le> fd sock" "next_rcv_valid_index sock < TCP_BUFFER_SIZE"
    and "recv_callback sock = Server_callback"
    and c: "c = Recvmsg (fd sock) (unat (TCP_BUFFER_SIZE - next_rcv_valid_index sock))"
    and a: "a = os (hist s) c" "0 < ret a"
  shows "\<exists>sock' t. sendAndRecv os app sock s = Inr (True, sock', t) \<and> received sock' = received sock @ ans_bytes a"
proof -
  have cb: "recv_callback (filled sock a) = Server_callback"
    using assms(5) by (simp add: filled_def split: option.splits)
  define s1 where "s1 = log_call (''TCPServer recv socket:% len:% rx:%'' @ [CHR 0x0A])
      (callback_args (filled sock a) (timestamp_of (ans_cmsgs a))) (after os c s)"
  have r: "received (filled sock a) = received sock @ ans_bytes a" "sock_wf (filled sock a)"
    and e: "sendAndRecv os app sock s =
      obind (send_phase os (filled sock a) s1) (\<lambda>(sock3, s3). Inr (True, sock3, s3))"
    using sendAndRecv_receive [OF assms(1-4) c a, of app] cb
    by (simp_all add: run_callback_def server_callback_def s1_def)
  obtain sock' t where "send_phase os (filled sock a) s1 = Inr (sock', t)" "received sock' = received (filled sock a)"
    using send_phase_spec [OF os r(2), of s1] by blast
  with r(1) e show ?thesis by simp
qed

section \<open>listen\<close>

text \<open>Which calls register a descriptor with an epoll instance.\<close>

fun registers :: "ext_call \<Rightarrow> bool" where
  "registers (Epoll_ctl_add e f m p) = True"
| "registers c = False"

abbreviation unregistered :: "sys \<Rightarrow> sys \<Rightarrow> bool" where
  "unregistered \<equiv> made (\<lambda>c. \<not> registers c)"

lemma destroy_made: "destroy os sock s = (sock', t) \<Longrightarrow> unregistered s t"
  by (auto simp: destroy_def ext_def split: if_splits)

lemma delete_all_made: "delete_all os as srv s = Inr (srv', t) \<Longrightarrow> unregistered s t"
proof (induction as arbitrary: srv s)
  case (Cons a as)
  then obtain srv1 s1 where d: "delete_socket os a srv s = Inr (srv1, s1)" "delete_all os as srv1 s1 = Inr (srv', t)"
    by (auto simp: obind_Inr_iff)
  have "unregistered s s1"
    using d(1) by (auto simp: delete_socket_def TCPSocket_dtor_def split: option.splits prod.splits dest: destroy_made)
  with Cons.IH [OF d(2)] show ?case by (blast intro: made_trans)
qed simp

lemma server_destroy_made:
  assumes "server_destroy os srv s = Inr (srv', t)"
  shows "unregistered s t"
proof -
  obtain srv1 s1 where d: "delete_all os (sockets srv) srv s = Inr (srv1, s1)"
    using assms by (auto simp: server_destroy_def obind_Inr_iff)
  obtain sock s2 where l: "destroy os (listener srv1) (if efd srv1 \<ge> 0 then after os (Close (efd srv1)) s1 else s1) = (sock, s2)"
    by (meson surj_pair)
  have "t = s2" using assms d l by (auto simp: server_destroy_def ext_def Let_def split: if_splits)
  moreover have "unregistered s1 s2" using destroy_made [OF l] by (auto elim: made_first split: if_splits)
  ultimately show ?thesis using delete_all_made [OF d] made_trans by blast
qed

lemma try_candidate_made:
  "try_candidate os is_udp is_blocking is_listening ts candidate s = (r, t) \<Longrightarrow> unregistered s t"
  by (auto simp: made_def try_candidate_def ext_def Let_def give_up_def setNonBlocking_def step_nodelay_def
      setNoDelay_def step_role_def step_listen_def step_connect_def step_timestamp_def
      setSOTimestamp_def split: if_splits)

lemma try_candidates_made:
  "try_candidates os is_udp is_blocking is_listening ts cands s = (r, t) \<Longrightarrow> unregistered s t"
proof (induction cands arbitrary: s)
  case (Cons c cands)
  then show ?case
    by (auto simp: Let_def split: prod.splits if_splits dest!: try_candidate_made intro: made_trans)
qed simp

lemma find_iface_made: "find_iface os iface l s = (ip, t) \<Longrightarrow> unregistered s t"
  by (induction l) (auto simp: ext_def Let_def split: option.splits if_splits)

lemma made_log_call [simp]: "made P s (log_call m args t) = made P s t"
  by (simp add: made_def)

lemma createSocket_made:
  assumes "createSocket os ip iface port is_udp is_blocking is_listening ts s = (r, t)"
  shows "unregistered s t"
proof -
  obtain ip' s1 where ip': "(if ip = [] then getIfaceIP os iface s else (ip, s)) = (ip', s1)" by (meson surj_pair)
  then have s1: "unregistered s s1"
    by (auto simp: getIfaceIP_def ext_def Let_def split: if_splits prod.splits
        dest!: find_iface_made intro!: made_last elim: made_first)
  have "unregistered s1 t"
    using assms ip'
    by (auto simp: createSocket_def ext_def Let_def split: if_splits prod.splits
        dest!: try_candidates_made intro!: made_last elim: made_first)
  with s1 show ?thesis by (rule made_trans)
qed

lemma unregistered_fix:
  "unregistered s t \<Longrightarrow> hist t = hist s @ h \<Longrightarrow> (Epoll_ctl_add e f m p, r) \<notin> set h"
  by (force simp: made_def list_all_iff)

text \<open>How \<open>listen\<close> ends: without an epoll instance, without a listening socket, or with the attempt
  to register the listener.\<close>

lemma listen_cases:
  assumes "listen os iface port srv s = Inr (ok, srv', t)"
  obtains
    (no_epoll) s1 where "\<not> ok" "unregistered s s1" "ret (os (hist s1) (Epoll_create1 0)) < 0"
      "hist t = hist (after os (Epoll_create1 0) s1)"
  | (no_socket) s1 f s2 where "\<not> ok" "unregistered s s1"
      "createSocket os [] iface port False False True True s1 = (f, s2)" "f < 0" "unregistered s2 t"
  | (added) s1 f s2 e c where "unregistered s s1"
      "createSocket os [] iface port False False True True s1 = (f, s2)" "0 \<le> f"
      "c = Epoll_ctl_add e f (EPOLLIN OR EPOLLET) listener_addr"
      "ok \<longleftrightarrow> ret (os (hist s2) c) \<noteq> - 1"
      "ok \<Longrightarrow> t = after os c s2 \<and> efd srv' = e \<and> fd (listener srv') = f"
      "unregistered (after os c s2) t"
proof -
  obtain srv1 s0 where d: "server_destroy os srv s = Inr (srv1, s0)"
    using assms by (auto simp: listen_def obind_Inr_iff)
  let ?c = "Epoll_create1 0"
  let ?e = "ret (os (hist s0) ?c)" and ?s1 = "after os ?c s0"
  obtain k1 s1 where k1: "destroy os (listener srv1) ?s1 = (k1, s1)" by (meson surj_pair)
  obtain f s2 where f: "createSocket os [] iface port False False True True s1 = (f, s2)" by (meson surj_pair)
  let ?k = "k1\<lparr>fd := f, in_addr := \<lparr>sin_family = AF_INET, sin_port = htons (word_of_int port), s_addr = 0\<rparr>\<rparr>"
  let ?srv3 = "srv1\<lparr>efd := ?e, listener := ?k\<rparr>"
  let ?a = "Epoll_ctl_add ?e f (EPOLLIN OR EPOLLET) listener_addr"
  have u0: "unregistered s s0" by (rule server_destroy_made [OF d])
  have "unregistered s0 s1" using destroy_made [OF k1] by (rule made_first) simp
  then have u1: "unregistered s s1" using u0 made_trans by blast
  have con: "connect os [] iface port True (listener (srv1\<lparr>efd := ?e\<rparr>)) ?s1 = (f, ?k, s2)"
    using k1 f by (simp add: connect_def)
  consider "?e < 0" | "\<not> ?e < 0" "f < 0" | "\<not> ?e < 0" "\<not> f < 0" by blast
  then show thesis
  proof cases
    case 1
    then have "\<not> ok" "hist t = hist ?s1" using assms d by (auto simp: listen_def ext_def)
    with no_epoll u0 1 show thesis by blast
  next
    case 2
    then obtain m args where "\<not> ok" "server_destroy os ?srv3 (log_call m args s2) = Inr (srv', t)"
      using assms d con by (auto simp: listen_def ext_def obind_Inr_iff)
    then have "\<not> ok" "unregistered s2 t" using server_destroy_made [of os ?srv3 "log_call m args s2"]
      by (auto simp: made_def)
    with no_socket u1 f 2 show thesis by blast
  next
    case 3
    have add: "epollAdd os listener_addr ?srv3 s2 = Inr (ret (os (hist s2) ?a) \<noteq> - 1, after os ?a s2)"
      using 3 by (simp add: epollAdd_def deref_def ext_def listener_addr_def nullptr_def)
    show thesis
    proof (cases "ret (os (hist s2) ?a) = - 1")
      case True
      then obtain m args where "\<not> ok" "server_destroy os ?srv3 (log_call m args (after os ?a s2)) = Inr (srv', t)"
        using assms d con add 3 by (auto simp: listen_def ext_def obind_Inr_iff)
      then have "\<not> ok" "unregistered (after os ?a s2) t"
        using server_destroy_made [of os ?srv3 "log_call m args (after os ?a s2)"] by (auto simp: made_def)
      with added [OF u1 f _ refl] True 3 show thesis by auto
    next
      case False
      then have "ok" "srv' = ?srv3" "t = after os ?a s2"
        using assms d con add 3 by (auto simp: listen_def ext_def)
      with added [OF u1 f _ refl] False 3 show thesis by auto
    qed
  qed
qed

lemma listen_extends:
  assumes "listen os iface port srv s = Inr (ok, srv', t)"
  obtains h where "hist t = hist s @ h"
  using assms
proof (cases rule: listen_cases)
  case (no_epoll s1)
  with that show thesis by (auto simp: made_def)
next
  case (no_socket s1 f s2)
  with createSocket_made [OF no_socket(3)] that show thesis by (auto simp: made_def)
next
  case (added s1 f s2 e c)
  with createSocket_made [OF added(2)] that show thesis by (auto simp: made_def)
qed

lemma listen_calls:
  assumes os: "os_ok os" and l: "listen os iface port srv s = Inr (ok, srv', t)" and h: "hist t = hist s @ h"
  shows "ok \<longleftrightarrow> (\<exists>e f m p r. (Epoll_ctl_add e f m p, r) \<in> set h \<and> ret r \<noteq> - 1)"
    "ok \<Longrightarrow> (efd srv', fd (listener srv'), listener_addr) \<in> set (epoll_set (hist t))"
    "ok \<Longrightarrow> \<exists>candidate pre h' post. hist t = pre @ h' @ post \<and>
       usable False False True True candidate (fd (listener srv')) h'"
    "\<not> ok \<Longrightarrow> (\<exists>r. (Epoll_create1 0, r) \<in> set h \<and> ret r < 0) \<or>
       (\<exists>h1 s1 f s2 h2. hist s1 = hist s @ h1 \<and> hist t = hist s2 @ h2 \<and> f < 0 \<and>
          createSocket os [] iface port False False True True s1 = (f, s2)) \<or>
       (\<exists>e f m p r. (Epoll_ctl_add e f m p, r) \<in> set h \<and> ret r = - 1)"
proof -
  show "ok \<longleftrightarrow> (\<exists>e f m p r. (Epoll_ctl_add e f m p, r) \<in> set h \<and> ret r \<noteq> - 1)"
    using l
  proof (cases rule: listen_cases)
    case (no_epoll s1)
    then have u: "unregistered s (after os (Epoll_create1 0) s1)" by (intro made_last) simp_all
    have "hist (after os (Epoll_create1 0) s1) = hist s @ h" using no_epoll(4) [symmetric] h by (rule trans)
    then show ?thesis using no_epoll(1) unregistered_fix [OF u] by blast
  next
    case (no_socket s1 f s2)
    have "unregistered s t"
      by (rule made_trans [OF no_socket(2) made_trans [OF createSocket_made [OF no_socket(3)] no_socket(5)]])
    then show ?thesis using no_socket(1) unregistered_fix [OF _ h] by blast
  next
    case (added s1 f s2 e c)
    have "unregistered s s2" by (rule made_trans [OF added(1) createSocket_made [OF added(2)]])
    then obtain h1 where h1: "hist s2 = hist s @ h1" by (auto simp: made_def)
    obtain h2 where h2: "hist t = hist (after os c s2) @ h2" using added(7) by (auto simp: made_def)
    then have "h = h1 @ (c, os (hist s2) c) # h2" using h h1 by simp
    then show ?thesis
      using added(4,5) unregistered_fix [OF \<open>unregistered s s2\<close> h1] unregistered_fix [OF added(7) h2] by auto
  qed
  show "(efd srv', fd (listener srv'), listener_addr) \<in> set (epoll_set (hist t))" if ok
    using l that
  proof (cases rule: listen_cases)
    case (added s1 f s2 e c)
    with that show ?thesis by simp
  qed auto
  show "\<exists>candidate pre h' post. hist t = pre @ h' @ post \<and>
       usable False False True True candidate (fd (listener srv')) h'" if ok
    using l that
  proof (cases rule: listen_cases)
    case (added s1 f s2 e c)
    obtain candidate pre h' a where u: "hist s2 = pre @ h' @ [(Freeaddrinfo, a)]"
        "usable False False True True candidate f h'"
      using createSocket_ready [OF os _ added(2)] added(3) by fastforce
    have "hist t = pre @ h' @ [(Freeaddrinfo, a), (c, os (hist s2) c)]" using u(1) added(6) that by simp
    with u(2) added(6) that show ?thesis by blast
  qed auto
  show "(\<exists>r. (Epoll_create1 0, r) \<in> set h \<and> ret r < 0) \<or>
       (\<exists>h1 s1 f s2 h2. hist s1 = hist s @ h1 \<and> hist t = hist s2 @ h2 \<and> f < 0 \<and>
          createSocket os [] iface port False False True True s1 = (f, s2)) \<or>
       (\<exists>e f m p r. (Epoll_ctl_add e f m p, r) \<in> set h \<and> ret r = - 1)" if "\<not> ok"
    using l
  proof (cases rule: listen_cases)
    case (no_epoll s1)
    then have "(Epoll_create1 0, os (hist s1) (Epoll_create1 0)) \<in> set h" using h by (auto simp: made_def)
    with no_epoll(3) show ?thesis by blast
  next
    case (no_socket s1 f s2)
    obtain h1 h2 where "hist s1 = hist s @ h1" "hist t = hist s2 @ h2"
      using no_socket(2,5) by (auto simp: made_def)
    with no_socket(3,4) show ?thesis by blast
  next
    case (added s1 f s2 e c)
    have "(c, os (hist s2) c) \<in> set h"
      using added(1,7) createSocket_made [OF added(2)] h by (auto simp: made_def)
    with added(4,5) that show ?thesis by blast
  qed
qed

text \<open>
  Property C24. \<open>listen\<close> from any state of the server always returns, and it returns true exactly
  if it registered a descriptor with epoll. Then the epoll instance and the listener are open,
  the listener is registered with that instance under its own address, and its socket is bound
  and listening with every set-up call successful. If it returns false, then \<open>epoll_create1\<close>
  failed, or no listening socket could be created, or the registration failed; whichever it was,
  everything is released again, so that nothing of the server remains open.
\<close>

theorem listen_all_or_nothing:
  assumes "os_ok os" "server_inv B srv s"
  shows "\<exists>ok srv' t h. listen os iface port srv s = Inr (ok, srv', t) \<and> server_inv B srv' t \<and>
           hist t = hist s @ h \<and>
           (ok \<longleftrightarrow> (\<exists>e f m p r. (Epoll_ctl_add e f m p, r) \<in> set h \<and> ret r \<noteq> - 1)) \<and>
           (if ok
            then 0 \<le> efd srv' \<and> 0 \<le> fd (listener srv') \<and>
              (efd srv', fd (listener srv'), listener_addr) \<in> set (epoll_set (hist t)) \<and>
              (\<exists>candidate pre h' post. hist t = pre @ h' @ post \<and>
                 usable False False True True candidate (fd (listener srv')) h')
            else efd srv' < 0 \<and> server_fds srv' = {} \<and> set (open_fds (hist t)) = B \<and>
              ((\<exists>r. (Epoll_create1 0, r) \<in> set h \<and> ret r < 0) \<or>
               (\<exists>h1 s1 f s2 h2. hist s1 = hist s @ h1 \<and> hist t = hist s2 @ h2 \<and> f < 0 \<and>
                  createSocket os [] iface port False False True True s1 = (f, s2)) \<or>
               (\<exists>e f m p r. (Epoll_ctl_add e f m p, r) \<in> set h \<and> ret r = - 1)))"
proof -
  obtain ok srv' t where l: "listen os iface port srv s = Inr (ok, srv', t)" "server_inv B srv' t"
    "if ok then 0 \<le> efd srv' \<and> 0 \<le> fd (listener srv') else efd srv' < 0 \<and> server_fds srv' = {} \<and> sys_inv B t"
    using listen_inv [OF assms, of iface port] by blast
  obtain h where h: "hist t = hist s @ h" by (rule listen_extends [OF l(1)])
  note calls = listen_calls [OF assms(1) l(1) h]
  have "if ok
        then 0 \<le> efd srv' \<and> 0 \<le> fd (listener srv') \<and>
          (efd srv', fd (listener srv'), listener_addr) \<in> set (epoll_set (hist t)) \<and>
          (\<exists>candidate pre h' post. hist t = pre @ h' @ post \<and>
             usable False False True True candidate (fd (listener srv')) h')
        else efd srv' < 0 \<and> server_fds srv' = {} \<and> set (open_fds (hist t)) = B \<and>
          ((\<exists>r. (Epoll_create1 0, r) \<in> set h \<and> ret r < 0) \<or>
           (\<exists>h1 s1 f s2 h2. hist s1 = hist s @ h1 \<and> hist t = hist s2 @ h2 \<and> f < 0 \<and>
              createSocket os [] iface port False False True True s1 = (f, s2)) \<or>
           (\<exists>e f m p r. (Epoll_ctl_add e f m p, r) \<in> set h \<and> ret r = - 1))"
  proof (cases ok)
    case True
    with l(3) calls(2,3) show ?thesis by simp
  next
    case False
    with l(3) have "efd srv' < 0 \<and> server_fds srv' = {} \<and> set (open_fds (hist t)) = B" by (simp add: sys_inv_def)
    then show ?thesis using calls(4) [OF False] unfolding if_not_P [OF False] by blast
  qed
  then show ?thesis by (intro exI conjI) (rule l(1), rule l(2), rule h, rule calls(1))
qed

lemma listen_test_run:
  "\<exists>srv t. listen one_client_os ''lo'' 8080 (TCPServer b b) sys_start = Inr (True, srv, t)"
  by (simp add: system_simps socket_simps server_simps)

theorem listen_all_or_nothing_witness:
  "\<exists>srv' t candidate pre h post. listen one_client_os ''lo'' 8080 (TCPServer zeros zeros) sys_start =
     Inr (True, srv', t) \<and> (efd srv', fd (listener srv'), listener_addr) \<in> set (epoll_set (hist t)) \<and>
     hist t = pre @ h @ post \<and> usable False False True True candidate (fd (listener srv')) h"
proof -
  obtain srv t where l: "listen one_client_os ''lo'' 8080 (TCPServer zeros zeros) sys_start = Inr (True, srv, t)"
    using listen_test_run [of zeros] by blast
  then show ?thesis
    using listen_all_or_nothing [OF one_client_os_ok TCPServer_inv [OF sys_start_inv length_replicate length_replicate],
        of "''lo''" 8080 0 0] by (force cong: conj_cong)
qed

end
