(* ===== verification/Conversations.thy ===== *)
theory Conversations
  imports Server_Runs
begin

text \<open>
  What the server says to each client over a whole run. \<open>delivered f h\<close> and \<open>sent_on f h\<close> are the
  bytes that the kernel has delivered from and accepted for the connection with descriptor \<open>f\<close>
  since that descriptor was opened last. The interface \<open>reply_callback\<close> states what a receive
  callback makes of the bytes it is shown: a relation between all bytes delivered so far, those
  still unread, and all bytes queued in reply. It gives \<open>conversation\<close>, the same for the dispatch
  over the callbacks a socket can have, from which the relation follows for every client of a
  server at every moment of every run.
\<close>

section \<open>The bytes of a connection\<close>

fun stream_effect :: "int \<Rightarrow> ext_call \<times> answer \<Rightarrow> byte list \<times> byte list \<Rightarrow> byte list \<times> byte list" where
  "stream_effect f (Recvmsg g n, a) (d, q) = (if g = f \<and> 0 < ret a then d @ ans_bytes a else d, q)"
| "stream_effect f (Send g bs, a) (d, q) = (d, if g = f \<and> 0 < ret a then q @ take (nat (ret a)) bs else q)"
| "stream_effect f (Accept l, a) (d, q) = (if ret a = f then ([], []) else (d, q))"
| "stream_effect f (Socket x y z, a) (d, q) = (if ret a = f then ([], []) else (d, q))"
| "stream_effect f (Epoll_create1 x, a) (d, q) = (if ret a = f then ([], []) else (d, q))"
| "stream_effect f (c, a) (d, q) = (d, q)"

definition stream :: "int \<Rightarrow> history \<Rightarrow> byte list \<times> byte list" where
  "stream f h = fold (stream_effect f) h ([], [])"

definition delivered :: "int \<Rightarrow> history \<Rightarrow> byte list" where
  "delivered f h = fst (stream f h)"

definition sent_on :: "int \<Rightarrow> history \<Rightarrow> byte list" where
  "sent_on f h = snd (stream f h)"

lemma stream_append: "stream f (h @ h') = fold (stream_effect f) h' (stream f h)"
  by (simp add: stream_def)

text \<open>Calls that belong to the connection with descriptor \<open>f\<close>.\<close>

fun on :: "int \<Rightarrow> ext_call \<Rightarrow> bool" where
  "on f (Recvmsg g n) = (g = f)"
| "on f (Send g bs) = (g = f)"
| "on f c = False"

lemma stream_unaffected:
  assumes "made P s t" "\<And>c a x. P c \<Longrightarrow> stream_effect f (c, a) x = x"
  shows "stream f (hist t) = stream f (hist s)"
proof -
  obtain h where h: "hist t = hist s @ h" "list_all P (map fst h)" using assms(1) by (auto simp: made_def)
  from h(2) have "fold (stream_effect f) h x = x" for x
    using assms(2) [of _ _ x] by (induction h) auto
  then show ?thesis by (simp add: h(1) stream_append)
qed

lemma stream_still: "made still s t \<Longrightarrow> stream f (hist t) = stream f (hist s)"
proof (erule stream_unaffected)
  show "stream_effect f (c, a) x = x" if "still c" for c a x using that by (cases c; cases x) auto
qed

lemma stream_other: "made (on g) s t \<Longrightarrow> f \<noteq> g \<Longrightarrow> stream f (hist t) = stream f (hist s)"
proof (erule stream_unaffected)
  show "stream_effect f (c, a) x = x" if "f \<noteq> g" "on g c" for c a x using that by (cases c; cases x) auto
qed

fun is_send :: "int \<Rightarrow> ext_call \<Rightarrow> bool" where
  "is_send f (Send g bs) = (g = f)"
| "is_send f c = False"

lemma is_send_on: "is_send f c \<Longrightarrow> on f c"
  by (cases c) simp_all

lemma stream_sends:
  assumes "list_all (is_send f) (map fst h)"
  shows "fold (stream_effect f) h x = (fst x, snd x @ handed f h)"
  using assms
proof (induction h arbitrary: x)
  case (Cons e h)
  obtain c a d q where e: "e = (c, a)" "x = (d, q)" by (cases e; cases x)
  with Cons show ?case by (cases c) auto
qed simp

lemma send_loop_sends: "send_loop os k n sock s = Inr (m, sock', t) \<Longrightarrow> made (is_send (fd sock)) s t"
proof (induction k arbitrary: n s)
  case (Suc k)
  have step: "made (is_send (fd sock)) s (after os (Send (fd sock) bs) s)" for bs by (rule made_after) simp
  have "made (is_send (fd sock)) s s" by (simp add: made_def)
  with send_loop_step [OF Suc.prems] show ?case using Suc.IH step made_trans [OF step] by metis
qed simp

lemma send_phase_sends: "send_phase os sock s = Inr (sock', t) \<Longrightarrow> made (is_send (fd sock)) s t"
  by (auto simp: send_phase_def obind_Inr_iff dest: send_loop_sends)

section \<open>Callbacks and what they reply\<close>

type_synonym exchange = "byte list \<Rightarrow> byte list \<Rightarrow> byte list \<Rightarrow> bool"

locale reply_callback = receive_callback +
  fixes R :: exchange
  assumes R_start: "R [] [] []"
    and R_step: "sock_wf sock \<Longrightarrow> R d u q \<Longrightarrow> received sock = u @ new \<Longrightarrow> suffix (pending sock) q \<Longrightarrow>
      app sock rx s = Inr (sock', s') \<Longrightarrow>
      \<exists>reply. pending sock' = pending sock @ reply \<and> R (d @ new) (received sock') (q @ reply)"

text \<open>The two callbacks of the library: one keeps everything, the other drops everything, and
  neither replies.\<close>

definition keeps :: exchange where
  "keeps d u q \<longleftrightarrow> u = d \<and> q = []"

definition drops :: exchange where
  "drops d u q \<longleftrightarrow> u = [] \<and> q = []"

interpretation keeping: reply_callback server_callback keeps
  by unfold_locales (auto simp: keeps_def server_callback_def)

interpretation dropping: reply_callback default_callback drops
  by unfold_locales (auto simp: drops_def default_callback_def received_def pending_def)

fun exchange_of :: "exchange \<Rightarrow> callback \<Rightarrow> exchange" where
  "exchange_of R App_callback = R"
| "exchange_of R Server_callback = keeps"
| "exchange_of R Default_callback = drops"

locale conversation = receive_callback +
  fixes Q :: "callback \<Rightarrow> exchange"
  assumes Q_start: "Q cb [] [] []"
    and Q_step: "sock_wf sock \<Longrightarrow> Q (recv_callback sock) d u q \<Longrightarrow> received sock = u @ new \<Longrightarrow>
      suffix (pending sock) q \<Longrightarrow>
      run_callback app sock rx s = Inr (sock', s') \<Longrightarrow>
      \<exists>reply. pending sock' = pending sock @ reply \<and> Q (recv_callback sock) (d @ new) (received sock') (q @ reply)"

sublocale reply_callback \<subseteq> conversation app "exchange_of R"
proof (unfold_locales, goal_cases)
  case (1 cb)
  then show ?case using R_start by (cases cb) (simp_all add: keeps_def drops_def)
next
  case (2 sock d u q new rx s sock' s')
  show ?case
  proof (cases "recv_callback sock")
    case Default_callback
    with 2 dropping.R_step [of sock d u q new rx s sock' s'] show ?thesis by (simp add: run_callback_def)
  next
    case Server_callback
    with 2 keeping.R_step [of sock d u q new rx s sock' s'] show ?thesis by (simp add: run_callback_def)
  next
    case App_callback
    with 2 R_step [of sock d u q new rx s sock' s'] show ?thesis by (simp add: run_callback_def)
  qed
qed

text \<open>The state of a conversation, read off the history and the buffers.\<close>

definition client_talk :: "(callback \<Rightarrow> exchange) \<Rightarrow> history \<Rightarrow> tcp_socket \<Rightarrow> bool" where
  "client_talk Q h k \<longleftrightarrow>
     Q (recv_callback k) (delivered (fd k) h) (received k) (sent_on (fd k) h @ pending k)"

definition talk :: "(callback \<Rightarrow> exchange) \<Rightarrow> server \<Rightarrow> sys \<Rightarrow> bool" where
  "talk Q srv s \<longleftrightarrow> (\<forall>a k. heap srv a = Some k \<longrightarrow> client_talk Q (hist s) k)"

lemma client_talk_stream:
  "stream (fd k) h' = stream (fd k) h \<Longrightarrow> client_talk Q h' k = client_talk Q h k"
  by (simp add: client_talk_def delivered_def sent_on_def)

lemma client_talk_same:
  "fd k' = fd k \<Longrightarrow> recv_callback k' = recv_callback k \<Longrightarrow> received k' = received k \<Longrightarrow> pending k' = pending k \<Longrightarrow>
   client_talk Q h k' = client_talk Q h k"
  by (simp add: client_talk_def)

text \<open>The send phase moves bytes from the buffer to the kernel.\<close>

lemma send_phase_talk:
  assumes "os_ok os" "sock_wf sock" "send_phase os sock s = Inr (sock', t)" "client_talk Q (hist s) sock"
  shows "client_talk Q (hist t) sock'"
proof -
  obtain h where p: "fd sock' = fd sock" "recv_callback sock' = recv_callback sock" "received sock' = received sock"
      "hist t = hist s @ h" "pending sock = handed (fd sock) h @ pending sock'"
    using send_phase_spec [OF assms(1,2), of s] assms(3) by auto
  have "list_all (is_send (fd sock)) (map fst h)" using send_phase_sends [OF assms(3)] p(4) by (auto simp: made_def)
  then have "stream (fd sock) (hist t) = (delivered (fd sock) (hist s), sent_on (fd sock) (hist s) @ handed (fd sock) h)"
    using stream_sends [of "fd sock" h] by (simp add: p(4) stream_append delivered_def sent_on_def)
  then show ?thesis using assms(4) p by (simp add: client_talk_def delivered_def sent_on_def)
qed

lemma recv_event:
  "stream f (hist (after os (Recvmsg f n) s)) =
     (if 0 < ret (os (hist s) (Recvmsg f n)) then delivered f (hist s) @ ans_bytes (os (hist s) (Recvmsg f n))
      else delivered f (hist s), sent_on f (hist s))"
  by (cases "stream f (hist s)") (simp add: stream_append delivered_def sent_on_def)

lemma recv_phase_runs:
  assumes "sock_wf sock" "next_rcv_valid_index sock < TCP_BUFFER_SIZE" "os_ok os"
    and a: "a = os (hist s) (Recvmsg (fd sock) (unat (TCP_BUFFER_SIZE - next_rcv_valid_index sock)))" "0 < ret a"
    and s1: "s1 = after os (Recvmsg (fd sock) (unat (TCP_BUFFER_SIZE - next_rcv_valid_index sock))) s"
    and r: "recv_phase os app sock s = Inr (n, sock', s')"
  shows "\<exists>rx. run_callback app (filled sock a) rx s1 = Inr (sock', s')"
proof -
  obtain rx where "obind (run_callback app (filled sock a) rx s1) (\<lambda>(sock2, s2). Inr (ret a, sock2, s2)) =
      Inr (n, sock', s')"
    using recv_phase_unfold(1) [OF assms(1-3) a(1) s1 a(2), of app] r by metis
  then show ?thesis by (auto simp: obind_Inr_iff)
qed

context receive_callback
begin

text \<open>Input and output on a socket make no system call on another connection.\<close>

lemma recv_phase_on:
  assumes os: "os_ok os" and wf: "sock_wf sock" and room: "next_rcv_valid_index sock < TCP_BUFFER_SIZE"
    and r: "recv_phase os app sock s = Inr (n, sock', s')"
  shows "made (on (fd sock)) s s'"
proof -
  let ?c = "Recvmsg (fd sock) (unat (TCP_BUFFER_SIZE - next_rcv_valid_index sock))"
  let ?a = "os (hist s) ?c" and ?s1 = "after os ?c s"
  have m: "made (on (fd sock)) s ?s1" by (rule made_after) simp
  have "hist s' = hist ?s1"
  proof (cases "0 < ret ?a")
    case True
    from recv_phase_runs [OF wf room os refl True refl r] show ?thesis
      using receive_callback.app_quiet [OF run_contract] by blast
  qed (use recv_phase_unfold(2) [OF wf room os refl refl, of s app] r in auto)
  with m show ?thesis by (simp add: made_def)
qed

lemma sendAndRecv_on:
  assumes os: "os_ok os" and wf: "sock_wf sock" and io: "sendAndRecv os app sock s = Inr (b, sock', s')"
  shows "made (on (fd sock)) s s'"
proof (cases "fd sock < 0 \<or> next_rcv_valid_index sock \<ge> TCP_BUFFER_SIZE")
  case True
  then have "hist s' = hist s" using io by (auto simp: sendAndRecv_def split: if_splits)
  then show ?thesis by (simp add: made_def)
next
  case False
  then have room: "next_rcv_valid_index sock < TCP_BUFFER_SIZE" by auto
  obtain n sock1 s1 where r: "recv_phase os app sock s = Inr (n, sock1, s1)" "send_phase os sock1 s1 = Inr (sock', s')"
    using io False by (auto simp: sendAndRecv_def obind_Inr_iff)
  have "fd sock1 = fd sock" using recv_phase_ok [OF wf room os, of s] r(1) by auto
  then have "made (on (fd sock)) s1 s'" using send_phase_sends [OF r(2)] is_send_on made_mono by metis
  with recv_phase_on [OF os wf room r(1)] show ?thesis by (rule made_trans)
qed

end

context conversation
begin

text \<open>\<open>sendAndRecv\<close> continues the conversation of its connection: first the attempt to receive, then
  the whole call.\<close>

lemma recv_phase_talk:
  assumes os: "os_ok os" and wf: "sock_wf sock" and room: "next_rcv_valid_index sock < TCP_BUFFER_SIZE"
    and t: "client_talk Q (hist s) sock" and r: "recv_phase os app sock s = Inr (n, sock', s')"
  shows "client_talk Q (hist s') sock' \<and> sock_wf sock'"
proof -
  define c where "c = Recvmsg (fd sock) (unat (TCP_BUFFER_SIZE - next_rcv_valid_index sock))"
  define a where "a = os (hist s) c"
  define s1 where "s1 = after os c s"
  have va: "valid_answer (hist s) c a" unfolding a_def by (rule os_okD [OF os])
  have C: "sock_wf sock'" "fd sock' = fd sock" "recv_callback sock' = recv_callback sock"
    using recv_phase_ok [OF wf room os, of s] r by auto
  have ev: "stream (fd sock) (hist s1) =
      (if 0 < ret a then delivered (fd sock) (hist s) @ ans_bytes a else delivered (fd sock) (hist s),
       sent_on (fd sock) (hist s))"
    unfolding s1_def a_def c_def by (rule recv_event)
  have "client_talk Q (hist s') sock'"
  proof (cases "0 < ret a")
    case True
    note fill = filled_facts [OF wf room va [unfolded c_def] True]
    obtain rx where c: "run_callback app (filled sock a) rx s1 = Inr (sock', s')"
      using recv_phase_runs [OF wf room os a_def [unfolded c_def] True s1_def [unfolded c_def] r] by blast
    have h: "hist s' = hist s1" using receive_callback.app_quiet [OF run_contract c] by simp
    obtain reply where "pending sock' = pending sock @ reply"
        "Q (recv_callback sock) (delivered (fd sock) (hist s) @ ans_bytes a) (received sock')
           ((sent_on (fd sock) (hist s) @ pending sock) @ reply)"
      using Q_step [OF fill(2) _ fill(3) _ c] t unfolding client_talk_def fill(4,6) by (blast intro: suffixI)
    then show ?thesis
      using C(2,3) h ev True by (simp add: client_talk_def delivered_def [of _ "hist s1"] sent_on_def [of _ "hist s1"])
  next
    case False
    then have s': "s' = s1" "received sock' = received sock" "pending sock' = pending sock"
      using recv_phase_unfold(2) [OF wf room os a_def [unfolded c_def] s1_def [unfolded c_def], of app] r
      by (auto simp: received_def pending_def split: option.splits)
    have "stream (fd sock) (hist s1) = stream (fd sock) (hist s)"
      using ev False by (simp add: delivered_def sent_on_def)
    then show ?thesis using t client_talk_stream client_talk_same [OF C(2,3) s'(2,3)] s'(1) by blast
  qed
  with C(1) show ?thesis by simp
qed

lemma sendAndRecv_talk:
  assumes os: "os_ok os" and wf: "sock_wf sock" and t: "client_talk Q (hist s) sock"
    and io: "sendAndRecv os app sock s = Inr (b, sock', s')"
  shows "client_talk Q (hist s') sock'"
proof (cases "fd sock < 0 \<or> next_rcv_valid_index sock \<ge> TCP_BUFFER_SIZE")
  case True
  then show ?thesis
    using io assms(3) client_talk_same [of "sock\<lparr>recv_disconnected := True\<rparr>" sock]
    by (auto simp: sendAndRecv_def received_def pending_def split: if_splits)
next
  case False
  then have room: "next_rcv_valid_index sock < TCP_BUFFER_SIZE" by auto
  obtain n sock1 s1 where r: "recv_phase os app sock s = Inr (n, sock1, s1)" "send_phase os sock1 s1 = Inr (sock', s')"
    using io False by (auto simp: sendAndRecv_def obind_Inr_iff)
  from recv_phase_talk [OF os wf room t r(1)] send_phase_talk [OF os _ r(2), of Q] show ?thesis by simp
qed

end

section \<open>All clients of a server\<close>

lemma talk_still: "talk Q srv s \<Longrightarrow> made still s t \<Longrightarrow> heap srv' \<subseteq>\<^sub>m heap srv \<Longrightarrow> talk Q srv' t"
  using stream_still client_talk_stream unfolding talk_def map_le_def by (metis domI)

context conversation
begin

lemma admit_talk:
  assumes "admit os alloc f srv s = Inr (srv', t)" "stream f (hist s) = ([], [])" "talk Q srv s"
  shows "talk Q srv' t"
  unfolding talk_def
proof (intro allI impI)
  fix a k
  assume k: "heap srv' a = Some k"
  have e: "made still s t" "untouched {f} srv srv'" using admit_effect [OF assms(1)] by simp_all
  note st = stream_still [OF e(1)]
  from e(2) k consider "heap srv a = Some k" | "fd k = f" "pending k = []" "received k = []"
    unfolding untouched_def by blast
  then show "client_talk Q (hist t) k"
  proof cases
    case 1
    with assms(3) st client_talk_stream show ?thesis unfolding talk_def by blast
  next
    case 2
    with assms(2) st Q_start show ?thesis by (simp add: client_talk_def delivered_def sent_on_def)
  qed
qed

lemma accept_loop_talk:
  assumes os: "os_ok os" and al: "alloc_ok alloc" and "server_inv B srv s" "talk Q srv s"
    and "accept_loop os alloc k srv s = Inr (srv', t)"
  shows "talk Q srv' t"
  using assms(3-5)
proof (induction k arbitrary: srv s)
  case (Suc k)
  let ?c = "Accept (fd (listener srv))"
  let ?r = "ret (os (hist s) ?c)" and ?s1 = "after os ?c s"
  note one = accept_one [OF os Suc.prems(1) refl refl]
  have keep: "talk Q srv ?s1" if "\<And>a l. heap srv a = Some l \<Longrightarrow> fd l \<noteq> ?r"
  proof -
    have "stream g (hist ?s1) = stream g (hist s)" if "g \<noteq> ?r" for g
      using that by (cases "stream g (hist s)") (simp add: stream_append)
    with Suc.prems(2) that client_talk_stream show ?thesis unfolding talk_def by metis
  qed
  show ?case
  proof (cases "?r < 0")
    case True
    then have "srv' = srv" "t = ?s1" using Suc.prems(3) by (auto simp: ext_def)
    moreover have "0 \<le> fd l" if "heap srv a = Some l" for a l
      using Suc.prems(1) that by (auto simp: server_inv_def core_inv_def objects_wf_def)
    ultimately show ?thesis using keep True by fastforce
  next
    case False
    then have r: "?r \<notin> B \<union> server_fds srv" "server_inv (insert ?r B) srv ?s1" using one(2) by blast+
    then have "fd l \<noteq> ?r" if "heap srv a = Some l" for a l
      using that by (auto simp: server_fds_def client_fds_def)
    then have t1: "talk Q srv ?s1" by (rule keep)
    have z: "stream ?r (hist ?s1) = ([], [])"
      by (cases "stream ?r (hist s)") (simp add: stream_append)
    obtain srv2 s2 where a: "admit os alloc ?r srv ?s1 = Inr (srv2, s2)" "server_inv B srv2 s2"
      using admit_inv [OF os al r(2)] r(1) False by auto
    then have "accept_loop os alloc k srv2 s2 = Inr (srv', t)" using Suc.prems(3) False by (auto simp: ext_def)
    with Suc.IH [OF a(2) admit_talk [OF a(1) z t1]] show ?thesis .
  qed
qed simp

lemma poll_talk:
  assumes os: "os_ok os" and al: "alloc_ok alloc" and inv: "server_inv B srv s" and t: "talk Q srv s"
    and p: "poll os alloc fuel srv s = Inr (srv', t)"
  shows "talk Q srv' t"
proof (cases "0 \<le> efd srv")
  case False
  with p t show ?thesis by (simp add: poll_def)
next
  case True
  obtain srv1 s1 srv2 s2 new where st:
      "del_all os (disconnected_sockets srv) (srv\<lparr>disconnected_sockets := []\<rparr>) s = Inr (srv1, s1)"
      "s2 = after os (Epoll_wait (efd srv1) MAX_EPOLL_EVENTS 0) s1" "server_inv B srv2 s2" "heap srv2 = heap srv1"
      "poll os alloc fuel srv s = (if new then accept_loop os alloc fuel srv2 s2 else Inr (srv2, s2))"
    using poll_stages [OF os inv True] by metis
  have "made still s1 s2" unfolding st(2) by (rule made_after) simp
  then have "made still s s2" using made_trans del_all_effect(1) [OF st(1)] by blast
  then have "talk Q srv2 s2"
    using talk_still [OF t] del_all_effect(2) [OF st(1)] st(4) by simp
  with accept_loop_talk [OF os al st(3)] st(5) p show ?thesis by (cases new) auto
qed

lemma io_socket_talk:
  assumes os: "os_ok os" and inv: "server_inv B srv s" and t: "talk Q srv s"
    and io: "io_socket os app a srv s = Inr (g, srv', t')"
  shows "talk Q srv' t'"
proof -
  have core: "core_inv B srv s" using inv by (simp add: server_inv_def)
  obtain k k' where k: "deref a srv = Inr k" "sendAndRecv os app k s = Inr (g, k', t')"
      "heap srv' = heap (assign a k' srv)"
    using io by (auto simp: io_socket_def obind_Inr_iff Let_def)
  note wf = derefD(1) [OF k(1) core]
  have other: "client_talk Q (hist t') l" if "heap srv b = Some l" "fd l \<noteq> fd k" for b l
    using t that stream_other [OF sendAndRecv_on [OF os wf k(2)]] client_talk_stream unfolding talk_def by blast
  show ?thesis
  proof (cases "a = listener_addr")
    case True
    have "fd l \<noteq> fd k" if "heap srv b = Some l" for b l
      using that core True k(1) by (fastforce simp: core_inv_def separate_def objects_wf_def owned_fd_def
          client_fds_def deref_def)
    with other k(3) True show ?thesis by (auto simp: talk_def assign_def)
  next
    case False
    then have h: "heap srv a = Some k" using derefD(2) [OF k(1) core] by simp
    then have "client_talk Q (hist t') k'" using sendAndRecv_talk [OF os wf _ k(2)] t by (simp add: talk_def)
    moreover have "fd l \<noteq> fd k" if "heap srv b = Some l" "b \<noteq> a" for b l
      using separate_inj [OF core_invD(3) [OF core] that(1) h] that(2) by blast
    ultimately show ?thesis using other k(3) False by (auto simp: talk_def assign_def)
  qed
qed

text \<open>So the rounds of \<open>sendAndRecv\<close> continue every conversation.\<close>

lemma talk_preserved:
  assumes os: "os_ok os" and fin: "finished_ok fin"
  shows "io_preserved os app fin (\<lambda>srv s. server_inv B srv s \<and> talk Q srv s)"
proof
  fix a srv s g srv' t
  assume P: "server_inv B srv s \<and> talk Q srv s" and io: "io_socket os app a srv s = Inr (g, srv', t)"
  then obtain k where k: "deref a srv = Inr k" by (auto simp: io_socket_def obind_Inr_iff)
  have "core_inv B srv s" using P by (simp add: server_inv_def)
  from derefD(2) [OF k this] have "a \<in> insert listener_addr (dom (heap srv))" by auto
  then have "server_inv B srv' t" using io_socket_inv [OF os receive_callback_axioms, of B srv s a] P io by auto
  with io_socket_talk [OF os _ _ io] P show "server_inv B srv' t \<and> talk Q srv' t" by blast
next
  fix srv s
  assume "server_inv B srv s \<and> talk Q srv s"
  moreover have "hist (finished fin srv s) = hist s"
    using fin by (cases "finished_callback srv") (simp_all add: finished_def finished_ok_def)
  ultimately show "server_inv B srv (finished fin srv s) \<and> talk Q srv (finished fin srv s)"
    using finished_quiet [OF fin] core_quiet by (simp add: server_inv_def talk_def) blast
qed

lemma server_exec_talk:
  assumes env: "env_ok os alloc n fuel app fin" and inv: "server_inv B srv s" and t: "talk Q srv s"
  shows "\<exists>srv' t. server_exec os alloc fuel app fin oper (srv, s) = Inr (srv', t) \<and> server_inv B srv' t \<and>
    talk Q srv' t"
proof -
  have E: "os_ok os" "alloc_ok alloc" "finished_ok fin" using env by (simp_all add: env_ok_def)
  obtain srv' u where e: "server_exec os alloc fuel app fin oper (srv, s) = Inr (srv', u)" "server_inv B srv' u"
    using server_exec_keeps [OF env inv] by blast
  have none: "talk Q srv' u" if "sockets srv' = []"
    using that e(2) by (auto simp: server_inv_def lists_inv_def talk_def)
  have "talk Q srv' u"
  proof (cases oper)
    case (Server_listen iface port)
    with e(1) have "sockets srv' = []" by (auto simp: obind_Inr_iff dest: listen_empties)
    then show ?thesis by (rule none)
  next
    case Server_destroy
    with e(1) have "sockets srv' = []" by (simp add: destroy_empties)
    then show ?thesis by (rule none)
  next
    case Server_poll
    with e(1) poll_talk [OF E(1,2) inv t] show ?thesis by simp
  next
    case Server_sendAndRecv
    with e(1) io_preserved.server_io_keeps [OF talk_preserved [OF E(1,3)], of srv s srv' u B] inv t
    show ?thesis by simp
  next
    case (Server_callbacks c d)
    with e(1) t show ?thesis by (auto simp: talk_def)
  qed
  with e show ?thesis by blast
qed

end

sublocale conversation \<subseteq> talking: preserving_ops "server_exec os alloc fuel app fin"
  "\<lambda>(srv, s). env_ok os alloc n fuel app fin \<and> server_inv B srv s \<and> talk Q srv s"
  for os alloc fuel fin n B
proof (unfold_locales, goal_cases)
  case (1 st oper)
  then show ?case using server_exec_talk [of os alloc n fuel fin B "fst st" "snd st" oper]
    by (cases st) auto
qed

context conversation
begin

text \<open>The conversations of a whole run.\<close>

lemma run_talk:
  assumes "env_ok os alloc n fuel app fin" "sys_inv B s" "length b1 = 65536" "length b2 = 65536"
    and run: "run_ops (server_exec os alloc fuel app fin) ops (TCPServer b1 b2, s) = Inr (srv, t)"
    and k: "heap srv a = Some k"
  shows "client_talk Q (hist t) k"
proof -
  have "talk Q (TCPServer b1 b2) s" by (simp add: talk_def TCPServer_def)
  then have "talk Q srv t"
    using talking.run_keeps [of os alloc n fuel fin B "(TCPServer b1 b2, s)" ops] run assms(1)
      TCPServer_inv [OF assms(2-4)] by auto
  with k show ?thesis by (simp add: talk_def)
qed

end

context reply_callback
begin

lemma conversation: "conversation app (exchange_of R)"
  by (rule conversation_axioms)

end

section \<open>Properties\<close>

text \<open>
  Property C9. Conversations do not mix: take any relation \<open>R\<close> that one call of the application's
  callback keeps between the bytes delivered so far, those left unread and the bytes queued in
  reply. After any run of the server, every live client whose callback is the application's
  satisfies \<open>R\<close> with exactly the bytes of its own connection (what the kernel delivered on it, what
  is unread in its buffer, what the kernel accepted for it followed by what waits in its send
  buffer), whatever other clients did and however often descriptors were used again. Clients with
  the server's own callback still hold every byte and were sent nothing.
\<close>

theorem server_conversation:
  assumes "reply_callback app R" "env_ok os alloc n fuel app fin" "sys_inv B s"
    and "length b1 = 65536" "length b2 = 65536"
    and "run_ops (server_exec os alloc fuel app fin) ops (TCPServer b1 b2, s) = Inr (srv, t)"
    and "heap srv a = Some k"
  shows "exchange_of R (recv_callback k) (delivered (fd k) (hist t)) (received k)
           (sent_on (fd k) (hist t) @ pending k)"
  using conversation.run_talk [OF reply_callback.conversation assms(2-7)] assms(1)
  by (simp add: client_talk_def)

lemma one_client_run:
  assumes "length b = 65536"
  shows "\<exists>srv t k. run_ops (server_exec one_client_os (bump_of b) (Suc (Suc 0)) server_callback (\<lambda>s. s))
     [Server_listen ''lo'' 8080, Server_poll, Server_sendAndRecv] (TCPServer b b, sys_start) = Inr (srv, t) \<and>
   heap srv (Suc (Suc 0)) = Some k \<and> recv_callback k = Server_callback \<and>
   delivered (fd k) (hist t) = [104, 105]"
  by (simp add: assms system_simps socket_simps server_simps receive_simps delivered_def stream_def)

theorem server_conversation_witness:
  "\<exists>srv t k. run_ops (server_exec one_client_os bump (Suc (Suc 0)) server_callback (\<lambda>s. s))
     [Server_listen ''lo'' 8080, Server_poll, Server_sendAndRecv] (TCPServer zeros zeros, sys_start) = Inr (srv, t) \<and>
   heap srv (Suc (Suc 0)) = Some k \<and> received k = [104, 105] \<and> sent_on (fd k) (hist t) = []"
proof -
  obtain srv t k where r: "run_ops (server_exec one_client_os bump (Suc (Suc 0)) server_callback (\<lambda>s. s))
     [Server_listen ''lo'' 8080, Server_poll, Server_sendAndRecv] (TCPServer zeros zeros, sys_start) = Inr (srv, t)"
    "heap srv (Suc (Suc 0)) = Some k" "recv_callback k = Server_callback" "delivered (fd k) (hist t) = [104, 105]"
    using one_client_run [of zeros] by auto
  have env: "env_ok one_client_os bump 1 (Suc (Suc 0)) server_callback (\<lambda>s. s)"
    using one_client_env by (simp add: numeral_2_eq_2)
  show ?thesis
    using server_conversation [OF keeping.reply_callback_axioms env sys_start_inv _ _ r(1,2)] r
    by (simp add: keeps_def)
qed

end
