(* ===== verification/Terminal.thy ===== *)
theory Terminal
  imports Server_Runs
begin

text \<open>
  What the socket library leaves alone. Sockets and server act on the system state by system
  calls and log calls only, so a view of the state that neither changes is the same before and
  after every operation: \<open>state_view\<close> has one lemma per operation, and it is interpreted on the
  text that has been written to \<open>std::cout\<close> and to \<open>std::cerr\<close>.
\<close>

locale state_view =
  fixes view :: "sys \<Rightarrow> 'v"
  assumes view_after [simp]: "view (after os c s) = view s"
    and view_log [simp]: "view (log_call f args s) = view s"
begin

lemma view_ext [simp]: "view (snd (ext os c s)) = view s"
  by (simp add: ext_def)

lemma view_find_iface [simp]: "view (snd (find_iface os iface as s)) = view s"
  by (induction as arbitrary: s) (simp_all add: ext_def Let_def split: option.split)

lemma view_getIfaceIP [simp]: "view (snd (getIfaceIP os iface s)) = view s"
  by (simp add: getIfaceIP_def ext_def Let_def case_prod_beta)

lemma view_options [simp]:
  "view (snd (setNonBlocking os f s)) = view s" "view (snd (setNoDelay os f s)) = view s"
  "view (snd (setSOTimestamp os f s)) = view s"
  by (simp_all add: setNonBlocking_def setNoDelay_def setSOTimestamp_def ext_def Let_def)

lemma view_timestamp [simp]:
  "view (snd (give_up os f s)) = view s" "view (snd (step_timestamp os ts f s)) = view s"
  by (simp_all add: give_up_def step_timestamp_def case_prod_beta)

lemma view_role [simp]: "view (snd (step_role os udp l ts c f s)) = view s"
  by (simp add: step_role_def step_listen_def step_connect_def ext_def Let_def)

lemma view_nodelay [simp]: "view (snd (step_nodelay os udp l ts c f s)) = view s"
  by (simp add: step_nodelay_def case_prod_beta)

lemma view_candidate [simp]: "view (snd (try_candidate os udp b l ts c s)) = view s"
  by (simp add: try_candidate_def ext_def Let_def case_prod_beta)

lemma view_candidates [simp]: "view (snd (try_candidates os udp b l ts cs s)) = view s"
  by (induction cs arbitrary: s) (simp_all add: case_prod_beta)

lemma view_createSocket [simp]: "view (snd (createSocket os ip iface port udp b l ts s)) = view s"
  by (simp add: createSocket_def ext_def Let_def case_prod_beta)

lemma view_destroy [simp]:
  "view (snd (destroy os sock s)) = view s" "view (snd (TCPSocket_dtor os sock s)) = view s"
  by (simp_all add: destroy_def TCPSocket_dtor_def ext_def Let_def case_prod_beta)

lemma view_connect: "connect os ip iface port l sock s = (f, sock', t) \<Longrightarrow> view t = view s"
  by (auto simp: connect_def Let_def case_prod_beta)

lemma view_send_loop: "send_loop os k n sock s = Inr (m, sock', t) \<Longrightarrow> view t = view s"
proof (induction k arbitrary: n s)
  case (Suc k)
  from send_loop_step [OF Suc.prems] Suc.IH show ?case by fastforce
qed simp

lemma view_send_phase: "send_phase os sock s = Inr (sock', t) \<Longrightarrow> view t = view s"
  by (auto simp: send_phase_def obind_Inr_iff dest: view_send_loop)

lemma view_delete_socket: "delete_socket os a srv s = Inr (srv', t) \<Longrightarrow> view t = view s"
  by (auto simp: delete_socket_def Let_def case_prod_beta split: option.splits)

lemma view_delete_all: "delete_all os as srv s = Inr (srv', t) \<Longrightarrow> view t = view s"
  by (induction as arbitrary: srv s) (auto simp: obind_Inr_iff dest: view_delete_socket)

lemma view_server_destroy: "server_destroy os srv s = Inr (srv', t) \<Longrightarrow> view t = view s"
  by (auto simp: server_destroy_def obind_Inr_iff Let_def case_prod_beta dest: view_delete_all)

lemma view_server_dtor: "TCPServer_dtor os srv s = Inr t \<Longrightarrow> view t = view s"
  by (auto simp: TCPServer_dtor_def obind_Inr_iff dest: view_server_destroy)

lemma view_epoll:
  "epollAdd os a srv s = Inr (ok, t) \<Longrightarrow> view t = view s" "epollDel os a srv s = Inr (ok, t) \<Longrightarrow> view t = view s"
  by (auto simp: epollAdd_def epollDel_def obind_Inr_iff ext_def split: if_splits)

lemma view_del: "del os a srv s = Inr (srv', t) \<Longrightarrow> view t = view s"
  by (auto simp: del_def obind_Inr_iff dest!: view_delete_socket view_epoll split: if_splits)

lemma view_del_all: "del_all os as srv s = Inr (srv', t) \<Longrightarrow> view t = view s"
  by (induction as arbitrary: srv s) (auto simp: obind_Inr_iff dest: view_del)

lemma view_listen:
  assumes "listen os iface port srv s = Inr (ok, srv', t)"
  shows "view t = view s"
  using assms
  by (auto simp: listen_def obind_Inr_iff ext_def Let_def dest!: view_server_destroy view_connect view_epoll(1)
      split: prod.splits if_splits)

lemma view_admit: "admit os alloc f srv s = Inr (srv', t) \<Longrightarrow> view t = view s"
  by (auto simp: admit_def obind_Inr_iff Let_def case_prod_beta dest!: view_delete_socket view_epoll(1)
      split: if_splits)

lemma view_accept_loop: "accept_loop os alloc k srv s = Inr (srv', t) \<Longrightarrow> view t = view s"
  by (induction k arbitrary: srv s) (auto simp: obind_Inr_iff ext_def dest!: view_admit split: if_splits)

lemma view_poll: "poll os alloc fuel srv s = Inr (srv', t) \<Longrightarrow> view t = view s"
  by (auto simp: poll_def obind_Inr_iff ext_def Let_def case_prod_beta dest!: view_del_all view_accept_loop
      split: if_splits)

end

text \<open>With callbacks that leave the view alone, input and output do as well.\<close>

locale viewless_callbacks = state_view +
  fixes app :: receiver and fin :: "sys \<Rightarrow> sys"
  assumes view_app: "app sock rx s = Inr (sock', t) \<Longrightarrow> view t = view s"
    and view_fin: "view (fin s) = view s"
begin

lemma view_run: "run_callback app sock rx s = Inr (sock', t) \<Longrightarrow> view t = view s"
  by (auto simp: run_callback_def default_callback_def server_callback_def dest: view_app split: callback.splits)

lemma view_recv_phase: "recv_phase os app sock s = Inr (n, sock', t) \<Longrightarrow> view t = view s"
  by (auto simp: recv_phase_def obind_Inr_iff ext_def Let_def dest!: view_run split: if_splits)

lemma view_sendAndRecv: "sendAndRecv os app sock s = Inr (b, sock', t) \<Longrightarrow> view t = view s"
  by (auto simp: sendAndRecv_def obind_Inr_iff dest!: view_recv_phase view_send_phase split: if_splits)

lemma view_io_socket: "io_socket os app a srv s = Inr (g, srv', t) \<Longrightarrow> view t = view s"
  by (auto simp: io_socket_def obind_Inr_iff Let_def dest!: view_sendAndRecv)

lemma io_view: "io_preserved os app fin (\<lambda>srv s. view s = v)"
  by unfold_locales (auto dest: view_io_socket simp: finished_def view_fin split: callback.split)

lemma view_server_io: "server_sendAndRecv os app fin srv s = Inr (srv', t) \<Longrightarrow> view t = view s"
  using io_preserved.server_io_keeps [OF io_view, of os srv s srv' t "view s"] by simp

end

interpretation out: state_view out_text
  by unfold_locales (simp_all add: after_def log_call_def Let_def)

interpretation errors: state_view err_text
  by unfold_locales (simp_all add: after_def log_call_def Let_def)

end
