(* ===== verification/Socket_Demo.thy ===== *)
theory Socket_Demo
  imports Conversations Terminal
begin

text \<open>
  \<open>src/socket_demo.cpp\<close>: an echo server and three clients in one thread. The callbacks the
  program installs are instances of \<open>receive_callback\<close>, and \<open>demo_main\<close> is \<open>main\<close> with every
  return path and the destructors that run on it (the clients, then the server). What it writes
  to the terminal and to the log is part of the state; the pauses are left out.
  \<open>socket_demo\<close> puts the constructor of \<open>Logger\<close> before it, whose exceptions nobody catches.
\<close>

section \<open>Strings and bytes\<close>

definition to_string :: "byte list \<Rightarrow> string" where
  "to_string bs = map (\<lambda>b. char_of (unat b)) bs"

definition to_bytes :: "string \<Rightarrow> byte list" where
  "to_bytes s = map of_char s"

abbreviation newline :: string where
  "newline \<equiv> [CHR 0x0A]"

section \<open>Callbacks\<close>

definition server_recv_callback :: receiver where
  "server_recv_callback sock rx_time s =
     obind (mem_read 0 (unat (next_rcv_valid_index sock)) (rcv_buffer sock)) (\<lambda>bytes.
       let message = to_string bytes;
           s1 = log_call (''SERVER received socket:% rx:% msg:%'' @ [CHR 0x0A])
                  [A_int (word_of_int (fd sock)), A_long (word_of_int rx_time), A_string message] s;
           sock1 = sock\<lparr>next_rcv_valid_index := 0\<rparr>;
           reply = ''SERVER RECEIVED: '' @ message
       in obind (send (Some (to_bytes reply)) (of_nat (length reply)) sock1) (\<lambda>(ok, sock2).
            Inr (sock2,
                 if \<not> ok
                 then log_call (''SERVER send buffer full socket:%'' @ [CHR 0x0A])
                        [A_int (word_of_int (fd sock2))] s1
                 else s1)))"

definition server_recv_finished_callback :: "sys \<Rightarrow> sys" where
  "server_recv_finished_callback s = log_call (''SERVER receive round complete'' @ [CHR 0x0A]) [] s"

definition client_recv_callback :: receiver where
  "client_recv_callback sock rx_time s =
     obind (mem_read 0 (unat (next_rcv_valid_index sock)) (rcv_buffer sock)) (\<lambda>bytes.
       let message = to_string bytes;
           s1 = print (''Client received: '' @ message @ newline) s
       in Inr (sock\<lparr>next_rcv_valid_index := 0\<rparr>,
               log_call (''CLIENT received socket:% rx:% msg:%'' @ [CHR 0x0A])
                 [A_int (word_of_int (fd sock)), A_long (word_of_int rx_time), A_string message] s1))"

section \<open>main\<close>

definition PORT :: int where "PORT = 12345"
definition CLIENT_COUNT :: nat where "CLIENT_COUNT = 3"

fun poll_times :: "os \<Rightarrow> allocator \<Rightarrow> nat \<Rightarrow> nat \<Rightarrow> server \<Rightarrow> sys \<Rightarrow> (server \<times> sys) outcome" where
  "poll_times os alloc fuel 0 srv s = Inr (srv, s)"
| "poll_times os alloc fuel (Suc attempts) srv s =
     obind (poll os alloc fuel srv s) (\<lambda>(srv1, s1). poll_times os alloc fuel attempts srv1 s1)"

text \<open>The loop that connects the clients; \<open>blocks i\<close> are the two buffers of client \<open>i\<close>. A client
  that cannot connect is destroyed and the loop ends with \<open>False\<close>.\<close>

fun connect_clients :: "os \<Rightarrow> allocator \<Rightarrow> nat \<Rightarrow> (nat \<Rightarrow> byte list \<times> byte list) \<Rightarrow> nat \<Rightarrow> nat \<Rightarrow>
    server \<Rightarrow> tcp_socket list \<Rightarrow> sys \<Rightarrow> (bool \<times> server \<times> tcp_socket list \<times> sys) outcome" where
  "connect_clients os alloc fuel blocks 0 i srv clients s = Inr (True, srv, clients, s)"
| "connect_clients os alloc fuel blocks (Suc n) i srv clients s =
     (let client = (TCPSocket (fst (blocks i)) (snd (blocks i)))\<lparr>recv_callback := App_callback\<rparr>;
          s1 = log_call (''Connecting client:% ip:% iface:% port:%'' @ [CHR 0x0A])
                 [A_unsigned_long (of_nat i), A_string ''127.0.0.1'', A_string ''lo'',
                  A_int (word_of_int PORT)] s;
          (f, client1, s2) = connect os ''127.0.0.1'' ''lo'' PORT False client s1
      in if f < 0
         then Inr (False, srv, clients, snd (TCPSocket_dtor os client1
                (print_error (''Failed to connect client '' @ show_nat i @ newline) s2)))
         else obind (poll_times os alloc fuel 5 srv
                (print (''Connected client '' @ show_nat i @ '' with fd '' @ show_int f @ newline) s2)) (\<lambda>(srv1, s3).
                connect_clients os alloc fuel blocks n (Suc i) srv1 (clients @ [client1]) s3))"

definition client_message :: "nat \<Rightarrow> string" where
  "client_message i = ''CLIENT-['' @ show_nat i @ ''] says hello''"

fun send_messages :: "os \<Rightarrow> nat \<Rightarrow> tcp_socket list \<Rightarrow> sys \<Rightarrow> (bool \<times> tcp_socket list \<times> sys) outcome" where
  "send_messages os i [] s = Inr (True, [], s)"
| "send_messages os i (client # rest) s =
     (let message = client_message i;
          s1 = log_call (''Sending client:% msg:%'' @ [CHR 0x0A])
                 [A_unsigned_long (of_nat i), A_string message]
                 (print (''Sending: '' @ message @ newline) s)
      in obind (send (Some (to_bytes message)) (of_nat (length message)) client) (\<lambda>(ok, client1).
           if \<not> ok
           then Inr (False, client1 # rest,
                  print_error (''Client send buffer is full for client '' @ show_nat i @ newline) s1)
           else obind (sendAndRecv os client_recv_callback client1 s1) (\<lambda>(b, client2, s2).
                obind (send_messages os (Suc i) rest s2) (\<lambda>(ok, rest1, s3).
                  Inr (ok, client2 # rest1, s3)))))"

fun io_clients :: "os \<Rightarrow> tcp_socket list \<Rightarrow> sys \<Rightarrow> (tcp_socket list \<times> sys) outcome" where
  "io_clients os [] s = Inr ([], s)"
| "io_clients os (client # rest) s =
     obind (sendAndRecv os client_recv_callback client s) (\<lambda>(b, client1, s1).
     obind (io_clients os rest s1) (\<lambda>(rest1, s2). Inr (client1 # rest1, s2)))"

fun event_loop :: "os \<Rightarrow> allocator \<Rightarrow> nat \<Rightarrow> nat \<Rightarrow> server \<Rightarrow> tcp_socket list \<Rightarrow> sys \<Rightarrow>
    (server \<times> tcp_socket list \<times> sys) outcome" where
  "event_loop os alloc fuel 0 srv clients s = Inr (srv, clients, s)"
| "event_loop os alloc fuel (Suc iterations) srv clients s =
     obind (poll os alloc fuel srv s) (\<lambda>(srv1, s1).
     obind (server_sendAndRecv os server_recv_callback server_recv_finished_callback srv1 s1) (\<lambda>(srv2, s2).
     obind (io_clients os clients s2) (\<lambda>(clients1, s3).
       event_loop os alloc fuel iterations srv2 clients1 s3)))"

text \<open>Leaving \<open>main\<close>: the locals are destroyed, the vector of clients before the server.\<close>

fun destroy_clients :: "os \<Rightarrow> tcp_socket list \<Rightarrow> sys \<Rightarrow> sys" where
  "destroy_clients os [] s = s"
| "destroy_clients os (client # rest) s = destroy_clients os rest (snd (TCPSocket_dtor os client s))"

definition leave :: "os \<Rightarrow> int \<Rightarrow> server \<Rightarrow> tcp_socket list \<Rightarrow> sys \<Rightarrow> (int \<times> sys) outcome" where
  "leave os code srv clients s =
     obind (TCPServer_dtor os srv (destroy_clients os clients s)) (\<lambda>t. Inr (code, t))"

definition demo_main :: "os \<Rightarrow> allocator \<Rightarrow> nat \<Rightarrow> byte list \<times> byte list \<Rightarrow>
    (nat \<Rightarrow> byte list \<times> byte list) \<Rightarrow> sys \<Rightarrow> (int \<times> sys) outcome" where
  "demo_main os alloc fuel listener_blocks blocks s =
     (let s1 = log_call (''Creating TCPServer on iface:% port:%'' @ [CHR 0x0A])
                 [A_string ''lo'', A_int (word_of_int PORT)]
                 (print (''Starting server on '' @ ''127.0.0.1'' @ '':'' @ show_int PORT @ newline) s);
          srv = (TCPServer (fst listener_blocks) (snd listener_blocks))
                  \<lparr>srv_callback := App_callback, finished_callback := App_callback\<rparr>
      in obind (listen os ''lo'' PORT srv s1) (\<lambda>(ok, srv1, s2).
         if \<not> ok
         then leave os 1 srv1 []
                (print_error (''Failed to start TCP server on '' @ ''lo'' @ '':'' @ show_int PORT @ newline) s2)
         else obind (connect_clients os alloc fuel blocks CLIENT_COUNT 0 srv1 [] s2) (\<lambda>(ok, srv2, clients, s3).
              if \<not> ok then leave os 1 srv2 clients s3
              else obind (send_messages os 0 clients s3) (\<lambda>(ok, clients1, s4).
                   if \<not> ok then leave os 1 srv2 clients1 s4
                   else obind (event_loop os alloc fuel 100 srv2 clients1 s4) (\<lambda>(srv3, clients2, s5).
                        leave os 0 srv3 clients2
                          (print (''Socket demo complete.'' @ newline @
                                  ''Check socket_demo.log for detailed logs.'' @ newline) s5))))))"

text \<open>The whole program. \<open>can_open\<close> and \<open>spawn_ok\<close> say whether the log file can be opened and the
  logger's thread created; an exception of the constructor leaves \<open>main\<close>. What the logger does
  with the calls of \<open>log\<close> that follow is the subject of \<open>socket_demo_log\<close>.\<close>

definition socket_demo :: "bool \<Rightarrow> bool \<Rightarrow> affinity \<Rightarrow> bool \<Rightarrow> os \<Rightarrow> allocator \<Rightarrow> nat \<Rightarrow> byte list \<times> byte list \<Rightarrow>
    (nat \<Rightarrow> byte list \<times> byte list) \<Rightarrow> sys \<Rightarrow> (logger_error + int \<times> sys) outcome" where
  "socket_demo dbg can_open setaffinity spawn_ok os alloc fuel listener_blocks blocks s =
     obind (Logger dbg ''socket_demo.log'' can_open setaffinity spawn_ok ([], None)) (\<lambda>r.
       case r of
         Inl e \<Rightarrow> Inr (Inl e)
       | Inr logger \<Rightarrow> obind (demo_main os alloc fuel listener_blocks blocks s) (\<lambda>(code, t). Inr (Inr (code, t))))"

section \<open>The callbacks meet the contract\<close>

lemma to_bytes_to_string [simp]: "to_bytes (to_string bs) = bs"
proof -
  have "(of_char (char_of (unat b)) :: byte) = b" for b :: byte
  proof -
    have "(of_char (char_of (unat b)) :: nat) = unat b"
      using unsigned_less [where 'a = nat, of b] by (simp add: of_char_mod_256)
    then have "(of_nat (of_char (char_of (unat b)) :: nat) :: byte) = of_nat (unat b)" by (rule arg_cong)
    then show ?thesis unfolding of_nat_of_char by simp
  qed
  then show ?thesis by (simp add: to_bytes_def to_string_def comp_def)
qed

lemma length_to_bytes [simp]: "length (to_bytes s) = length s"
  by (simp add: to_bytes_def)

lemma length_to_string [simp]: "length (to_string bs) = length bs"
  by (simp add: to_string_def)

lemma to_bytes_append [simp]: "to_bytes (s @ t) = to_bytes s @ to_bytes t"
  by (simp add: to_bytes_def)

definition echo_reply :: "byte list \<Rightarrow> byte list" where
  "echo_reply bs = to_bytes ''SERVER RECEIVED: '' @ bs"

lemma send_keeps:
  assumes "send data len sock = Inr (ok, sock')"
  shows "fd sock' = fd sock \<and> recv_callback sock' = recv_callback sock \<and> received sock' = received sock"
  using assms by (auto simp: send_def obind_Inr_iff received_def split: option.splits if_splits)

text \<open>What the server's callback does: the bytes are consumed, and the reply is queued when it fits.\<close>

lemma server_recv_callback_spec:
  assumes wf: "sock_wf sock"
  shows "\<exists>sock' s'. server_recv_callback sock rx s = Inr (sock', s') \<and> sock_wf sock' \<and> received sock' = [] \<and>
    fd sock' = fd sock \<and> hist s' = hist s \<and>
    pending sock' = pending sock @ (if length (pending sock) + length (echo_reply (received sock)) \<le> 65536
                                    then echo_reply (received sock) else [])"
proof -
  define reply where "reply = ''SERVER RECEIVED: '' @ to_string (received sock)"
  let ?sock1 = "sock\<lparr>next_rcv_valid_index := 0\<rparr>"
  note D = sock_wfD [OF wf]
  have wf1: "sock_wf ?sock1" "pending ?sock1 = pending sock" "received ?sock1 = []"
    using wf by (simp_all add: sock_wf_def pending_def received_def)
  have read: "mem_read 0 (unat (next_rcv_valid_index sock)) (rcv_buffer sock) = Inr (received sock)"
    using D by (simp add: mem_read_Inr received_def)
  have len: "length (to_bytes reply) < 18446744073709551616" using D by (simp add: reply_def received_def)
  have echo: "echo_reply (received sock) = to_bytes reply" unfolding echo_reply_def reply_def to_bytes_append to_bytes_to_string ..
  obtain sock' where sock': "send (Some (to_bytes reply)) (of_nat (length reply)) ?sock1 =
       Inr (length (pending sock) + length (to_bytes reply) \<le> 65536, sock')" "sock_wf sock'"
    "pending sock' = pending sock @ (if length (pending sock) + length (to_bytes reply) \<le> 65536 then to_bytes reply else [])"
    using send_list [OF wf1(1) len] unfolding wf1(2) length_to_bytes by blast
  note k = send_keeps [OF sock'(1)]
  show ?thesis
    unfolding server_recv_callback_def read Let_def obind_simps reply_def [symmetric] sock'(1) echo
    using sock'(2,3) k wf1(3) by simp
qed

interpretation echo_cb: receive_callback server_recv_callback
proof (unfold_locales, goal_cases)
  case (1 sock rx s)
  then show ?case using server_recv_callback_spec by blast
next
  case (2 sock rx s sock' s')
  then show ?case using server_recv_callback_spec [of sock rx s] by auto
next
  case (3 sock rx s sock' s')
  then show ?case
    by (auto simp: server_recv_callback_def obind_Inr_iff Let_def dest!: send_keeps)
next
  case (4 sock rx s sock' s' F)
  then show ?case
    by (auto simp: server_recv_callback_def obind_Inr_iff Let_def holes_def
        intro!: log_call_quiet quiet_trans [OF log_call_quiet log_call_quiet])
next
  case (5 sock rx s sock' s')
  then show ?case using server_recv_callback_spec [of sock rx s] by auto
qed

interpretation client_cb: receive_callback client_recv_callback
  by unfold_locales
    (auto simp: client_recv_callback_def obind_Inr_iff mem_read_def sock_wf_def pending_def holes_def Let_def
      intro!: quiet_trans [OF print_quiet(1) log_call_quiet] split: if_splits)

lemma round_complete_ok: "finished_ok server_recv_finished_callback"
  by (auto simp: finished_ok_def server_recv_finished_callback_def holes_def intro!: log_call_quiet)

section \<open>The invariant of main\<close>

text \<open>The server keeps its invariant, with the descriptors of the clients set aside.\<close>

definition clients_wf :: "int set \<Rightarrow> tcp_socket list \<Rightarrow> bool" where
  "clients_wf B clients \<longleftrightarrow> list_all sock_wf clients \<and> distinct (map fd clients) \<and>
     fd ` set clients \<inter> B = {} \<and> (\<forall>k \<in> set clients. 0 \<le> fd k)"

definition demo_inv :: "int set \<Rightarrow> server \<Rightarrow> tcp_socket list \<Rightarrow> sys \<Rightarrow> bool" where
  "demo_inv B srv clients s \<longleftrightarrow> clients_wf B clients \<and> server_inv (B \<union> fd ` set clients) srv s"

lemma server_inv_quiet: "server_inv B srv s \<Longrightarrow> (\<And>F. quiet F s t) \<Longrightarrow> server_inv B srv t"
  using core_quiet by (auto simp: server_inv_def)

lemma server_inv_log:
  "server_inv B srv s \<Longrightarrow> length args = holes fmt \<Longrightarrow> server_inv B srv (log_call fmt args s)"
  by (erule server_inv_quiet) (rule log_call_quiet)

lemma server_inv_print:
  "server_inv B srv s \<Longrightarrow> server_inv B srv (print x s)" "server_inv B srv s \<Longrightarrow> server_inv B srv (print_error x s)"
  by (erule server_inv_quiet, rule print_quiet)+

lemma demo_inv_print:
  "demo_inv B srv clients s \<Longrightarrow> demo_inv B srv clients (print x s)"
  "demo_inv B srv clients s \<Longrightarrow> demo_inv B srv clients (print_error x s)"
  by (simp_all add: demo_inv_def server_inv_print)

lemma demo_env: "os_ok os \<Longrightarrow> alloc_ok alloc \<Longrightarrow> clients_bounded os n \<Longrightarrow> n < fuel \<Longrightarrow>
  env_ok os alloc n fuel server_recv_callback server_recv_finished_callback"
  by (simp add: env_ok_def echo_cb.receive_callback_axioms round_complete_ok)

lemma poll_times_inv:
  assumes env: "env_ok os alloc n fuel app fin" and "server_inv B srv s"
  shows "\<exists>srv' t. poll_times os alloc fuel k srv s = Inr (srv', t) \<and> server_inv B srv' t"
  using assms(2)
proof (induction k arbitrary: srv s)
  case (Suc k)
  obtain srv1 s1 where p: "poll os alloc fuel srv s = Inr (srv1, s1)" "server_inv B srv1 s1"
    using server_exec_keeps [OF env Suc.prems, of Server_poll] by auto
  from Suc.IH [OF p(2)] p(1) show ?case by simp
qed simp

text \<open>A new client beside the server.\<close>

lemma connect_beside_server:
  assumes os: "os_ok os" and inv: "server_inv B srv s" and k: "sock_wf k" "owned_fd k = {}"
    and c: "connect os ip iface port l k s = (f, k', t)"
  shows "sock_wf k' \<and> fd k' = f \<and>
    (f < 0 \<and> server_inv B srv t \<or> 0 \<le> f \<and> f \<notin> B \<union> server_fds srv \<and> server_inv (insert f B) srv t)"
proof -
  have core: "core_inv B srv s" and lists: "lists_inv srv" using inv by (simp_all add: server_inv_def)
  note D = core_invD [OF core]
  have own: "owned_fd k \<subseteq> B \<union> server_fds srv" using k(2) by simp
  note C = connect_spec [OF os k(1) D(1) own c, unfolded k(2)]
  then consider "f = - 1" "sys_inv (B \<union> server_fds srv) t"
    | "0 \<le> f" "f \<notin> B \<union> server_fds srv" "sys_inv (insert f (B \<union> server_fds srv)) t" by auto
  then show ?thesis
  proof cases
    case 1
    then have "core_inv B srv t" using core_fds_change [OF core] C D(2) by blast
    with 1 C lists show ?thesis by (simp add: server_inv_def)
  next
    case 2
    then have "core_inv (insert f B) srv t" using core_fds_change [OF core, of "insert f B" t] C D(2) by auto
    with 2 C lists show ?thesis by (simp add: server_inv_def)
  qed
qed

lemma dtor_closed: "owned_fd k = {} \<Longrightarrow> snd (TCPSocket_dtor os k s) = s"
  by (auto simp: TCPSocket_dtor_def destroy_def owned_fd_def split: if_splits)

lemma connect_clients_inv:
  assumes env: "env_ok os alloc n fuel app fin"
    and blocks: "\<And>j. length (fst (blocks j)) = 65536 \<and> length (snd (blocks j)) = 65536"
    and "demo_inv B srv clients s"
  shows "\<exists>ok srv' clients' t. connect_clients os alloc fuel blocks k i srv clients s = Inr (ok, srv', clients', t) \<and>
    demo_inv B srv' clients' t \<and> length clients' \<le> length clients + k"
  using assms(3)
proof (induction k arbitrary: i srv clients s)
  case (Suc k)
  define client where "client = (TCPSocket (fst (blocks i)) (snd (blocks i)))\<lparr>recv_callback := App_callback\<rparr>"
  define s1 where "s1 = log_call (''Connecting client:% ip:% iface:% port:%'' @ [CHR 0x0A])
     [A_unsigned_long (of_nat i), A_string ''127.0.0.1'', A_string ''lo'', A_int (word_of_int PORT)] s"
  obtain f client1 s2 where c: "connect os ''127.0.0.1'' ''lo'' PORT False client s1 = (f, client1, s2)"
    by (metis surj_pair)
  have inv: "server_inv (B \<union> fd ` set clients) srv s1" and wf: "clients_wf B clients"
    using Suc.prems server_inv_log [of _ srv s] by (auto simp: demo_inv_def s1_def holes_def)
  have new: "sock_wf client" "owned_fd client = {}"
    using blocks [of i] by (simp_all add: client_def TCPSocket_def sock_wf_def owned_fd_def)
  have "os_ok os" using env by (simp add: env_ok_def)
  note C = connect_beside_server [OF this inv new c]
  show ?case
  proof (cases "f < 0")
    case True
    then have "owned_fd client1 = {}" "server_inv (B \<union> fd ` set clients) srv s2"
      using C by (auto simp: owned_fd_def)
    with True c wf show ?thesis
      unfolding connect_clients.simps client_def [symmetric] s1_def [symmetric]
      by (auto simp: dtor_closed demo_inv_def server_inv_print)
  next
    case False
    then have f: "f \<notin> B" "f \<notin> fd ` set clients" "server_inv (insert f (B \<union> fd ` set clients)) srv s2"
        "sock_wf client1" "fd client1 = f" using C by auto
    obtain srv1 s3 where p: "poll_times os alloc fuel 5 srv
          (print (''Connected client '' @ show_nat i @ '' with fd '' @ show_int f @ newline) s2) = Inr (srv1, s3)"
        "server_inv (insert f (B \<union> fd ` set clients)) srv1 s3"
      using poll_times_inv [OF env server_inv_print(1) [OF f(3)]] by blast
    have "demo_inv B srv1 (clients @ [client1]) s3"
      using wf f False p(2) by (auto simp: demo_inv_def clients_wf_def)
    from Suc.IH [OF this, of "Suc i"] False c p(1) show ?thesis
      unfolding connect_clients.simps client_def [symmetric] s1_def [symmetric] by auto
  qed
qed auto

text \<open>Input and output of the clients: their descriptors and the server are not touched.\<close>

definition same_fds :: "tcp_socket list \<Rightarrow> tcp_socket list \<Rightarrow> bool" where
  "same_fds clients clients' \<longleftrightarrow> list_all sock_wf clients' \<and> map fd clients' = map fd clients"

lemma demo_inv_same_fds:
  assumes "demo_inv B srv clients s" "same_fds clients clients'" "\<And>F. quiet F s t"
  shows "demo_inv B srv clients' t"
proof -
  have fds: "fd ` set clients' = fd ` set clients" "distinct (map fd clients') = distinct (map fd clients)"
    using assms(2) unfolding same_fds_def by (metis list.set_map, simp)
  moreover have "(\<forall>k \<in> set clients'. 0 \<le> fd k) \<longleftrightarrow> (\<forall>k \<in> set clients. 0 \<le> fd k)"
    using fds(1) by (metis (mono_tags, lifting) imageE imageI)
  ultimately show ?thesis
    using assms server_inv_quiet [of "B \<union> fd ` set clients" srv s t]
    by (simp add: demo_inv_def clients_wf_def same_fds_def)
qed

lemma client_io_ok:
  assumes "os_ok os" "sock_wf k"
  shows "\<exists>b k' t. sendAndRecv os client_recv_callback k s = Inr (b, k', t) \<and> sock_wf k' \<and> fd k' = fd k \<and>
    (\<forall>F. quiet F s t)"
  using client_cb.sendAndRecv_ok [OF assms(2,1), of s] by blast

lemma io_clients_ok:
  assumes os: "os_ok os" and "list_all sock_wf clients"
  shows "\<exists>clients' t. io_clients os clients s = Inr (clients', t) \<and> same_fds clients clients' \<and> (\<forall>F. quiet F s t)"
  using assms(2)
proof (induction clients arbitrary: s)
  case (Cons k ks)
  obtain b k' s1 where k: "sendAndRecv os client_recv_callback k s = Inr (b, k', s1)" "sock_wf k'" "fd k' = fd k"
      "\<forall>F. quiet F s s1"
    using client_io_ok [OF os, of k s] Cons.prems by auto
  obtain ks' t where r: "io_clients os ks s1 = Inr (ks', t)" "same_fds ks ks'" "\<forall>F. quiet F s1 t"
    using Cons.IH [of s1] Cons.prems by auto
  have "\<forall>F. quiet F s t" using k(4) r(3) quiet_trans by blast
  with k r show ?case by (simp add: same_fds_def)
qed (simp add: same_fds_def)

lemma length_show_nat_le: "length (show_nat n) \<le> Suc n"
proof (induction n rule: show_nat.induct)
  case (1 n)
  show ?case
  proof (cases "n < 10")
    case False
    with 1 have "length (show_nat n) \<le> Suc (Suc (n div 10))" by (simp add: length_show_nat)
    also have "Suc (n div 10) \<le> n" using False by linarith
    finally show ?thesis by simp
  qed (simp add: length_show_nat)
qed

lemma send_messages_ok:
  assumes os: "os_ok os" and "list_all sock_wf clients" "i + length clients < 65000"
  shows "\<exists>ok clients' t. send_messages os i clients s = Inr (ok, clients', t) \<and> same_fds clients clients' \<and>
    (\<forall>F. quiet F s t) \<and> (list_all (\<lambda>k. pending k = []) clients \<longrightarrow> ok)"
  using assms(2,3)
proof (induction clients arbitrary: i s)
  case (Cons k ks)
  define s1 where "s1 = log_call (''Sending client:% msg:%'' @ [CHR 0x0A])
      [A_unsigned_long (of_nat i), A_string (client_message i)]
      (print (''Sending: '' @ client_message i @ newline) s)"
  have q: "quiet F s s1" for F
    unfolding s1_def by (rule quiet_trans [OF print_quiet(1) log_call_quiet]) (simp add: holes_def)
  have short: "length (to_bytes (client_message i)) \<le> 65536"
    using length_show_nat_le [of i] Cons.prems(2) by (simp add: client_message_def)
  then have "length (to_bytes (client_message i)) < 18446744073709551616" by linarith
  from send_list [OF _ this, of k] Cons.prems(1) short obtain ok k1 where
    k1: "send (Some (to_bytes (client_message i))) (of_nat (length (client_message i))) k = Inr (ok, k1)"
      "sock_wf k1" "fd k1 = fd k" "pending k = [] \<Longrightarrow> ok" by auto
  show ?case
  proof (cases ok)
    case False
    have "quiet F s (print_error x s1)" for F x by (rule quiet_trans [OF q print_quiet(2)])
    with False k1 Cons.prems(1) show ?thesis
      unfolding send_messages.simps Let_def s1_def [symmetric] by (auto simp: same_fds_def)
  next
    case True
    obtain b k2 s2 where k2: "sendAndRecv os client_recv_callback k1 s1 = Inr (b, k2, s2)" "sock_wf k2"
        "fd k2 = fd k" "\<forall>F. quiet F s1 s2"
      using client_io_ok [OF os k1(2), of s1] k1(3) by auto
    obtain ok' ks' t where "send_messages os (Suc i) ks s2 = Inr (ok', ks', t)" "same_fds ks ks'" "\<forall>F. quiet F s2 t"
        "list_all (\<lambda>k. pending k = []) ks \<longrightarrow> ok'"
      using Cons.IH [of "Suc i" s2] Cons.prems by auto
    moreover from this(3) have "\<forall>F. quiet F s t" using q k2(4) quiet_trans by blast
    ultimately show ?thesis using True k1(1) k2(1-3)
      unfolding send_messages.simps Let_def s1_def [symmetric] by (simp add: same_fds_def)
  qed
qed (auto simp: same_fds_def)

lemma event_loop_inv:
  assumes env: "env_ok os alloc n fuel server_recv_callback server_recv_finished_callback"
    and "demo_inv B srv clients s"
  shows "\<exists>srv' clients' t. event_loop os alloc fuel k srv clients s = Inr (srv', clients', t) \<and>
    demo_inv B srv' clients' t"
  using assms(2)
proof (induction k arbitrary: srv clients s)
  case (Suc k)
  have os: "os_ok os" using env by (simp add: env_ok_def)
  obtain srv1 s1 where p: "poll os alloc fuel srv s = Inr (srv1, s1)" "server_inv (B \<union> fd ` set clients) srv1 s1"
    using server_exec_keeps [OF env, of "B \<union> fd ` set clients" srv s Server_poll] Suc.prems
    by (auto simp: demo_inv_def)
  obtain srv2 s2 where r: "server_sendAndRecv os server_recv_callback server_recv_finished_callback srv1 s1 = Inr (srv2, s2)"
      "server_inv (B \<union> fd ` set clients) srv2 s2"
    using server_exec_keeps [OF env p(2), of Server_sendAndRecv] by auto
  have inv: "demo_inv B srv2 clients s2" using Suc.prems r(2) by (simp add: demo_inv_def)
  obtain clients1 s3 where c: "io_clients os clients s2 = Inr (clients1, s3)" "same_fds clients clients1"
      "\<forall>F. quiet F s2 s3"
    using io_clients_ok [OF os, of clients s2] inv by (auto simp: demo_inv_def clients_wf_def)
  have "demo_inv B srv2 clients1 s3" using demo_inv_same_fds [OF inv c(2)] c(3) by blast
  from Suc.IH [OF this] p(1) r(1) c(1) show ?case by simp
qed simp

lemma destroy_clients_inv:
  assumes "demo_inv B srv clients s"
  shows "server_inv B srv (destroy_clients os clients s)"
  using assms
proof (induction clients arbitrary: s)
  case (Cons k ks)
  have k: "0 \<le> fd k" "fd k \<notin> B \<union> fd ` set ks" "clients_wf B ks"
    using Cons.prems by (auto simp: demo_inv_def clients_wf_def)
  have core: "core_inv (insert (fd k) (B \<union> fd ` set ks)) srv s" and lists: "lists_inv srv"
    using Cons.prems by (simp_all add: demo_inv_def server_inv_def)
  have "snd (TCPSocket_dtor os k s) = after os (Close (fd k)) s"
    using k(1) by (simp add: TCPSocket_dtor_def destroy_def ext_def)
  with core_close_extra [OF core k(2), of os] lists k(3)
  have "demo_inv B srv ks (snd (TCPSocket_dtor os k s))" by (simp add: demo_inv_def server_inv_def)
  from Cons.IH [OF this] show ?case by simp
qed (simp add: demo_inv_def)

lemma leave_releases:
  assumes "demo_inv B srv clients s"
  shows "\<exists>t. leave os code srv clients s = Inr (code, t) \<and> sys_inv B t"
  using TCPServer_dtor_inv [OF destroy_clients_inv [OF assms, of os], of os] by (auto simp: leave_def)

section \<open>Diagnostics\<close>

interpretation client_errors: viewless_callbacks err_text client_recv_callback "\<lambda>s. s"
  by unfold_locales (auto simp: client_recv_callback_def obind_Inr_iff Let_def print_def log_call_def)

interpretation echo_errors: viewless_callbacks err_text server_recv_callback server_recv_finished_callback
  by unfold_locales
    (auto simp: server_recv_callback_def server_recv_finished_callback_def obind_Inr_iff Let_def)

lemma err_text_print [simp]: "err_text (print x s) = err_text s" "err_text (print_error x s) = err_text s @ x"
  by (simp_all add: print_def print_error_def)

lemma poll_times_errors: "poll_times os alloc fuel k srv s = Inr (srv', t) \<Longrightarrow> err_text t = err_text s"
  by (induction k arbitrary: srv s) (auto simp: obind_Inr_iff dest!: errors.view_poll)

lemma connect_idle: "connect os ip iface port l k s = (f, k', t) \<Longrightarrow> next_send_valid_index k' = 0"
  by (auto simp: connect_def destroy_def Let_def split: prod.splits)

definition connect_failed :: "nat \<Rightarrow> string" where
  "connect_failed i = ''Failed to connect client '' @ show_nat i @ newline"

text \<open>The attempt to connect client \<open>i\<close>: the socket it starts from, and the message before it.\<close>

definition demo_client :: "(nat \<Rightarrow> byte list \<times> byte list) \<Rightarrow> nat \<Rightarrow> tcp_socket" where
  "demo_client blocks i = (TCPSocket (fst (blocks i)) (snd (blocks i)))\<lparr>recv_callback := App_callback\<rparr>"

definition connect_log :: "nat \<Rightarrow> sys \<Rightarrow> sys" where
  "connect_log i s = log_call (''Connecting client:% ip:% iface:% port:%'' @ [CHR 0x0A])
     [A_unsigned_long (of_nat i), A_string ''127.0.0.1'', A_string ''lo'', A_int (word_of_int PORT)] s"

definition connects :: "os \<Rightarrow> (nat \<Rightarrow> byte list \<times> byte list) \<Rightarrow> nat \<Rightarrow> sys \<Rightarrow> bool" where
  "connects os blocks i s \<longleftrightarrow>
     0 \<le> fst (connect os ''127.0.0.1'' ''lo'' PORT False (demo_client blocks i) (connect_log i s))"

lemma connect_clients_Suc:
  assumes "connect os ''127.0.0.1'' ''lo'' PORT False (demo_client blocks i) (connect_log i s) = (f, k, s2)"
  shows "connect_clients os alloc fuel blocks (Suc n) i srv clients s =
     (if f < 0
      then Inr (False, srv, clients, snd (TCPSocket_dtor os k (print_error (connect_failed i) s2)))
      else obind (poll_times os alloc fuel 5 srv
             (print (''Connected client '' @ show_nat i @ '' with fd '' @ show_int f @ newline) s2)) (\<lambda>(srv1, s3).
             connect_clients os alloc fuel blocks n (Suc i) srv1 (clients @ [k]) s3))"
  using assms by (simp add: demo_client_def connect_log_def connect_failed_def)

text \<open>How the loop ends: every client is connected, or the ones before the first that cannot be.\<close>

lemma connect_clients_trace:
  assumes "connect_clients os alloc fuel blocks k i srv clients s = Inr (ok, srv', clients', t)"
    and "list_all (\<lambda>c. pending c = []) clients" "list_all (\<lambda>c. 0 \<le> fd c) clients"
  shows "if ok
         then err_text t = err_text s \<and> list_all (\<lambda>c. pending c = []) clients' \<and>
           list_all (\<lambda>c. 0 \<le> fd c) clients' \<and> length clients' = length clients + k
         else \<exists>j < k. \<exists>srv2 ks s3. connect_clients os alloc fuel blocks j i srv clients s = Inr (True, srv2, ks, s3) \<and>
           \<not> connects os blocks (i + j) s3 \<and> err_text t = err_text s @ connect_failed (i + j)"
  using assms
proof (induction k arbitrary: i srv clients s)
  case (Suc k)
  obtain f client1 s2 where c:
    "connect os ''127.0.0.1'' ''lo'' PORT False (demo_client blocks i) (connect_log i s) = (f, client1, s2)"
    by (metis surj_pair)
  have e: "err_text s2 = err_text s" using errors.view_connect [OF c] by (simp add: connect_log_def)
  note step = connect_clients_Suc [OF c]
  note run = Suc.prems(1) [unfolded step]
  show ?case
  proof (cases "f < 0")
    case True
    then have "\<not> ok" "err_text t = err_text s @ connect_failed i" using run e by auto
    moreover have "\<not> connects os blocks i s" using True c by (simp add: connects_def)
    moreover have "connect_clients os alloc fuel blocks 0 i srv clients s = Inr (True, srv, clients, s)" by simp
    ultimately show ?thesis by (metis add_0_right zero_less_Suc)
  next
    case False
    then obtain srv1 s3 where p: "poll_times os alloc fuel 5 srv
          (print (''Connected client '' @ show_nat i @ '' with fd '' @ show_int f @ newline) s2) = Inr (srv1, s3)"
        "connect_clients os alloc fuel blocks k (Suc i) srv1 (clients @ [client1]) s3 = Inr (ok, srv', clients', t)"
      using run by (auto simp: obind_Inr_iff)
    have e3: "err_text s3 = err_text s" using poll_times_errors [OF p(1)] e by simp
    have "pending client1 = []" using connect_idle [OF c] by (simp add: pending_def)
    moreover have "0 \<le> fd client1" using False c by (auto simp: connect_def Let_def split: prod.splits)
    ultimately have IH: "if ok
        then err_text t = err_text s3 \<and> list_all (\<lambda>c. pending c = []) clients' \<and>
           list_all (\<lambda>c. 0 \<le> fd c) clients' \<and> length clients' = length (clients @ [client1]) + k
        else \<exists>j < k. \<exists>srv2 ks s4. connect_clients os alloc fuel blocks j (Suc i) srv1 (clients @ [client1]) s3 =
             Inr (True, srv2, ks, s4) \<and> \<not> connects os blocks (Suc i + j) s4 \<and>
           err_text t = err_text s3 @ connect_failed (Suc i + j)"
      using Suc.IH [OF p(2)] Suc.prems(2,3) by simp
    show ?thesis
    proof (cases ok)
      case True
      with IH e3 show ?thesis by simp
    next
      case no: False
      then obtain j srv2 ks s4 where j: "j < k"
          "connect_clients os alloc fuel blocks j (Suc i) srv1 (clients @ [client1]) s3 = Inr (True, srv2, ks, s4)"
          "\<not> connects os blocks (Suc i + j) s4" "err_text t = err_text s @ connect_failed (Suc i + j)"
        using IH e3 by auto
      have "connect_clients os alloc fuel blocks (Suc j) i srv clients s = Inr (True, srv2, ks, s4)"
        unfolding step using j(2) p(1) False by simp
      moreover have "Suc j < Suc k" "i + Suc j = Suc i + j" using j(1) by simp_all
      ultimately show ?thesis using no j(3,4) by metis
    qed
  qed
qed simp

lemma send_messages_errors:
  assumes "send_messages os i clients s = Inr (True, clients', t)"
  shows "err_text t = err_text s"
  using assms
proof (induction clients arbitrary: i s clients')
  case (Cons k ks)
  then obtain ok k1 b k2 s2 ks' where
    "sendAndRecv os client_recv_callback k1 (log_call (''Sending client:% msg:%'' @ [CHR 0x0A])
       [A_unsigned_long (of_nat i), A_string (client_message i)]
       (print (''Sending: '' @ client_message i @ newline) s)) = Inr (b, k2, s2)"
    "send_messages os (Suc i) ks s2 = Inr (True, ks', t)"
    by (auto simp: obind_Inr_iff Let_def split: if_splits)
  with Cons.IH client_errors.view_sendAndRecv show ?case by fastforce
qed simp

lemma io_clients_errors: "io_clients os clients s = Inr (clients', t) \<Longrightarrow> err_text t = err_text s"
  by (induction clients arbitrary: s clients') (auto simp: obind_Inr_iff dest!: client_errors.view_sendAndRecv)

lemma event_loop_errors:
  "event_loop os alloc fuel k srv clients s = Inr (srv', clients', t) \<Longrightarrow> err_text t = err_text s"
  by (induction k arbitrary: srv clients s)
    (auto simp: obind_Inr_iff dest!: errors.view_poll echo_errors.view_server_io io_clients_errors)

lemma leave_errors: "leave os code srv clients s = Inr (c, t) \<Longrightarrow> err_text t = err_text s"
proof -
  have "err_text (destroy_clients os clients s) = err_text s" by (induction clients arbitrary: s) simp_all
  then show "leave os code srv clients s = Inr (c, t) \<Longrightarrow> err_text t = err_text s"
    by (auto simp: leave_def obind_Inr_iff dest!: errors.view_server_dtor)
qed

text \<open>The ways \<open>main\<close> can end: the exit status and what has been written to \<open>std::cerr\<close>, and
  what they depend on: the result of \<open>listen\<close>, and how many of the three clients could be
  connected before the first that could not.\<close>

definition demo_server :: "byte list \<times> byte list \<Rightarrow> server" where
  "demo_server lb = (TCPServer (fst lb) (snd lb))\<lparr>srv_callback := App_callback, finished_callback := App_callback\<rparr>"

definition start_log :: "sys \<Rightarrow> sys" where
  "start_log s = log_call (''Creating TCPServer on iface:% port:%'' @ [CHR 0x0A])
      [A_string ''lo'', A_int (word_of_int PORT)]
      (print (''Starting server on '' @ ''127.0.0.1'' @ '':'' @ show_int PORT @ newline) s)"

definition exit_reason :: "os \<Rightarrow> allocator \<Rightarrow> nat \<Rightarrow> byte list \<times> byte list \<Rightarrow> (nat \<Rightarrow> byte list \<times> byte list) \<Rightarrow> sys \<Rightarrow>
    int \<Rightarrow> string \<Rightarrow> bool" where
  "exit_reason os alloc fuel lb blocks s code diagnostic \<longleftrightarrow>
     (\<exists>listening srv1 s2. listen os ''lo'' PORT (demo_server lb) (start_log s) = Inr (listening, srv1, s2) \<and>
        (if \<not> listening
         then code = 1 \<and> diagnostic = ''Failed to start TCP server on lo:12345'' @ newline
         else (\<exists>i < 3. \<exists>srv2 ks s3. connect_clients os alloc fuel blocks i 0 srv1 [] s2 = Inr (True, srv2, ks, s3) \<and>
                 length ks = i \<and> (\<forall>k \<in> set ks. 0 \<le> fd k) \<and> \<not> connects os blocks i s3 \<and>
                 code = 1 \<and> diagnostic = connect_failed i) \<or>
              (\<exists>srv2 ks s3. connect_clients os alloc fuel blocks 3 0 srv1 [] s2 = Inr (True, srv2, ks, s3) \<and>
                 length ks = 3 \<and> (\<forall>k \<in> set ks. 0 \<le> fd k) \<and> code = 0 \<and> diagnostic = [])))"

lemma leave_exit:
  assumes "demo_inv B srv clients s" "err_text s = e @ d"
  shows "\<exists>t. leave os code srv clients s = Inr (code, t) \<and> sys_inv B t \<and> err_text t = e @ d"
  using leave_releases [OF assms(1), of os code] leave_errors [of os code srv clients s] assms(2) by fastforce

lemma show_PORT: "show_int PORT = ''12345''"
  by (simp add: PORT_def show_int_def show_nat.simps digit_def char_of_def bit_0)

lemma demo_main_result:
  assumes "os_ok os" "alloc_ok alloc" "clients_bounded os n" "n < fuel" "sys_inv B s"
    and "length (fst lb) = 65536" "length (snd lb) = 65536"
    and blocks: "\<And>j. length (fst (blocks j)) = 65536 \<and> length (snd (blocks j)) = 65536"
  shows "\<exists>code t d. demo_main os alloc fuel lb blocks s = Inr (code, t) \<and> sys_inv B t \<and>
    err_text t = err_text s @ d \<and> exit_reason os alloc fuel lb blocks s code d"
proof -
  note env = demo_env [OF assms(1-4)]
  have "server_inv B (demo_server lb) (start_log s)" unfolding start_log_def demo_server_def
    by (intro server_inv_log server_inv_print) (simp_all add: TCPServer_inv [OF assms(5-7)] holes_def)
  from listen_inv [OF assms(1) this, of "''lo''" PORT] obtain ok1 srv1 s2 where
    l: "listen os ''lo'' PORT (demo_server lb) (start_log s) = Inr (ok1, srv1, s2)" "server_inv B srv1 s2" by blast
  then have inv1: "demo_inv B srv1 [] s2" by (simp add: demo_inv_def clients_wf_def)
  have e1: "err_text s2 = err_text s" using errors.view_listen [OF l(1)] by (simp add: start_log_def)
  obtain ok2 srv2 ks s3 where c: "connect_clients os alloc fuel blocks CLIENT_COUNT 0 srv1 [] s2 = Inr (ok2, srv2, ks, s3)"
      "demo_inv B srv2 ks s3" "length ks \<le> 3"
    using connect_clients_inv [where blocks = blocks and k = CLIENT_COUNT and i = 0, OF env blocks inv1] by (auto simp: CLIENT_COUNT_def)
  note trace = connect_clients_trace [OF c(1), unfolded e1 CLIENT_COUNT_def, simplified]
  have wf: "list_all sock_wf ks" using c(2) by (simp add: demo_inv_def clients_wf_def)
  obtain ok3 ks1 s4 where m: "send_messages os 0 ks s3 = Inr (ok3, ks1, s4)" "same_fds ks ks1" "\<forall>F. quiet F s3 s4"
      "list_all (\<lambda>k. pending k = []) ks \<longrightarrow> ok3"
    using send_messages_ok [OF assms(1) wf, of 0 s3] c(3) by auto
  have inv2: "demo_inv B srv2 ks1 s4" using demo_inv_same_fds [OF c(2) m(2)] m(3) by blast
  obtain srv3 ks2 s5 where e: "event_loop os alloc fuel 100 srv2 ks1 s4 = Inr (srv3, ks2, s5)" "demo_inv B srv3 ks2 s5"
    using event_loop_inv [OF env inv2] by blast
  note main = demo_main_def [of os alloc fuel lb blocks s, unfolded Let_def, folded start_log_def demo_server_def,
    unfolded l(1) obind_simps prod.case c(1) m(1) e(1)]
  consider "\<not> ok1" | "ok1" "\<not> ok2" | "ok1" "ok2" by blast
  then show ?thesis
  proof cases
    case 1
    define d where "d = ''Failed to start TCP server on '' @ ''lo'' @ '':'' @ show_int PORT @ newline"
    have "exit_reason os alloc fuel lb blocks s 1 d" using 1 l(1) by (auto simp: exit_reason_def show_PORT d_def)
    moreover have "demo_main os alloc fuel lb blocks s = leave os 1 srv1 [] (print_error d s2)"
      using main 1 by (simp add: d_def)
    moreover have "err_text (print_error d s2) = err_text s @ d" using e1 by simp
    ultimately show ?thesis
      using leave_exit [OF demo_inv_print(2) [OF inv1], where os = os and e = "err_text s" and d = d] by metis
  next
    case 2
    then obtain j srvj kj sj where j: "j < 3" "connect_clients os alloc fuel blocks j 0 srv1 [] s2 = Inr (True, srvj, kj, sj)"
        "\<not> connects os blocks j sj" "err_text s3 = err_text s @ connect_failed j"
      using trace by auto
    have "length kj = j" "\<forall>k \<in> set kj. 0 \<le> fd k"
      using connect_clients_trace [OF j(2)] by (simp_all add: list_all_iff)
    then have "\<exists>i < 3. \<exists>srv2 ks s3. connect_clients os alloc fuel blocks i 0 srv1 [] s2 = Inr (True, srv2, ks, s3) \<and>
        length ks = i \<and> (\<forall>k \<in> set ks. 0 \<le> fd k) \<and> \<not> connects os blocks i s3 \<and>
        (1 :: int) = 1 \<and> connect_failed j = connect_failed i"
      using j(1-3) by blast
    then have "exit_reason os alloc fuel lb blocks s 1 (connect_failed j)"
      unfolding exit_reason_def
      by (intro exI [of _ ok1] exI [of _ srv1] exI [of _ s2] conjI l(1)) (simp only: if_False 2 not_True_eq_False simp_thms)
    moreover have "demo_main os alloc fuel lb blocks s = leave os 1 srv2 ks s3" using main 2 by simp
    ultimately show ?thesis using leave_exit [OF c(2) j(4), of os 1] by metis
  next
    case 3
    then have ok: "ok3" "err_text s3 = err_text s" "length ks = 3" "\<forall>k \<in> set ks. 0 \<le> fd k"
      using trace m(4) by (simp_all add: list_all_iff)
    then have "err_text (print x s5) = err_text s @ []" for x
      using send_messages_errors m(1) event_loop_errors [OF e(1)] by simp
    then have "\<exists>t. leave os 0 srv3 ks2 (print x s5) = Inr (0, t) \<and> sys_inv B t \<and> err_text t = err_text s @ []" for x
      using leave_exit [OF demo_inv_print(1) [OF e(2)]] by blast
    moreover have "connect_clients os alloc fuel blocks 3 0 srv1 [] s2 = Inr (True, srv2, ks, s3)"
      using c(1) 3(2) by (simp only: CLIENT_COUNT_def)
    with ok(3,4) have "\<exists>srv2 ks s3. connect_clients os alloc fuel blocks 3 0 srv1 [] s2 = Inr (True, srv2, ks, s3) \<and>
        length ks = 3 \<and> (\<forall>k \<in> set ks. 0 \<le> fd k) \<and> (0 :: int) = 0 \<and> ([] :: string) = []"
      by blast
    then have "exit_reason os alloc fuel lb blocks s 0 []"
      unfolding exit_reason_def
      by (intro exI [of _ ok1] exI [of _ srv1] exI [of _ s2] conjI l(1)) (simp only: if_False 3 not_True_eq_False simp_thms)
    ultimately show ?thesis using main 3 ok(1) by metis
  qed
qed

section \<open>Properties\<close>

text \<open>
  Property C34. The socket demo is safe and cleans up: whatever the network answers, \<open>main\<close>
  returns 0 or 1 without fault, every log call matches its format, and on every return path,
  the early ones included, all descriptors it opened are closed again, each exactly once.
\<close>

theorem socket_demo_safe:
  assumes "os_ok os" "alloc_ok alloc" "clients_bounded os n" "n < fuel" "sys_inv B s"
    and "length (fst lb) = 65536" "length (snd lb) = 65536"
    and "\<And>j. length (fst (blocks j)) = 65536 \<and> length (snd (blocks j)) = 65536"
  shows "\<exists>code t. demo_main os alloc fuel lb blocks s = Inr (code, t) \<and> (code = 0 \<or> code = 1) \<and>
           set (open_fds (hist t)) = B \<and> closes_ok (hist t) \<and> (\<forall>(f, args) \<in> set (logs t). length args = holes f)"
proof -
  obtain code t d where m: "demo_main os alloc fuel lb blocks s = Inr (code, t)" "sys_inv B t"
      "exit_reason os alloc fuel lb blocks s code d"
    using demo_main_result [where blocks = blocks, OF assms] by blast
  from m(3) have "code = 0 \<or> code = 1" unfolding exit_reason_def by (auto split: if_splits)
  with m show ?thesis by (auto simp: sys_inv_def)
qed

theorem socket_demo_safe_witness:
  "\<exists>code t. demo_main hangup_os bump 2 (zeros, zeros) (\<lambda>j. (zeros, zeros)) sys_start = Inr (code, t) \<and>
     (code = 0 \<or> code = 1) \<and> open_fds (hist t) = []"
  using socket_demo_safe [OF hangup_os_ok bump_ok, of 1 2 "{}" sys_start "(zeros, zeros)" "\<lambda>j. (zeros, zeros)"]
    hangup_env sys_start_inv by (auto simp: env_ok_def)

text \<open>
  Property C35. How the socket demo ends. If the log file cannot be opened or the logger's thread
  not be created, the exception of the constructor leaves \<open>main\<close> before anything else is done.
  Otherwise the status and the diagnostic say what happened. If \<open>listen\<close> returned false, the
  status is 1 and the only text on \<open>std::cerr\<close> says that the server could not be started. If it
  returned true, the clients before some client \<open>i\<close> were all connected and client \<open>i\<close> could not
  be, the status is 1 and the only text names client \<open>i\<close>. If all three clients were connected, the
  status is 0 and nothing is on \<open>std::cerr\<close>: the third early return, for a message that does not
  fit in a client's send buffer, is never taken.
\<close>

theorem socket_demo_exit:
  assumes "os_ok os" "alloc_ok alloc" "clients_bounded os n" "n < fuel" "sys_inv B s"
    and "length (fst lb) = 65536" "length (snd lb) = 65536"
    and "\<And>j. length (fst (blocks j)) = 65536 \<and> length (snd (blocks j)) = 65536"
    and run: "r = socket_demo dbg can_open setaffinity spawn_ok os alloc fuel lb blocks s"
  shows "if \<not> can_open then r = Inr (Inl (CouldNotOpen ''Could not open log file: socket_demo.log''))
         else if \<not> spawn_ok then r = Inr (Inl (StartFailed SystemError))
         else \<exists>code t diagnostic. r = Inr (Inr (code, t)) \<and> err_text t = err_text s @ diagnostic \<and>
                exit_reason os alloc fuel lb blocks s code diagnostic"
proof -
  obtain code t d where m: "demo_main os alloc fuel lb blocks s = Inr (code, t)" "err_text t = err_text s @ d"
      "exit_reason os alloc fuel lb blocks s code d"
    using demo_main_result [where blocks = blocks, OF assms(1-8)] by blast
  show ?thesis
  proof (cases "can_open \<and> spawn_ok")
    case True
    then obtain l where "Logger dbg ''socket_demo.log'' can_open setaffinity spawn_ok ([], None) = Inr (Inr l)"
      using Logger_result(1) by blast
    with m run True show ?thesis by (simp add: socket_demo_def)
  next
    case False
    with Logger_result(2,3) run show ?thesis by (auto simp: socket_demo_def)
  qed
qed

text \<open>A system on which no epoll instance can be created.\<close>

definition no_epoll_os :: os where
  "no_epoll_os h c = (case c of Epoll_create1 f \<Rightarrow> result (- 1) 24 | _ \<Rightarrow> one_client_os h c)"

lemma no_epoll_os_ok: "os_ok no_epoll_os" "clients_bounded no_epoll_os 1"
proof -
  have "valid_answer h c (no_epoll_os h c)" for h c
    using os_okD [OF one_client_os_ok, of h c] by (cases c) (auto simp: no_epoll_os_def)
  then show "os_ok no_epoll_os" by (simp add: os_ok_def)
qed (simp add: clients_bounded_def no_epoll_os_def one_client_os_def)

lemma no_epoll_listen:
  "\<exists>srv s2. listen no_epoll_os ''lo'' PORT (demo_server lb) (start_log sys_start) = Inr (False, srv, s2)"
  by (simp add: demo_server_def server_simps socket_simps system_simps no_epoll_os_def)

theorem socket_demo_exit_witness:
  "\<exists>t. socket_demo True True (\<lambda>cpus. 0) True no_epoll_os bump 2 (zeros, zeros) (\<lambda>j. (zeros, zeros)) sys_start =
     Inr (Inr (1, t)) \<and> err_text t = ''Failed to start TCP server on lo:12345'' @ newline"
proof -
  obtain code t d where r: "socket_demo True True (\<lambda>cpus. 0) True no_epoll_os bump 2 (zeros, zeros) (\<lambda>j. (zeros, zeros)) sys_start =
      Inr (Inr (code, t))" "err_text t = err_text sys_start @ d"
    "exit_reason no_epoll_os bump 2 (zeros, zeros) (\<lambda>j. (zeros, zeros)) sys_start code d"
    using socket_demo_exit [OF no_epoll_os_ok(1) bump_ok no_epoll_os_ok(2) _ sys_start_inv _ _ _ refl,
        where fuel = 2 and lb = "(zeros, zeros)" and blocks = "\<lambda>j. (zeros, zeros)" and dbg = True and can_open = True
          and setaffinity = "\<lambda>cpus. 0" and spawn_ok = True] by auto
  obtain srv s2 where "listen no_epoll_os ''lo'' PORT (demo_server (zeros, zeros)) (start_log sys_start) = Inr (False, srv, s2)"
    using no_epoll_listen by blast
  with r(3) have "code = 1" "d = ''Failed to start TCP server on lo:12345'' @ newline"
    by (auto simp: exit_reason_def)
  with r(1,2) show ?thesis by (simp add: sys_start_def)
qed

text \<open>The log of the socket demo: however the thread that writes the file is scheduled, once \<open>main\<close>
  is over the file holds every message of the run, in order.\<close>

lemma socket_demo_log:
  assumes "os_ok os" "alloc_ok alloc" "clients_bounded os n" "n < fuel" "sys_inv B s"
    and "length (fst lb) = 65536" "length (snd lb) = 65536"
    and "\<And>j. length (fst (blocks j)) = 65536 \<and> length (snd (blocks j)) = 65536"
    and run: "demo_main os alloc fuel lb blocks s = Inr (code, t)"
    and st: "reachable (logger_init dbg (logs t)) (logger_step dbg fs) st" "apc st = A_Done"
  shows "file_text st = concat (map (\<lambda>(f, args). render fs (pieces f) args) (logs t)) \<and> \<not> file_open st"
proof -
  have "sys_inv B t" using demo_main_result [where blocks = blocks, OF assms(1-8)] run by auto
  then have "length args = holes f" if "(f, args) \<in> set (logs t)" for f args
    using that by (auto simp: sys_inv_def)
  from logger_file [OF this st] show ?thesis by simp
qed

section \<open>The echo\<close>

text \<open>One call: when bytes arrive and the reply fits, they are consumed and what is sent to that client
  continues with the reply, after everything queued before.\<close>

lemma server_echoes:
  assumes os: "os_ok os" and "sock_wf sock" "0 \<le> fd sock" "next_rcv_valid_index sock < TCP_BUFFER_SIZE"
    and cb: "recv_callback sock = App_callback"
    and c: "c = Recvmsg (fd sock) (unat (TCP_BUFFER_SIZE - next_rcv_valid_index sock))"
    and a: "a = os (hist s) c" "0 < ret a"
    and fits: "length (pending sock) + length (echo_reply (received sock @ ans_bytes a)) \<le> 65536"
  shows "\<exists>sock' t h. sendAndRecv os server_recv_callback sock s = Inr (True, sock', t) \<and>
           hist t = hist s @ (c, a) # h \<and> received sock' = [] \<and>
           handed (fd sock) h @ pending sock' = pending sock @ echo_reply (received sock @ ans_bytes a)"
proof -
  have r: "received (filled sock a) = received sock @ ans_bytes a" "pending (filled sock a) = pending sock"
      "sock_wf (filled sock a)"
    and e: "sendAndRecv os server_recv_callback sock s =
      obind (run_callback server_recv_callback (filled sock a) (timestamp_of (ans_cmsgs a)) (after os c s))
        (\<lambda>(sock2, s2). obind (send_phase os sock2 s2) (\<lambda>(sock3, s3). Inr (True, sock3, s3)))"
    using sendAndRecv_receive [OF assms(1-4) c a, of server_recv_callback] by blast+
  have run: "run_callback server_recv_callback (filled sock a) = server_recv_callback (filled sock a)"
    using cb by (intro ext) (simp add: run_callback_def filled_def split: option.splits)
  obtain sock2 s2 where k: "server_recv_callback (filled sock a) (timestamp_of (ans_cmsgs a)) (after os c s) = Inr (sock2, s2)"
      "sock_wf sock2" "received sock2 = []" "fd sock2 = fd (filled sock a)" "hist s2 = hist s @ [(c, a)]"
      "pending sock2 = pending sock @ echo_reply (received sock @ ans_bytes a)"
    using server_recv_callback_spec [OF r(3), of "timestamp_of (ans_cmsgs a)" "after os c s"] fits a(1)
    unfolding r(1,2) by auto
  have "fd (filled sock a) = fd sock" by (simp add: filled_def split: option.splits)
  moreover obtain sock' t h where "send_phase os sock2 s2 = Inr (sock', t)" "received sock' = received sock2"
      "hist t = hist s2 @ h" "pending sock2 = handed (fd sock2) h @ pending sock'"
    using send_phase_spec [OF os k(2), of s2] by blast
  ultimately show ?thesis using e k run by auto
qed

text \<open>The server has answered every chunk it was shown, in order, unless the answers to all of them
  would not fit in one send buffer.\<close>

definition answers :: "(byte list \<times> bool) list \<Rightarrow> byte list" where
  "answers chunks = concat (map (\<lambda>(c, fits). if fits then echo_reply c else []) chunks)"

definition echoes :: exchange where
  "echoes d u q \<longleftrightarrow> u = [] \<and>
     (\<exists>chunks. concat (map fst chunks) = d \<and> answers chunks = q \<and>
        (list_all snd chunks \<or> 65536 < length (concat (map (echo_reply \<circ> fst) chunks))))"

lemma answers_all: "list_all snd chunks \<Longrightarrow> answers chunks = concat (map (echo_reply \<circ> fst) chunks)"
  by (induction chunks) (auto simp: answers_def)

interpretation echo: reply_callback server_recv_callback echoes
proof (unfold_locales, goal_cases)
  case 1
  show ?case unfolding echoes_def by (intro conjI exI [of _ "[]"]) (simp_all add: answers_def)
next
  case (2 sock d u q new rx s sock' s')
  define fits where "fits \<longleftrightarrow> length (pending sock) + length (echo_reply new) \<le> 65536"
  obtain chunks where c: "u = []" "concat (map fst chunks) = d" "answers chunks = q"
      "list_all snd chunks \<or> 65536 < length (concat (map (echo_reply \<circ> fst) chunks))"
    using 2(2) by (auto simp: echoes_def)
  then have p: "received sock' = []" "pending sock' = pending sock @ (if fits then echo_reply new else [])"
    using server_recv_callback_spec [OF 2(1), of rx s] 2(3,5) by (auto simp: fits_def)
  let ?chunks = "chunks @ [(new, fits)]"
  have "length (pending sock) \<le> length q" using 2(4) by (rule suffix_length_le)
  then have "list_all snd ?chunks \<or> 65536 < length (concat (map (echo_reply \<circ> fst) ?chunks))"
    using c(3,4) answers_all [of chunks] by (auto simp: fits_def)
  then have "echoes (d @ new) (received sock') (q @ (if fits then echo_reply new else []))"
    using p(1) c unfolding echoes_def by (intro conjI exI [of _ ?chunks]) (auto simp: answers_def)
  with p(2) show ?case by blast
qed

text \<open>
  Property C36. The echo, over whole runs: at every moment, the bytes a client of the demo server
  has sent so far fall into the chunks in which they were read, all of them are consumed, and
  what the server has sent back to that client, together with what waits in its send buffer, is
  \<open>SERVER RECEIVED: \<close> and the chunk for each of them, in order. No answer is left out while all
  answers together fit in a send buffer.
\<close>

theorem echo_conversation:
  assumes "env_ok os alloc n fuel server_recv_callback fin" "sys_inv B s"
    and "length b1 = 65536" "length b2 = 65536"
    and "run_ops (server_exec os alloc fuel server_recv_callback fin) ops (TCPServer b1 b2, s) = Inr (srv, t)"
    and "heap srv a = Some k" "recv_callback k = App_callback"
  shows "echoes (delivered (fd k) (hist t)) (received k) (sent_on (fd k) (hist t) @ pending k)"
  using echo.run_talk [OF assms(1-6)] assms(7) by (simp add: client_talk_def)

text \<open>A run in which the answer has to wait: the kernel accepts nothing yet.\<close>

definition shy_os :: os where
  "shy_os h c = (case c of Send f bs \<Rightarrow> result (- 1) EAGAIN | _ \<Rightarrow> one_client_os h c)"

lemma send_loop_blocked:
  assumes "0 < next_send_valid_index sock" "mem_read 0 (unat (next_send_valid_index sock)) (send_buffer sock) = Inr bs"
  shows "send_loop shy_os 65537 0 sock s = Inr (0, sock, after shy_os (Send (fd sock) bs) s)"
proof -
  have "send_loop shy_os (Suc m) 0 sock s = Inr (0, sock, after shy_os (Send (fd sock) bs) s)" for m
    using assms by (simp add: ext_def shy_os_def after_def wouldBlock_def)
  from this [of 65536] show ?thesis by simp
qed

lemma echo_run:
  assumes "length b = 65536"
  shows "\<exists>srv t k. run_ops (server_exec shy_os (bump_of b) (Suc (Suc 0)) server_recv_callback server_recv_finished_callback)
     [Server_callbacks App_callback App_callback, Server_listen ''lo'' 8080, Server_poll, Server_sendAndRecv]
     (TCPServer b b, sys_start) = Inr (srv, t) \<and>
   heap srv (Suc (Suc 0)) = Some k \<and> recv_callback k = App_callback \<and> delivered (fd k) (hist t) = [104, 105]"
  by (simp add: assms shy_os_def system_simps socket_simps server_simps receive_simps delivered_def stream_def server_recv_callback_def send_def
     send_loop_blocked server_recv_finished_callback_def)

lemma shy_env: "env_ok shy_os bump 1 (Suc (Suc 0)) server_recv_callback server_recv_finished_callback"
proof -
  have "valid_answer h c (shy_os h c)" for h c
    using os_okD [OF one_client_os_ok, of h c] by (cases c) (auto simp: shy_os_def)
  then show ?thesis
    by (intro demo_env) (simp_all add: os_ok_def bump_ok clients_bounded_def shy_os_def one_client_os_def)
qed

theorem echo_conversation_witness:
  "\<exists>srv t k. run_ops (server_exec shy_os bump (Suc (Suc 0)) server_recv_callback server_recv_finished_callback)
     [Server_callbacks App_callback App_callback, Server_listen ''lo'' 8080, Server_poll, Server_sendAndRecv]
     (TCPServer zeros zeros, sys_start) = Inr (srv, t) \<and>
   heap srv (Suc (Suc 0)) = Some k \<and> echoes [104, 105] [] (sent_on (fd k) (hist t) @ pending k)"
proof -
  obtain srv t k where r: "run_ops (server_exec shy_os bump (Suc (Suc 0)) server_recv_callback server_recv_finished_callback)
     [Server_callbacks App_callback App_callback, Server_listen ''lo'' 8080, Server_poll, Server_sendAndRecv]
     (TCPServer zeros zeros, sys_start) = Inr (srv, t)"
    "heap srv (Suc (Suc 0)) = Some k" "recv_callback k = App_callback" "delivered (fd k) (hist t) = [104, 105]"
    using echo_run [of zeros] by auto
  note e = echo_conversation [OF shy_env sys_start_inv _ _ r(1-3)]
  then have "received k = []" by (simp add: echoes_def)
  with e r show ?thesis by auto
qed

end
