(* ===== verification/Queue_Demo.thy ===== *)
theory Queue_Demo
  imports Logger
begin

text \<open>
  \<open>src/lf_queue_demo.cpp\<close>: the main thread produces five orders, a thread started with
  \<open>createAndStartThread\<close> consumes them, and both print what they do. The threads are those of
  \<open>LF_Queue\<close>, one atomic access at a time, with one more kind of step each: an insertion into
  \<open>std::cout\<close>, which may fall between those of the other thread. Both print through the pointer
  the queue gave them, the consumer before it releases the slot, the producer after it has
  published it.
\<close>

section \<open>The program\<close>

record queue_order =
  q_id :: int
  q_price :: "64 word"

text \<open>The values of \<open>100.0 + i\<close> are given by their bit patterns.\<close>

definition demo_orders :: "queue_order list" where
  "demo_orders =
     [\<lparr>q_id = 0, q_price = 0x4059000000000000\<rparr>, \<lparr>q_id = 1, q_price = 0x4059400000000000\<rparr>,
      \<lparr>q_id = 2, q_price = 0x4059800000000000\<rparr>, \<lparr>q_id = 3, q_price = 0x4059C00000000000\<rparr>,
      \<lparr>q_id = 4, q_price = 0x405A000000000000\<rparr>]"

text \<open>The five insertions of a line.\<close>

definition order_line :: "stream_fmt \<Rightarrow> string \<Rightarrow> queue_order \<Rightarrow> string list" where
  "order_line fs verb x =
     [verb @ '': id='', show_int (q_id x), '' price='', show_double fs (q_price x), [CHR 0x0A]]"

text \<open>The state: the queue and its two threads, the pointers \<open>order\<close> of both functions (as slot
  numbers), how many insertions of the current line each has left, and what has been written.\<close>

record queue_demo =
  qsp :: "queue_order spsc"
  produced_ptr :: nat
  produced_left :: nat
  consumed_ptr :: nat
  consumed_left :: nat
  written :: "string list"

definition produce_next :: "queue_order spsc \<Rightarrow> queue_order \<Rightarrow> queue_order list \<Rightarrow> prod_pc \<Rightarrow>
    queue_order lfqueue \<Rightarrow> queue_order spsc" where
  "produce_next p x xs pp q =
     p\<lparr>sq := q, ppc := pp, todo := (if ppc p = P_Inc then xs else todo p),
       sent := (if ppc p = P_Inc then sent p @ [x] else sent p)\<rparr>"

definition consume_next :: "queue_order spsc \<Rightarrow> cons_pc \<Rightarrow> queue_order lfqueue \<Rightarrow> queue_order option \<Rightarrow>
    queue_order spsc" where
  "consume_next p cp q r =
     p\<lparr>sq := q, cpc := cp, got := got p @ (case r of None \<Rightarrow> [] | Some v \<Rightarrow> [v]),
       released := (if cpc p = C_Dec then Suc (released p) else released p)\<rparr>"

inductive queue_demo_step :: "bool \<Rightarrow> stream_fmt \<Rightarrow> queue_demo \<Rightarrow> queue_demo \<Rightarrow> bool" for dbg fs where
  produce: "produced_left s = 0 \<Longrightarrow> todo (qsp s) = x # xs \<Longrightarrow>
    prod_step x (ppc (qsp s), sq (qsp s)) = Inr (pp, q) \<Longrightarrow>
    queue_demo_step dbg fs s
      (s\<lparr>qsp := produce_next (qsp s) x xs pp q,
         produced_ptr := (case ppc (qsp s) of P_Write i \<Rightarrow> i | _ \<Rightarrow> produced_ptr s),
         produced_left := (if ppc (qsp s) = P_Inc then 5 else 0)\<rparr>)"
| print_produced: "produced_left s = Suc n \<Longrightarrow> read_slot (produced_ptr s) (sq (qsp s)) = Inr x \<Longrightarrow>
    queue_demo_step dbg fs s
      (s\<lparr>produced_left := n, written := written s @ [order_line fs ''Produced'' x ! (4 - n)]\<rparr>)"
| consume: "consumed_left s = 0 \<Longrightarrow> released (qsp s) < 5 \<Longrightarrow>
    cons_step dbg (cpc (qsp s), sq (qsp s)) = Inr (cp, q, r) \<Longrightarrow>
    queue_demo_step dbg fs s
      (s\<lparr>qsp := consume_next (qsp s) cp q r,
         consumed_ptr := (case cpc (qsp s) of C_Read i \<Rightarrow> i | _ \<Rightarrow> consumed_ptr s),
         consumed_left := (case cpc (qsp s) of C_Read i \<Rightarrow> 5 | _ \<Rightarrow> 0)\<rparr>)"
| print_consumed: "consumed_left s = Suc n \<Longrightarrow> read_slot (consumed_ptr s) (sq (qsp s)) = Inr x \<Longrightarrow>
    queue_demo_step dbg fs s
      (s\<lparr>consumed_left := n, written := written s @ [order_line fs ''Consumed'' x ! (4 - n)]\<rparr>)"

text \<open>\<open>main\<close> up to the point where both threads run; the consumer can only spin before.\<close>

definition queue_demo_main :: "bool \<Rightarrow> affinity \<Rightarrow> bool \<Rightarrow> (start_error + queue_demo) outcome" where
  "queue_demo_main dbg setaffinity spawn_ok =
     obind (LFQueue dbg \<lparr>q_id = 0, q_price = 0\<rparr> 10) (\<lambda>q.
       case createAndStartThread setaffinity spawn_ok (- 1) of
         Inl e \<Rightarrow> Inr (Inl e)
       | Inr u \<Rightarrow>
           Inr (Inr \<lparr>qsp = \<lparr>sq = q, ppc = P_Idle, cpc = C_Idle, todo = demo_orders, sent = [], released = 0,
                            got = []\<rparr>,
                     produced_ptr = 0, produced_left = 0, consumed_ptr = 0, consumed_left = 0, written = []\<rparr>))"

definition queue_demo_init :: "bool \<Rightarrow> queue_demo \<Rightarrow> bool" where
  "queue_demo_init dbg s \<longleftrightarrow> (\<exists>setaffinity spawn_ok. queue_demo_main dbg setaffinity spawn_ok = Inr (Inr s))"

text \<open>\<open>main\<close> returns after the join: both loops are over and everything is printed.\<close>

definition queue_demo_final :: "queue_demo \<Rightarrow> bool" where
  "queue_demo_final s \<longleftrightarrow> todo (qsp s) = [] \<and> produced_left s = 0 \<and> released (qsp s) = 5 \<and> consumed_left s = 0"

section \<open>Lines and interleavings\<close>

lemma length_order_line [simp]: "length (order_line fs verb x) = 5"
  by (simp add: order_line_def)

lemma demo_orders_nth: "i < 5 \<Longrightarrow> q_id (demo_orders ! i) = int i"
  by (auto simp: demo_orders_def less_Suc_eq numeral_eq_Suc)

lemma length_demo_orders [simp]: "length demo_orders = 5"
  by (simp add: demo_orders_def)

text \<open>What a thread has written when its lines up to the last are out but for \<open>left\<close> insertions.\<close>

definition said :: "('a \<Rightarrow> string list) \<Rightarrow> 'a list \<Rightarrow> nat \<Rightarrow> string list" where
  "said line xs left =
     (if xs = [] then [] else concat (map line (butlast xs)) @ take (5 - left) (line (last xs)))"

lemma said_all:
  assumes "\<And>x. length (line x) = 5"
  shows "said line xs 0 = concat (map line xs)"
  using assms by (cases xs rule: rev_cases) (simp_all add: said_def)

lemma said_next: "said line (xs @ [x]) 5 = concat (map line xs)"
  by (simp add: said_def)

lemma said_more:
  assumes "length (line (last xs)) = 5" "n < 5" "xs \<noteq> []"
  shows "said line xs n = said line xs (Suc n) @ [line (last xs) ! (4 - n)]"
proof -
  have "5 - n = Suc (4 - n)" "5 - Suc n = 4 - n" "4 - n < 5" using assms(2) by auto
  with assms show ?thesis by (simp add: said_def take_Suc_conv_app_nth)
qed

lemma shuffles_snoc:
  "zs \<in> shuffles xs ys \<Longrightarrow> zs @ [x] \<in> shuffles (xs @ [x]) ys"
  "zs \<in> shuffles xs ys \<Longrightarrow> zs @ [y] \<in> shuffles xs (ys @ [y])"
proof -
  have one: "ys @ [x] \<in> shuffles [x] ys" for x :: 'a and ys by (induction ys) auto
  show left: "zs \<in> shuffles xs ys \<Longrightarrow> zs @ [x] \<in> shuffles (xs @ [x]) ys" for zs xs ys and x :: 'a
  proof (induction xs ys arbitrary: zs rule: shuffles.induct)
    case (1 ys)
    then show ?case using one by auto
  next
    case (2 xs)
    then show ?case by (cases xs) auto
  next
    case (3 a xs b ys)
    then show ?case by (auto simp: image_iff)
  qed
  show "zs \<in> shuffles xs ys \<Longrightarrow> zs @ [y] \<in> shuffles xs (ys @ [y])"
    using left [of zs ys xs y] by (simp add: shuffles_commutes)
qed

section \<open>The invariant\<close>

lemma produce_next_step:
  "todo p = x # xs \<Longrightarrow> prod_step x (ppc p, sq p) = Inr (pp, q) \<Longrightarrow> spsc_step dbg p (produce_next p x xs pp q)"
  unfolding produce_next_def by (rule spsc_step.produce)

lemma consume_next_step: "cons_step dbg (cpc p, sq p) = Inr (cp, q, r) \<Longrightarrow> spsc_step dbg p (consume_next p cp q r)"
  unfolding consume_next_def by (rule spsc_step.consume)

lemma spsc_step_inv: "spsc_inv items p \<Longrightarrow> spsc_step dbg p p' \<Longrightarrow> spsc_inv items p'"
  by (cases rule: spsc_step.cases, assumption) (blast intro: spsc_inv_produce spsc_inv_consume)+

text \<open>The steps of the queue's threads as seen from the slots.\<close>

lemma prod_step_store:
  assumes "prod_step x (pp, q) = Inr (pp', q')"
  shows "length (queue_store q') = length (queue_store q)" "(\<forall>i. pp \<noteq> P_Write i) \<Longrightarrow> queue_store q' = queue_store q"
    "pstage pp' = 3 \<Longrightarrow> \<exists>i. pp = P_Write i" "3 < pstage pp' \<Longrightarrow> pp \<noteq> P_Inc \<and> 3 \<le> pstage pp \<and> (\<forall>i. pp \<noteq> P_Write i)"
  using assms by (cases pp; auto simp: obind_Inr_iff write_slot_def split: if_splits)+

lemma cons_step_store:
  assumes "cons_step dbg (cp, q) = Inr (cp', q', r)"
  shows "queue_store q' = queue_store q" "(r \<noteq> None) = (\<exists>i. cp = C_Read i)" "cp = C_Read i \<Longrightarrow> cp' = C_Assert"
  using assms by (cases cp; auto simp: obind_Inr_iff guard_fault_Inr_iff split: if_splits)+

definition producer_ok :: "queue_demo \<Rightarrow> bool" where
  "producer_ok s \<longleftrightarrow> (let p = qsp s; store = queue_store (sq p) in
     produced_left s \<le> 5 \<and>
     (produced_left s \<noteq> 0 \<longrightarrow> ppc p = P_Idle \<and> sent p \<noteq> [] \<and> produced_ptr s < length store \<and>
        store ! produced_ptr s = last (sent p)) \<and>
     (3 \<le> pstage (ppc p) \<longrightarrow> produced_ptr s = length (sent p) mod length store))"

definition consumer_ok :: "queue_demo \<Rightarrow> bool" where
  "consumer_ok s \<longleftrightarrow> (let p = qsp s in
     consumed_left s \<le> 5 \<and>
     (consumed_left s \<noteq> 0 \<longrightarrow> cpc p = C_Assert \<and> consumed_ptr s = released p mod length (queue_store (sq p))))"

definition output_ok :: "stream_fmt \<Rightarrow> queue_demo \<Rightarrow> bool" where
  "output_ok fs s \<longleftrightarrow>
     written s \<in> shuffles (said (order_line fs ''Produced'') (sent (qsp s)) (produced_left s))
                          (said (order_line fs ''Consumed'') (got (qsp s)) (consumed_left s))"

definition queue_demo_inv :: "stream_fmt \<Rightarrow> queue_demo \<Rightarrow> bool" where
  "queue_demo_inv fs s \<longleftrightarrow> spsc_inv demo_orders (qsp s) \<and> producer_ok s \<and> consumer_ok s \<and> output_ok fs s"

lemma produced_slot:
  assumes "queue_demo_inv fs s" "produced_left s \<noteq> 0"
  shows "read_slot (produced_ptr s) (sq (qsp s)) = Inr (last (sent (qsp s)))" "sent (qsp s) \<noteq> []"
  using assms by (simp_all add: queue_demo_inv_def producer_ok_def read_slot_def Let_def)

lemma consumed_slot:
  assumes "queue_demo_inv fs s" "consumed_left s \<noteq> 0"
  shows "read_slot (consumed_ptr s) (sq (qsp s)) = Inr (last (got (qsp s)))" "got (qsp s) \<noteq> []"
proof -
  let ?p = "qsp s"
  have c: "cpc ?p = C_Assert" "consumed_ptr s = released ?p mod length (queue_store (sq ?p))"
    and ring: "ring_inv (sq ?p) (ppc ?p = P_Inc) False (sent ?p) (released ?p)" and rel: "released ?p < length (sent ?p)"
    and g: "got ?p = take (Suc (released ?p)) (sent ?p)"
    using assms by (auto simp: queue_demo_inv_def consumer_ok_def spsc_inv_def Let_def)
  have "queue_store (sq ?p) ! consumed_ptr s = sent ?p ! released ?p" using ring_invD(8) [OF ring] rel c(2) by simp
  moreover have "got ?p = take (released ?p) (sent ?p) @ [sent ?p ! released ?p]"
    using g rel by (simp add: take_Suc_conv_app_nth)
  ultimately show "read_slot (consumed_ptr s) (sq ?p) = Inr (last (got ?p))" "got ?p \<noteq> []"
    using ring_invD(1) [OF ring] c(2) by (simp_all add: read_slot_def)
qed

lemma queue_demo_produce:
  assumes inv: "queue_demo_inv fs s" and left: "produced_left s = 0" and td: "todo (qsp s) = x # xs"
    and st: "prod_step x (ppc (qsp s), sq (qsp s)) = Inr (pp, q)"
  shows "queue_demo_inv fs (s\<lparr>qsp := produce_next (qsp s) x xs pp q,
         produced_ptr := (case ppc (qsp s) of P_Write i \<Rightarrow> i | _ \<Rightarrow> produced_ptr s),
         produced_left := (if ppc (qsp s) = P_Inc then 5 else 0)\<rparr>)" (is "queue_demo_inv fs ?s")
proof -
  let ?p = "qsp s"
  note store = prod_step_store [OF st]
  have spsc: "spsc_inv demo_orders (qsp ?s)"
    using inv spsc_step_inv [OF _ produce_next_step [OF td st]] by (simp add: queue_demo_inv_def)
  have "ring_inv (sq ?p) (ppc ?p = P_Inc) (cpc ?p = C_Dec) (sent ?p) (released ?p)"
    using inv by (simp add: queue_demo_inv_def spsc_inv_def)
  note nonempty = ring_invD(1) [OF this]
  have ok: "prod_ok x (ppc ?p) (sq ?p) (sent ?p) (released ?p)"
    using inv td by (simp add: queue_demo_inv_def spsc_inv_def)
  have ptr: "3 \<le> pstage (ppc ?p) \<Longrightarrow> produced_ptr s = length (sent ?p) mod length (queue_store (sq ?p))"
    using inv by (simp add: queue_demo_inv_def producer_ok_def Let_def)
  have "producer_ok ?s"
  proof (cases "ppc ?p = P_Inc")
    case True
    with st have "pp = P_Idle" "queue_store q = queue_store (sq ?p)" by auto
    with True ok nonempty ptr show ?thesis by (simp add: producer_ok_def produce_next_def)
  next
    case False
    have "(case ppc ?p of P_Write i \<Rightarrow> i | _ \<Rightarrow> produced_ptr s) = length (sent ?p) mod length (queue_store q)"
      if "3 \<le> pstage pp"
      using that store(1,3,4) ok ptr by (cases "pstage pp = 3") (auto split: prod_pc.split)
    with False show ?thesis by (simp add: producer_ok_def produce_next_def)
  qed
  moreover have "consumer_ok ?s"
    using inv store(1) by (simp add: queue_demo_inv_def consumer_ok_def produce_next_def Let_def)
  moreover have "output_ok fs ?s"
    using inv left by (simp add: queue_demo_inv_def output_ok_def produce_next_def said_next said_all)
  ultimately show ?thesis using spsc by (simp add: queue_demo_inv_def)
qed

lemma queue_demo_consume:
  assumes inv: "queue_demo_inv fs s" and left: "consumed_left s = 0"
    and st: "cons_step dbg (cpc (qsp s), sq (qsp s)) = Inr (cp, q, r)"
  shows "queue_demo_inv fs (s\<lparr>qsp := consume_next (qsp s) cp q r,
         consumed_ptr := (case cpc (qsp s) of C_Read i \<Rightarrow> i | _ \<Rightarrow> consumed_ptr s),
         consumed_left := (case cpc (qsp s) of C_Read i \<Rightarrow> 5 | _ \<Rightarrow> 0)\<rparr>)" (is "queue_demo_inv fs ?s")
proof -
  let ?p = "qsp s"
  note store = cons_step_store [OF st]
  have spsc: "spsc_inv demo_orders (qsp ?s)"
    using inv spsc_step_inv [OF _ consume_next_step [OF st]] by (simp add: queue_demo_inv_def)
  have ok: "cons_ok (cpc ?p) (sq ?p) (sent ?p) (released ?p)"
    using inv by (simp add: queue_demo_inv_def spsc_inv_def)
  have "producer_ok ?s"
    using inv store(1) by (simp add: queue_demo_inv_def producer_ok_def consume_next_def Let_def)
  moreover have "consumer_ok ?s"
    using ok store(1,3) by (cases "cpc ?p") (simp_all add: consumer_ok_def consume_next_def)
  moreover have "output_ok fs ?s"
    using inv left store(2)
    by (cases "cpc ?p"; cases r) (auto simp: queue_demo_inv_def output_ok_def consume_next_def said_next said_all)
  ultimately show ?thesis using spsc by (simp add: queue_demo_inv_def)
qed

lemma queue_demo_print_produced:
  assumes inv: "queue_demo_inv fs s" and left: "produced_left s = Suc n"
    and x: "read_slot (produced_ptr s) (sq (qsp s)) = Inr x"
  shows "queue_demo_inv fs (s\<lparr>produced_left := n, written := written s @ [order_line fs ''Produced'' x ! (4 - n)]\<rparr>)"
proof -
  have "x = last (sent (qsp s))" "sent (qsp s) \<noteq> []" using produced_slot [OF inv] left x by simp_all
  moreover have "n < 5" using inv left by (simp add: queue_demo_inv_def producer_ok_def Let_def)
  ultimately have "said (order_line fs ''Produced'') (sent (qsp s)) n =
      said (order_line fs ''Produced'') (sent (qsp s)) (Suc n) @ [order_line fs ''Produced'' x ! (4 - n)]"
    using said_more [of "order_line fs ''Produced''" "sent (qsp s)" n] by simp
  moreover have "written s \<in> shuffles (said (order_line fs ''Produced'') (sent (qsp s)) (Suc n))
      (said (order_line fs ''Consumed'') (got (qsp s)) (consumed_left s))"
    using inv left by (simp add: queue_demo_inv_def output_ok_def)
  ultimately show ?thesis using inv left
    by (simp add: queue_demo_inv_def producer_ok_def consumer_ok_def output_ok_def Let_def shuffles_snoc(1))
qed

lemma queue_demo_print_consumed:
  assumes inv: "queue_demo_inv fs s" and left: "consumed_left s = Suc n"
    and x: "read_slot (consumed_ptr s) (sq (qsp s)) = Inr x"
  shows "queue_demo_inv fs (s\<lparr>consumed_left := n, written := written s @ [order_line fs ''Consumed'' x ! (4 - n)]\<rparr>)"
proof -
  have "x = last (got (qsp s))" "got (qsp s) \<noteq> []" using consumed_slot [OF inv] left x by simp_all
  moreover have "n < 5" using inv left by (simp add: queue_demo_inv_def consumer_ok_def Let_def)
  ultimately have "said (order_line fs ''Consumed'') (got (qsp s)) n =
      said (order_line fs ''Consumed'') (got (qsp s)) (Suc n) @ [order_line fs ''Consumed'' x ! (4 - n)]"
    using said_more [of "order_line fs ''Consumed''" "got (qsp s)" n] by simp
  moreover have "written s \<in> shuffles (said (order_line fs ''Produced'') (sent (qsp s)) (produced_left s))
      (said (order_line fs ''Consumed'') (got (qsp s)) (Suc n))"
    using inv left by (simp add: queue_demo_inv_def output_ok_def)
  ultimately show ?thesis using inv left
    by (simp add: queue_demo_inv_def producer_ok_def consumer_ok_def output_ok_def Let_def shuffles_snoc(2))
qed

section \<open>Progress\<close>

definition queue_demo_rank :: "queue_demo \<Rightarrow> nat" where
  "queue_demo_rank s = 11 * spsc_rank (qsp s) + produced_left s + consumed_left s"

text \<open>As long as the consumer has not released five orders the queue's threads are not through, and
  while neither has to print, every step of theirs is one of the program.\<close>

lemma all_released:
  assumes "spsc_inv demo_orders p" "5 \<le> released p"
  shows "todo p = [] \<and> released p = 5 \<and> cpc p = C_Idle \<and> got p = demo_orders \<and> spsc_final demo_orders p"
proof -
  have ring: "ring_inv (sq p) (ppc p = P_Inc) (cpc p = C_Dec) (sent p) (released p)" and e: "sent p @ todo p = demo_orders"
    and g: "got p = take (released p + of_bool (has_read (cpc p))) (sent p)"
    and c: "cons_ok (cpc p) (sq p) (sent p) (released p)" and i: "todo p = [] \<longrightarrow> ppc p = P_Idle"
    using assms(1) by (simp_all add: spsc_inv_def)
  have "released p \<le> length (sent p)" using ring by (rule ring_invD(3))
  moreover have "length (sent p) + length (todo p) = 5" using arg_cong [OF e, of length] by simp
  ultimately have "length (sent p) = 5" "length (todo p) = 0" "released p = 5" using assms(2) by linarith+
  then have l: "length (sent p) = 5" "todo p = []" "released p = 5" by simp_all
  moreover have "cpc p = C_Idle" using c l by (cases "cpc p") auto
  ultimately show ?thesis using e g i by (simp add: spsc_final_def)
qed

lemma queue_demo_final_iff:
  assumes "queue_demo_inv fs s"
  shows "queue_demo_final s \<longleftrightarrow> 5 \<le> released (qsp s) \<and> produced_left s = 0"
proof -
  have "consumed_left s = 0" if "5 \<le> released (qsp s)"
    using all_released [OF _ that] assms by (auto simp: queue_demo_inv_def consumer_ok_def Let_def)
  then show ?thesis
    using all_released assms by (auto simp: queue_demo_final_def queue_demo_inv_def)
qed

lemma queue_step_lifts:
  assumes "spsc_step dbg (qsp s) p" "produced_left s = 0" "consumed_left s = 0" "released (qsp s) < 5"
  shows "\<exists>t. queue_demo_step dbg fs s t \<and> qsp t = p \<and> produced_left t + consumed_left t \<le> 10"
  using assms(1)
proof cases
  case (produce x xs pp q)
  from queue_demo_step.produce [OF assms(2) produce(2,3), of dbg fs] show ?thesis
    using produce(1) assms(3) by (fastforce simp: produce_next_def)
next
  case (consume cp q r)
  from queue_demo_step.consume [OF assms(3,4) consume(2), of fs] show ?thesis
    using consume(1) assms(2) by (fastforce simp: consume_next_def split: cons_pc.split)
qed

lemma queue_demo_progress:
  assumes inv: "queue_demo_inv fs s" and nf: "\<not> queue_demo_final s"
  shows "\<exists>t. queue_demo_step dbg fs s t \<and> queue_demo_rank t < queue_demo_rank s"
proof -
  consider n where "produced_left s = Suc n" | n where "consumed_left s = Suc n"
    | "produced_left s = 0" "consumed_left s = 0" by (meson nat.exhaust)
  then show ?thesis
  proof cases
    case 1
    with queue_demo_step.print_produced [OF 1 produced_slot(1) [OF inv], of dbg fs] show ?thesis
      by (fastforce simp: queue_demo_rank_def)
  next
    case 2
    with queue_demo_step.print_consumed [OF 2 consumed_slot(1) [OF inv], of dbg fs] show ?thesis
      by (fastforce simp: queue_demo_rank_def)
  next
    case 3
    then have rel: "released (qsp s) < 5" using nf queue_demo_final_iff [OF inv] by simp
    have spsc: "spsc_inv demo_orders (qsp s)" using inv by (simp add: queue_demo_inv_def)
    have "\<not> spsc_final demo_orders (qsp s)"
    proof
      assume "spsc_final demo_orders (qsp s)"
      then have "length (got (qsp s)) = 5" "cpc (qsp s) = C_Idle" by (simp_all add: spsc_final_def)
      moreover from this have "got (qsp s) = take (released (qsp s)) (sent (qsp s))"
        using spsc by (simp add: spsc_inv_def)
      ultimately show False using rel by simp
    qed
    from spsc_progress [OF spsc this] obtain p where p: "spsc_step dbg (qsp s) p" "spsc_rank p < spsc_rank (qsp s)"
      by blast
    from queue_step_lifts [OF p(1) 3 rel, of fs] p(2) 3 show ?thesis
      by (force simp: queue_demo_rank_def)
  qed
qed

interpretation queue_demo: progress_system "queue_demo_init dbg" "queue_demo_step dbg fs"
  "queue_demo_inv fs" queue_demo_final queue_demo_rank
proof (unfold_locales, goal_cases)
  case (1 s)
  then obtain aff sp where m: "queue_demo_main dbg aff sp = Inr (Inr s)" by (auto simp: queue_demo_init_def)
  then have "createAndStartThread aff sp (- 1) = Inr ()"
    by (cases "createAndStartThread aff sp (- 1)") (auto simp: queue_demo_main_def obind_Inr_iff)
  with m obtain q where q: "LFQueue dbg \<lparr>q_id = 0, q_price = 0\<rparr> 10 = Inr q"
    and s: "qsp s = \<lparr>sq = q, ppc = P_Idle, cpc = C_Idle, todo = demo_orders, sent = [], released = 0, got = []\<rparr>"
      "produced_left s = 0" "consumed_left s = 0" "written s = []"
    by (auto simp: queue_demo_main_def obind_Inr_iff)
  have "spsc_init dbg \<lparr>q_id = 0, q_price = 0\<rparr> 10 demo_orders (qsp s)" using q s(1) by (simp add: spsc_init_def)
  then have "spsc_inv demo_orders (qsp s)" by (rule spsc_inv_init [rotated]) simp
  with s show ?case
    by (simp add: queue_demo_inv_def producer_ok_def consumer_ok_def output_ok_def said_def)
next
  case (2 s t)
  from 2(2) show ?case
  proof cases
    case (produce x xs pp q)
    with queue_demo_produce [OF 2(1) produce(2-4)] show ?thesis by simp
  next
    case (print_produced n x)
    with queue_demo_print_produced [OF 2(1) print_produced(2,3)] show ?thesis by simp
  next
    case (consume cp q r)
    with queue_demo_consume [OF 2(1) consume(2,4)] show ?thesis by simp
  next
    case (print_consumed n x)
    with queue_demo_print_consumed [OF 2(1) print_consumed(2,3)] show ?thesis by simp
  qed
next
  case (3 s)
  then show ?case by (rule queue_demo_progress)
qed

section \<open>Properties\<close>

text \<open>
  Property C40. The queue demo in both builds, under every interleaving of its two threads. While
  a line is printed the pointer behind it is valid and still leads to the order in question, on
  both sides. The program can always run to its end, and then the consumer has read all five
  orders and what is on the terminal is an interleaving of the five \<open>Produced\<close> lines and the five
  \<open>Consumed\<close> lines, each in the order of the orders, insertion by insertion.
\<close>

theorem queue_demo_output:
  assumes "reachable (queue_demo_init dbg) (queue_demo_step dbg fs) s"
  shows "(produced_left s \<noteq> 0 \<longrightarrow> read_slot (produced_ptr s) (sq (qsp s)) = Inr (last (sent (qsp s)))) \<and>
         (consumed_left s \<noteq> 0 \<longrightarrow> read_slot (consumed_ptr s) (sq (qsp s)) = Inr (last (got (qsp s)))) \<and>
         (\<exists>t. (queue_demo_step dbg fs)\<^sup>*\<^sup>* s t \<and> queue_demo_final t) \<and>
         (queue_demo_final s \<longrightarrow> got (qsp s) = demo_orders \<and>
            written s \<in> shuffles (concat (map (order_line fs ''Produced'') demo_orders))
                                 (concat (map (order_line fs ''Consumed'') demo_orders)))"
proof -
  from assms have inv: "queue_demo_inv fs s" by (rule queue_demo.reachable_inv)
  have "got (qsp s) = demo_orders \<and> written s \<in> shuffles (concat (map (order_line fs ''Produced'') demo_orders))
      (concat (map (order_line fs ''Consumed'') demo_orders))" if f: "queue_demo_final s"
  proof -
    have spsc: "spsc_inv demo_orders (qsp s)" and out: "output_ok fs s" using inv by (simp_all add: queue_demo_inv_def)
    have "5 \<le> released (qsp s)" using f queue_demo_final_iff [OF inv] by simp
    note a = all_released [OF spsc this]
    moreover have "sent (qsp s) = demo_orders" using a spsc by (simp add: spsc_inv_def)
    ultimately show ?thesis using out f by (simp add: output_ok_def queue_demo_final_def said_all)
  qed
  with produced_slot(1) [OF inv] consumed_slot(1) [OF inv] queue_demo.reachable_can_finish [OF assms]
  show ?thesis by blast
qed

theorem queue_demo_output_witness:
  "\<exists>s. reachable (queue_demo_init True) (queue_demo_step True no_floats) s \<and> queue_demo_final s \<and>
     written s \<in> shuffles (concat (map (order_line no_floats ''Produced'') demo_orders))
                          (concat (map (order_line no_floats ''Consumed'') demo_orders))"
proof -
  have "\<exists>s0. queue_demo_main True (\<lambda>cpus. 0) True = Inr (Inr s0)"
    by (simp add: queue_demo_main_def LFQueue_def createAndStartThread_def)
  then obtain s0 where "queue_demo_init True s0" unfolding queue_demo_init_def by blast
  then have "reachable (queue_demo_init True) (queue_demo_step True no_floats) s0" by blast
  from queue_demo.reachable_can_finish [OF this] reachable_steps [OF this]
  obtain s where "reachable (queue_demo_init True) (queue_demo_step True no_floats) s" "queue_demo_final s" by blast
  with queue_demo_output [of True no_floats s] show ?thesis by blast
qed

end
