(* ===== verification/Demos.thy ===== *)
theory Demos
  imports Mem_Pool Logger "HOL-Library.Sublist"
begin

text \<open>
  Three of the demo programs. \<open>src/logger_demo.cpp\<close> is its list of calls of \<open>log\<close> on the two
  threads of \<open>Logger\<close>; \<open>src/memory_pool_demo.cpp\<close> is its sequence of calls on a \<open>MemPool\<close>
  of five orders; \<open>src/thread_demo.cpp\<close> is three calls of \<open>createAndStartThread\<close> and what the
  threads print. Floating-point constants are given by their bit patterns.
\<close>

section \<open>The logger demo\<close>

definition logger_demo :: "(string \<times> log_arg list) list" where
  "logger_demo =
     [(''char:% id:% quantity:%'' @ [CHR 0x0A], [A_char (CHR ''A''), A_int 42, A_unsigned_long 500]),
      (''ratio:% price:%'' @ [CHR 0x0A], [A_float 0x4059999A, A_double 0x4062C80000000000]),
      (''symbol:%'' @ [CHR 0x0A], [A_cstr ''AAPL'']),
      (''message:%'' @ [CHR 0x0A], [A_string ''order accepted'']),
      (''percent example:100%%'' @ [CHR 0x0A], [])]"

definition logger_demo_text :: "stream_fmt \<Rightarrow> string" where
  "logger_demo_text fs =
     ''char:A id:42 quantity:500'' @ [CHR 0x0A] @
     ''ratio:'' @ show_float fs 0x4059999A @ '' price:'' @ show_double fs 0x4062C80000000000 @ [CHR 0x0A] @
     ''symbol:AAPL'' @ [CHR 0x0A] @
     ''message:order accepted'' @ [CHR 0x0A] @
     ''percent example:100%'' @ [CHR 0x0A]"

lemma logger_demo_formats: "(s, args) \<in> set logger_demo \<Longrightarrow> length args = holes s"
  by (auto simp: logger_demo_def holes_def)

lemma logger_demo_rendered:
  "concat (map (\<lambda>(s, args). render fs (pieces s) args) logger_demo) = logger_demo_text fs"
  by (simp add: logger_demo_def logger_demo_text_def show_int_def show_nat.simps digit_def char_of_def bit_0)

section \<open>The memory pool demo\<close>

record order =
  order_id :: int
  price :: "64 word"

definition as_pointer :: "alloc_result \<Rightarrow> address" where
  "as_pointer r = (case r of Slot a \<Rightarrow> a | _ \<Rightarrow> 0)"

definition new_order :: "bool \<Rightarrow> int \<Rightarrow> 64 word \<Rightarrow> order mempool \<Rightarrow> (address \<times> order mempool) outcome" where
  "new_order dbg i p pool =
     obind (allocate dbg (Some \<lparr>order_id = i, price = p\<rparr>) pool) (\<lambda>(r, pool1). Inr (as_pointer r, pool1))"

text \<open>\<open>main\<close>: what it prints (\<open>ptr\<close> is how a stream prints a pointer), the six pointers, and the
  orders destroyed, in the order of their destruction.\<close>

definition pool_line :: "(address \<Rightarrow> string) \<Rightarrow> string \<Rightarrow> address \<Rightarrow> string" where
  "pool_line ptr label a = label @ ptr a @ [CHR 0x0A]"

definition memory_pool_demo :: "(address \<Rightarrow> string) \<Rightarrow> bool \<Rightarrow> address \<Rightarrow> nat \<Rightarrow>
    (string \<times> address list \<times> order list) outcome" where
  "memory_pool_demo ptr dbg data stride =
     obind (MemPool dbg data stride 5) (\<lambda>p0.
     obind (new_order dbg 1 0x4059000000000000 p0) (\<lambda>(a, p1).
     obind (new_order dbg 2 0x4069000000000000 p1) (\<lambda>(b, p2).
     obind (new_order dbg 3 0x4072C00000000000 p2) (\<lambda>(c, p3).
     let out1 = pool_line ptr ''a = '' a @ pool_line ptr ''b = '' b @ pool_line ptr ''c = '' c in
     obind (deallocate b p3) (\<lambda>(ok, p4).
     let out2 = out1 @ [CHR 0x0A] @ pool_line ptr ''Deallocated b: '' b @ [CHR 0x0A] in
     obind (new_order dbg 4 0x4079000000000000 p4) (\<lambda>(d, p5).
     obind (new_order dbg 5 0x407F400000000000 p5) (\<lambda>(e, p6).
     obind (deallocate a p6) (\<lambda>(ok, p7).
     obind (new_order dbg 6 0x4082C00000000000 p7) (\<lambda>(f, p8).
     let out3 = out2 @ pool_line ptr ''d = '' d @ pool_line ptr ''e = '' e @ pool_line ptr ''f = '' f;
         out4 = out3 @ [CHR 0x0A] @ pool_line ptr ''b old address = '' b @ pool_line ptr ''f new address = '' f in
     obind (MemPool_dtor p8) (\<lambda>destroyed. Inr (out4, [a, b, c, d, e, f], destroyed)))))))))))"

text \<open>The calls of \<open>main\<close> one by one, on pools given by their five slots.\<close>

abbreviation free_slot :: "order block" where
  "free_slot \<equiv> \<lparr>storage = None, is_free = True\<rparr>"

abbreviation used :: "order \<Rightarrow> order block" where
  "used x \<equiv> \<lparr>storage = Some x, is_free = False\<rparr>"

abbreviation pool5 :: "address \<Rightarrow> nat \<Rightarrow> order block list \<Rightarrow> size_t \<Rightarrow> size_t \<Rightarrow> order list \<Rightarrow> order mempool" where
  "pool5 data stride bs i n l \<equiv> \<lparr>pool_store = bs, next_free_index = i, num_free = n, pool_data = data,
     pool_stride = stride, dtor_log = l\<rparr>"

lemma loop_numeral:
  "next_free_loop dbg (numeral k) bs start i = next_free_loop dbg (Suc (pred_numeral k)) bs start i"
  by (simp only: numeral_eq_Suc)

lemmas pool_simps = new_order_def allocate_def updateNextFreeIndex_def as_pointer_def slot_addr_def ring_next_def
  cassert_def guard_fault_def Let_def loop_numeral

lemma demo_start: "MemPool dbg data stride 5 = Inr (pool5 data stride (replicate 5 free_slot) 0 5 [])"
  by (simp add: MemPool_def cassert_def guard_fault_def empty_block_def)

lemma demo_first_three:
  "new_order dbg i p (pool5 data stride [free_slot, free_slot, free_slot, free_slot, free_slot] 0 5 l) =
     Inr (data, pool5 data stride [used \<lparr>order_id = i, price = p\<rparr>, free_slot, free_slot, free_slot, free_slot] 1 4 l)"
  "new_order dbg i p (pool5 data stride [used x, free_slot, free_slot, free_slot, free_slot] 1 4 l) =
     Inr (data + stride, pool5 data stride [used x, used \<lparr>order_id = i, price = p\<rparr>, free_slot, free_slot, free_slot] 2 3 l)"
  "new_order dbg i p (pool5 data stride [used x, used y, free_slot, free_slot, free_slot] 2 3 l) =
     Inr (data + 2 * stride,
          pool5 data stride [used x, used y, used \<lparr>order_id = i, price = p\<rparr>, free_slot, free_slot] 3 2 l)"
  by (simp_all add: pool_simps)

lemma demo_release:
  assumes "0 < data" "0 < stride"
  shows "deallocate (data + stride) (pool5 data stride [used x, used y, used z, free_slot, free_slot] i 2 l) =
      Inr (True, pool5 data stride [used x, free_slot, used z, free_slot, free_slot] 1 3 (l @ [y]))"
    "deallocate data (pool5 data stride [used x, used y, used z, used w, free_slot] i 1 l) =
      Inr (True, pool5 data stride [free_slot, used y, used z, used w, free_slot] 0 2 (l @ [x]))"
  using assms by (simp_all add: deallocate_def find_slot.simps slot_addr_def Let_def)

lemma demo_last_three:
  "new_order dbg i p (pool5 data stride [used x, free_slot, used z, free_slot, free_slot] 1 3 l) =
     Inr (data + stride,
          pool5 data stride [used x, used \<lparr>order_id = i, price = p\<rparr>, used z, free_slot, free_slot] 3 2 l)"
  "new_order dbg i p (pool5 data stride [used x, used y, used z, free_slot, free_slot] 3 2 l) =
     Inr (data + 3 * stride,
          pool5 data stride [used x, used y, used z, used \<lparr>order_id = i, price = p\<rparr>, free_slot] 4 1 l)"
  "new_order dbg i p (pool5 data stride [free_slot, used y, used z, used w, free_slot] 0 2 l) =
     Inr (data, pool5 data stride [used \<lparr>order_id = i, price = p\<rparr>, used y, used z, used w, free_slot] 4 1 l)"
  by (simp_all add: pool_simps)

section \<open>The thread demo\<close>

text \<open>The insertions of \<open>printMessage\<close>; \<open>cpu\<close> is the answer of \<open>sched_getcpu\<close> in that thread.\<close>

definition printMessage :: "int \<Rightarrow> int \<Rightarrow> string \<Rightarrow> string list" where
  "printMessage cpu i message =
     [''CPU '', show_int cpu, '' | id='', show_int i, '' | message='', message, [CHR 0x0A]]"

text \<open>Two threads that write to \<open>std::cout\<close> at the same time: \<open>sched\<close> tells whose insertion comes
  next.\<close>

fun interleave :: "bool list \<Rightarrow> 'a list \<Rightarrow> 'a list \<Rightarrow> 'a list" where
  "interleave sched [] ys = ys"
| "interleave sched xs [] = xs"
| "interleave [] xs ys = xs @ ys"
| "interleave (True # sched) (x # xs) ys = x # interleave sched xs ys"
| "interleave (False # sched) xs (y # ys) = y # interleave sched xs ys"

text \<open>How the process ends: with a status, or because an exception leaves \<open>main\<close>.\<close>

datatype process_end = Exit int | Terminated start_error

text \<open>\<open>what()\<close> of the two exceptions (the library's text for the first is a parameter); both are
  \<open>std::runtime_error\<close>s.\<close>

fun what :: "string \<Rightarrow> start_error \<Rightarrow> string" where
  "what sys_what SystemError = sys_what"
| "what sys_what FailedToStartThread = ''Failed to start thread''"

fun start_cerr :: "int \<Rightarrow> start_error \<Rightarrow> string" where
  "start_cerr core_id SystemError = []"
| "start_cerr core_id FailedToStartThread = pin_message core_id"

text \<open>\<open>main\<close>, with what it leaves on \<open>std::cout\<close> and \<open>std::cerr\<close>. \<open>spawn_ok k\<close> says whether thread
  \<open>k\<close> can be created and \<open>cpus k\<close> is the CPU it finds itself on; when the second call throws, the
  first thread has made \<open>progress\<close> of its insertions.\<close>

definition thread_demo :: "int \<Rightarrow> affinity \<Rightarrow> (nat \<Rightarrow> bool) \<Rightarrow> (nat \<Rightarrow> int) \<Rightarrow> string \<Rightarrow> bool list \<Rightarrow> nat \<Rightarrow>
    process_end \<times> string \<times> string" where
  "thread_demo current_cpu setaffinity spawn_ok cpus sys_what sched progress =
     (if current_cpu < 0 then (Exit 1, [], ''Could not detect the current CPU.'' @ [CHR 0x0A])
      else case createAndStartThread setaffinity (spawn_ok 0) current_cpu of
        Inl e \<Rightarrow> (Terminated e, [], start_cerr current_cpu e)
      | Inr pinned_thread \<Rightarrow>
          (case createAndStartThread setaffinity (spawn_ok 1) (- 1) of
             Inl e \<Rightarrow> (Terminated e, concat (take progress (printMessage (cpus 0) 10 ''pinned thread'')),
                       start_cerr (- 1) e)
           | Inr normal_thread \<Rightarrow>
               let joined = concat (interleave sched (printMessage (cpus 0) 10 ''pinned thread'')
                                                     (printMessage (cpus 1) 20 ''normal thread''))
               in case createAndStartThread setaffinity (spawn_ok 2) CPU_SETSIZE of
                    Inl error \<Rightarrow> (Exit 0, joined @ ''Expected error: '' @ what sys_what error @ [CHR 0x0A],
                                  start_cerr CPU_SETSIZE error)
                  | Inr invalid_thread \<Rightarrow>
                      (Exit 0, joined @ concat (printMessage (cpus 2) 30 ''this should not run''), [])))"

lemma interleave_Nil [simp]: "interleave sched xs [] = xs"
  by (cases xs) simp_all

lemma concat_take_prefix: "prefix (concat (take n xss)) (concat xss)"
  by (metis append_take_drop_id concat_append prefixI)

lemma shuffles_append: "xs @ ys \<in> shuffles xs ys"
  by (induction xs) (auto intro: Cons_in_shuffles_leftI)

text \<open>The schedules give exactly the interleavings.\<close>

lemma interleave_shuffles: "interleave sched xs ys \<in> shuffles xs ys"
proof (induction sched xs ys rule: interleave.induct)
  case (3 x xs y ys)
  then show ?case using shuffles_append [of "x # xs" "y # ys"] by simp
qed (auto intro: Cons_in_shuffles_leftI Cons_in_shuffles_rightI)

lemma shuffles_interleave: "zs \<in> shuffles xs ys \<Longrightarrow> \<exists>sched. interleave sched xs ys = zs"
proof (induction xs ys arbitrary: zs rule: shuffles.induct)
  case (3 x xs y ys)
  from 3(3) consider zs' where "zs = x # zs'" "zs' \<in> shuffles xs (y # ys)"
    | zs' where "zs = y # zs'" "zs' \<in> shuffles (x # xs) ys" by auto
  then show ?case
  proof cases
    case 1
    with 3(1) obtain sched where "interleave sched xs (y # ys) = zs'" by blast
    with 1 show ?thesis by (intro exI [of _ "True # sched"]) simp
  next
    case 2
    with 3(2) obtain sched where "interleave sched (x # xs) ys = zs'" by blast
    with 2 show ?thesis by (intro exI [of _ "False # sched"]) simp
  qed
qed auto

section \<open>Properties\<close>

text \<open>
  Property C37. The file of the logger demo, under every interleaving of its two threads: once
  \<open>main\<close> is through it holds exactly the five expected lines, with the values in place of the
  percent signs and the doubled percent sign written once.
\<close>

theorem logger_demo_file:
  assumes st: "reachable (logger_init dbg logger_demo) (logger_step dbg fs) st" "apc st = A_Done"
  shows "file_text st = logger_demo_text fs \<and> \<not> file_open st"
  using logger_file [OF logger_demo_formats st] logger_demo_rendered [of fs] by simp

theorem logger_demo_file_witness:
  "\<exists>st :: logger. reachable (logger_init True logger_demo) (logger_step True no_floats) st \<and> apc st = A_Done \<and>
     file_text st = logger_demo_text no_floats"
  using logger_ends [of logger_demo True no_floats, OF logger_demo_formats] logger_demo_file by blast

text \<open>
  The memory pool demo in both builds: it runs without fault, the fourth order goes
  to the slot that \<open>b\<close> had, the sixth to the slot that \<open>a\<close> had (not to \<open>b\<close>'s), this is what it
  prints, and every one of the six orders is destroyed exactly once.
\<close>

lemma memory_pool_demo_slots:
  assumes "0 < data" "0 < stride"
  shows "\<exists>a b c e out destroyed. memory_pool_demo ptr dbg data stride = Inr (out, [a, b, c, b, e, a], destroyed) \<and>
           distinct [a, b, c, e] \<and> map order_id destroyed = [2, 1, 6, 4, 3, 5] \<and>
           suffix ([CHR 0x0A] @ ''b old address = '' @ ptr b @ [CHR 0x0A] @ ''f new address = '' @ ptr a @ [CHR 0x0A]) out"
proof -
  have five: "replicate 5 free_slot = [free_slot, free_slot, free_slot, free_slot, free_slot]"
    by (simp add: numeral_eq_Suc)
  have "data + 2 * stride \<noteq> data + 3 * stride" using assms(2) by simp
  with assms show ?thesis
    unfolding memory_pool_demo_def demo_start five
    by (simp add: demo_first_three demo_release demo_last_three MemPool_dtor_def Let_def pool_line_def suffix_def)
qed

text \<open>
  Property C39. The thread demo. Without a current CPU it returns 1 with the message for that. If
  the first thread cannot be started or pinned, or the second not be started, the exception
  leaves \<open>main\<close>. In all other cases it returns 0, the third thread never runs its task, the
  terminal holds some interleaving of the lines of the first two threads followed by the line
  for the expected error, and the schedule decides which.
\<close>

theorem thread_demo_result:
  "(current_cpu < 0 \<longrightarrow> thread_demo current_cpu setaffinity spawn_ok cpus sys_what sched progress =
      (Exit 1, [], ''Could not detect the current CPU.'' @ [CHR 0x0A])) \<and>
   (0 \<le> current_cpu \<and> \<not> (spawn_ok 0 \<and> setThreadCore setaffinity current_cpu) \<longrightarrow>
      (\<exists>e err. thread_demo current_cpu setaffinity spawn_ok cpus sys_what sched progress = (Terminated e, [], err) \<and>
         (e = FailedToStartThread \<longleftrightarrow> spawn_ok 0) \<and> (err = [] \<longleftrightarrow> \<not> spawn_ok 0))) \<and>
   (spawn_ok 0 \<and> setThreadCore setaffinity current_cpu \<and> \<not> spawn_ok 1 \<longrightarrow>
      (\<exists>out. thread_demo current_cpu setaffinity spawn_ok cpus sys_what sched progress = (Terminated SystemError, out, []) \<and>
         prefix out (concat (printMessage (cpus 0) 10 ''pinned thread'')))) \<and>
   (spawn_ok 0 \<and> setThreadCore setaffinity current_cpu \<and> spawn_ok 1 \<longrightarrow>
      {thread_demo current_cpu setaffinity spawn_ok cpus sys_what sched progress |sched. True} =
      {(Exit 0, concat lines @ ''Expected error: '' @
          (if spawn_ok 2 then ''Failed to start thread'' else sys_what) @ [CHR 0x0A],
        if spawn_ok 2 then ''Failed to set thread affinity to CPU 1024'' @ [CHR 0x0A] else [])
       |lines. lines \<in> shuffles (printMessage (cpus 0) 10 ''pinned thread'')
                                (printMessage (cpus 1) 20 ''normal thread'')})"
proof (intro conjI impI)
  let ?demo = "\<lambda>sched. thread_demo current_cpu setaffinity spawn_ok cpus sys_what sched progress"
  show "?demo sched = (Exit 1, [], ''Could not detect the current CPU.'' @ [CHR 0x0A])" if "current_cpu < 0"
    using that by (simp add: thread_demo_def)
  show "\<exists>e err. ?demo sched = (Terminated e, [], err) \<and> (e = FailedToStartThread \<longleftrightarrow> spawn_ok 0) \<and>
      (err = [] \<longleftrightarrow> \<not> spawn_ok 0)" if "0 \<le> current_cpu \<and> \<not> (spawn_ok 0 \<and> setThreadCore setaffinity current_cpu)"
    using that by (cases "spawn_ok 0") (simp_all add: thread_demo_def createAndStartThread_def pin_message_def)
  have pos: "0 \<le> current_cpu" if "setThreadCore setaffinity current_cpu"
    using that by (simp add: setThreadCore_def split: if_splits)
  show "\<exists>out. ?demo sched = (Terminated SystemError, out, []) \<and>
      prefix out (concat (printMessage (cpus 0) 10 ''pinned thread''))"
    if "spawn_ok 0 \<and> setThreadCore setaffinity current_cpu \<and> \<not> spawn_ok 1"
    using that pos by (auto simp: thread_demo_def createAndStartThread_def intro: concat_take_prefix)
  show "{?demo sched |sched. True} = {(Exit 0, concat lines @ ''Expected error: '' @
          (if spawn_ok 2 then ''Failed to start thread'' else sys_what) @ [CHR 0x0A],
        if spawn_ok 2 then ''Failed to set thread affinity to CPU 1024'' @ [CHR 0x0A] else [])
       |lines. lines \<in> shuffles (printMessage (cpus 0) 10 ''pinned thread'')
                                (printMessage (cpus 1) 20 ''normal thread'')}"
    if "spawn_ok 0 \<and> setThreadCore setaffinity current_cpu \<and> spawn_ok 1"
  proof -
    have bad: "\<not> setThreadCore setaffinity CPU_SETSIZE" "show_int CPU_SETSIZE = ''1024''"
      by (simp_all add: setThreadCore_def CPU_SETSIZE_def show_int_def show_nat.simps digit_def char_of_def bit_0)
    have run: "?demo sched = (Exit 0, concat (interleave sched (printMessage (cpus 0) 10 ''pinned thread'')
          (printMessage (cpus 1) 20 ''normal thread'')) @ ''Expected error: '' @
          (if spawn_ok 2 then ''Failed to start thread'' else sys_what) @ [CHR 0x0A],
        if spawn_ok 2 then ''Failed to set thread affinity to CPU 1024'' @ [CHR 0x0A] else [])" for sched
      using that pos bad by (cases "spawn_ok 2")
        (simp_all add: thread_demo_def createAndStartThread_def pin_message_def CPU_SETSIZE_def Let_def)
    show ?thesis
      unfolding run by (auto intro: interleave_shuffles dest!: shuffles_interleave) 
  qed
qed

theorem thread_demo_result_witness:
  "(Exit 0, concat (printMessage 3 10 ''pinned thread'' @ printMessage 5 20 ''normal thread'') @
      ''Expected error: Failed to start thread'' @ [CHR 0x0A],
    ''Failed to set thread affinity to CPU 1024'' @ [CHR 0x0A])
   \<in> {thread_demo 3 (\<lambda>cpus. 0) (\<lambda>k. True) (\<lambda>k. if k = 0 then 3 else 5) [] sched 0 |sched. True}"
proof -
  let ?cpus = "\<lambda>k :: nat. if k = 0 then 3 else 5 :: int"
  let ?lines = "printMessage (?cpus 0) 10 ''pinned thread'' @ printMessage (?cpus 1) 20 ''normal thread''"
  have "True \<and> setThreadCore (\<lambda>cpus. 0) 3 \<and> True" by (simp add: setThreadCore_def CPU_SETSIZE_def)
  note runs = thread_demo_result [of 3 "\<lambda>cpus. 0" "\<lambda>k. True" ?cpus "[]" "[]" 0,
      THEN conjunct2, THEN conjunct2, THEN conjunct2, THEN mp, OF this]
  show ?thesis unfolding runs by (rule CollectI, rule exI [of _ ?lines]) (simp add: shuffles_append)
qed

end
