(* ===== verification/Spec2Isabelle.thy ===== *)
theory Spec2Isabelle
  imports Prelude Mem_Pool LF_Queue Time_Utils Thread_Utils Logger Socket_Utils TCP_Socket TCP_Server
    Server_Runs Conversations Terminal Socket_Demo Queue_Demo Demos
begin

text \<open>
  \<^bold>\<open>A verified model of lowlatency-cpp.\<close>

  The repository is a small C++ library for low-latency programs: a fixed-size memory pool, a
  lock-free queue for one producer and one consumer, time and thread utilities, an asynchronous
  logger on top of the queue, and non-blocking TCP networking (socket utilities, a buffered
  connection, an epoll server) that logs through the logger. Six small programs use the parts.
  This development translates the sources into HOL and proves what makes each part correct.

  \<^bold>\<open>Conventions.\<close>
  \<^item> An operation that can fail to return gives \<open>fault + 'a\<close> (\<open>Prelude\<close>): a failed assertion
    (only when \<open>dbg\<close> is true, the Debug build), undefined behaviour (an access outside a buffer,
    the use or the deletion of a deleted object, a division by zero, signed overflow), or fuel
    that ran out. A theorem that an operation returns \<open>Inr\<close> excludes all of these.
  \<^item> \<open>size_t\<close> and the other unsigned types are words that wrap; \<open>int\<close> values that come from the
    system are integers; byte buffers are lists of 8-bit words with checked bounds.
  \<^item> Threads (queue, logger, thread start) are step relations in which one step is at most one
    access to a shared atomic, under sequential consistency, which is the default order of the
    \<open>std::atomic\<close> operations the sources use. Ghost fields record what was published and read.
  \<^item> The operating system is a parameter: a function from the history of calls to the answer of
    the next one (\<open>os\<close> of \<open>Socket_Utils\<close>). \<open>os_ok\<close> states the documented behaviour that the code
    relies on. Memory for new clients comes from a parameter \<open>alloc\<close>, clock readings,
    \<open>pthread_setaffinity_np\<close>, whether a thread can be created or a file opened, and the printing
    of floating-point numbers and pointers are parameters too.
  \<^item> What is written to \<open>std::cout\<close> and \<open>std::cerr\<close> is part of the state; where two threads write,
    an insertion is one step.

  \<^bold>\<open>Theories.\<close>
  \<^item> \<open>Prelude\<close>: machine types, faults, decimal printing, list and word lemmas, and the interfaces
    \<open>invariant_system\<close>, \<open>progress_system\<close> and \<open>preserving_ops\<close>, which turn one-step lemmas into
    facts on reachable states, on the possibility to finish, and on sequences of calls. Each is
    interpreted on the model in the component theories.
  \<^item> \<open>Mem_Pool\<close> (\<open>include/mem_pool.hpp\<close>): \<open>MemPool\<close> with \<open>allocate\<close>, \<open>deallocate\<close>,
    \<open>updateNextFreeIndex\<close> and the destructor. Every branch of the operations, against a map of
    the objects that exist, the invariant, that the search for a free slot ends, which slot is
    used next, and that every object is destroyed exactly once.
  \<^item> \<open>LF_Queue\<close> (\<open>include/lf_queue.hpp\<close>, the protocol of \<open>src/lf_queue_demo.cpp\<close>): the class,
    its refinement of a bounded list for one thread, result by result, and the producer and the
    consumer interleaved: order, no loss, no duplication, no data race, and that all items can
    arrive.
  \<^item> \<open>Time_Utils\<close>, \<open>Thread_Utils\<close> (\<open>include/time_utils.hpp\<close>, \<open>include/thread_utils.hpp\<close>): the
    two clocks in 64-bit nanoseconds, the rendering of local time, and the start protocol of a pinned thread, with
    its two threads and as one call, which the programs and the logger use.
  \<^item> \<open>Logger\<close> (\<open>include/logger.hpp\<close>, \<open>src/logger.cpp\<close>): the elements, the overloads of
    \<open>pushValue\<close>, both overloads of \<open>log\<close>, the constructor with its two exceptions, the
    background thread and the destructor. \<open>log\<close> agrees with a reference rendering of the
    format, and under every interleaving the file finally holds every message. A failed
    assertion of \<open>log\<close> is a fault of the application thread, which then never gets to the
    destructor.
  \<^item> \<open>Socket_Utils\<close> (\<open>include/socket_utils.hpp\<close>, \<open>src/socket_utils.cpp\<close>): the system interface,
    its documented behaviour, a concrete system for examples, and all functions of the file.
    \<open>createSocket\<close> leaks nothing, a descriptor it returns is set up as asked, and it gives up
    only after a failure for every candidate.
  \<^item> \<open>TCP_Socket\<close> (\<open>include/tcp_socket.hpp\<close>, \<open>src/tcp_socket.cpp\<close>): the connection with its two
    buffers. Memory safety, the outgoing byte stream, delivery to the callback, and the failure
    flags. The interface \<open>receive_callback\<close> states what is relied on in a callback; the two
    callbacks of the library and the two of the demo are instances.
  \<^item> \<open>TCP_Server\<close> (\<open>include/tcp_server.hpp\<close>, \<open>src/tcp_server.cpp\<close>): the server with its clients
    as objects on a heap, and the invariant that every method keeps: which object owns which
    descriptor, what is registered with epoll, and what the four vectors hold.
  \<^item> \<open>Server_Runs\<close>: arbitrary sequences of calls on a server. No fault, no use of a deleted
    client, no leak, the life of a failed client up to the closing of its descriptor, what a
    single \<open>poll\<close> does to each client, and what the result of \<open>listen\<close> says.
    \<open>io_preserved\<close> carries what one socket keeps over the rounds of \<open>sendAndRecv\<close>.
  \<^item> \<open>Conversations\<close>: the bytes that came in and went out on each connection, read off the history
    of system calls. \<open>reply_callback\<close> states what a callback makes of the bytes it is shown; what
    it promises of one call holds for every client over whole runs.
  \<^item> \<open>Terminal\<close>: the library writes nothing to the terminal (\<open>state_view\<close>, for any part of the
    state that neither system calls nor log calls change).
  \<^item> \<open>Socket_Demo\<close> (\<open>src/socket_demo.cpp\<close>): the echo server and its three clients in one \<open>main\<close>,
    with the descriptors released on every return path, the exit status and its diagnostic tied
    to what failed, and the echo as a conversation.
  \<^item> \<open>Queue_Demo\<close> (\<open>src/lf_queue_demo.cpp\<close>): the threads of the queue with the lines they print.
  \<^item> \<open>Demos\<close> (\<open>src/logger_demo.cpp\<close>, \<open>src/memory_pool_demo.cpp\<close>, \<open>src/thread_demo.cpp\<close>): the file
    the first writes, the slots the second reuses, and how the third ends.
  \<^item> This theory: the server together with the logger it logs to.

  \<^bold>\<open>Bounds and fuel.\<close> The search of \<open>updateNextFreeIndex\<close> has one unit of fuel per slot, and the
  send loop of \<open>sendAndRecv\<close> one per byte of the buffer and one more; both are proved to be
  enough. The accept loop ends only when \<open>accept\<close> fails: the theorems assume a bound \<open>n\<close> on the
  number of clients that ever connect (\<open>clients_bounded\<close>) and fuel above it. Time stamps are
  assumed to fit 64-bit nanoseconds, as they do until the year 2262.

  \<^bold>\<open>Not modelled.\<close> Failures of the log file and of the terminal after they were opened, exhaustion
  of memory (\<open>std::bad_alloc\<close>), sleeping, and orders of memory access weaker than sequential
  consistency (the sources use none). The programs under \<open>tests/\<close> exercise the modelled
  operations on fixed inputs and add no state of their own. The payload of a control message is
  given as the time value read from it. Interface comments, includes and declarations in the
  headers have no counterpart.
\<close>

section \<open>The server and its log\<close>

text \<open>
  Property C6. The server's log is complete: after any run of a server and its destructor, every
  call of \<open>log\<close> that the server, its sockets and the socket utilities made has as many arguments
  as its format has holes, so none fails an assertion, and whatever the interleaving with the
  background thread, once \<open>~Logger\<close> is through the log file holds all these messages, rendered,
  complete and in order.
\<close>

theorem server_log_complete:
  assumes "env_ok os alloc n fuel app fin" "sys_inv B s" "length b1 = 65536" "length b2 = 65536"
    and run: "run_ops (server_exec os alloc fuel app fin) ops (TCPServer b1 b2, s) = Inr (srv, t)"
    and dtor: "TCPServer_dtor os srv t = Inr u"
    and st: "reachable (logger_init dbg (logs u)) (logger_step dbg fs) st" "apc st = A_Done"
  shows "snd (session dbg (logs u)) = None \<and>
         file_text st = concat (map (\<lambda>(f, args). render fs (pieces f) args) (logs u)) \<and> \<not> file_open st"
proof -
  have "server_inv B srv t"
    using server_run_keeps [OF assms(1) TCPServer_inv [OF assms(2-4)], of ops] run by auto
  then have "sys_inv B u" using TCPServer_dtor_inv [of B srv t os] dtor by auto
  then have "length args = holes f" if "(f, args) \<in> set (logs u)" for f args
    using that by (auto simp: sys_inv_def)
  from logger_file [OF this st] show ?thesis by simp
qed

theorem server_log_complete_witness:
  "\<exists>srv t u (st :: logger). run_ops (server_exec hangup_os bump 2 server_callback (\<lambda>s. s))
     [Server_listen ''lo'' 8080, Server_poll, Server_sendAndRecv] (TCPServer zeros zeros, sys_start) = Inr (srv, t) \<and>
     TCPServer_dtor hangup_os srv t = Inr u \<and> apc st = A_Done \<and>
     file_text st = concat (map (\<lambda>(f, args). render no_floats (pieces f) args) (logs u))"
proof -
  let ?ops = "[Server_listen ''lo'' 8080, Server_poll, Server_sendAndRecv]"
  obtain srv t where r: "run_ops (server_exec hangup_os bump 2 server_callback (\<lambda>s. s)) ?ops
      (TCPServer zeros zeros, sys_start) = Inr (srv, t)" "server_inv {} srv t"
    using server_run_keeps [OF hangup_env TCPServer_inv [OF sys_start_inv length_replicate length_replicate]] by blast
  obtain u where u: "TCPServer_dtor hangup_os srv t = Inr u" using TCPServer_dtor_inv [OF r(2)] by blast
  have "sys_inv {} u" using TCPServer_dtor_inv [OF r(2), of hangup_os] u by auto
  then have "length args = holes f" if "(f, args) \<in> set (logs u)" for f args
    using that by (auto simp: sys_inv_def)
  then obtain st :: logger where "reachable (logger_init True (logs u)) (logger_step True no_floats) st" "apc st = A_Done"
    using logger_ends [of "logs u" True no_floats] by blast
  then have "file_text st = concat (map (\<lambda>(f, args). render no_floats (pieces f) args) (logs u))"
    using server_log_complete [OF hangup_env sys_start_inv length_replicate length_replicate r(1) u] by blast
  with r(1) u \<open>apc st = A_Done\<close> show ?thesis by blast
qed

end
